(* ===== verification/Prelude.thy ===== *)
theory Prelude
  imports Main "HOL-Library.Word" "HOL-Library.AList"
begin

text \<open>
  Shared vocabulary of the development: the types that stand for Go's machine integers,
  instants and durations, the proof collections, and the generic lemmas on lists and
  association lists the components use.

  \<^item> A Go \<open>string\<close> or \<open>[]byte\<close> that the program treats as text is a HOL \<^typ>\<open>string\<close>: a
    \<^typ>\<open>char\<close> is one byte. Bytes that take part in arithmetic (the SOCKS messages) are
    \<open>8 word\<close>s; \<open>byte_of\<close> and \<open>chr_of\<close> convert.
  \<^item> \<open>time.Time\<close> is the number of nanoseconds since Go's zero \<open>Time\<close>, so \<open>time.Time{}\<close> is 0;
    the wall clock and the monotonic clock of one process are one clock here.
  \<^item> \<open>time.Duration\<close> is an \<open>int64\<close>: sums of instants are exact, \<open>Sub\<close> saturates and the
    product \<open>time.Duration(n) * time.Second\<close> wraps around.
\<close>

named_theorems inv_intros \<open>preservation of component invariants\<close>

subsection \<open>Machine integers, instants, durations\<close>

type_synonym byte = "8 word"
type_synonym time = int
type_synonym duration = int

definition wrap64 :: "int \<Rightarrow> int" where
  "wrap64 x = sint (word_of_int x :: 64 word)"

definition in_int64 :: "int \<Rightarrow> bool" where
  "in_int64 x \<longleftrightarrow> - (2 ^ 63) \<le> x \<and> x < 2 ^ 63"

definition sat64 :: "int \<Rightarrow> int" where
  "sat64 x = max (- (2 ^ 63)) (min (2 ^ 63 - 1) x)"

lemma wrap64_id: "in_int64 x \<Longrightarrow> wrap64 x = x"
  unfolding wrap64_def in_int64_def
  by (simp add: sint_sbintrunc' signed_take_bit_int_eq_self)

lemma sat64_id: "in_int64 x \<Longrightarrow> sat64 x = x"
  by (simp add: sat64_def in_int64_def)

abbreviation (input) zero_time :: time where "zero_time \<equiv> 0"

abbreviation (input) second :: duration where "second \<equiv> 1000000000"

definition time_before :: "time \<Rightarrow> time \<Rightarrow> bool" where
  "time_before t u \<longleftrightarrow> t < u"

definition time_add :: "time \<Rightarrow> duration \<Rightarrow> time" where
  "time_add t d = t + d"

definition time_sub :: "time \<Rightarrow> time \<Rightarrow> duration" where
  "time_sub t u = sat64 (t - u)"

definition seconds :: "int \<Rightarrow> duration" where
  \<comment> \<open>\<open>time.Duration(n) * time.Second\<close>\<close>
  "seconds n = wrap64 (n * second)"

lemma seconds_exact: "in_int64 (n * second) \<Longrightarrow> seconds n = n * second"
  by (simp add: seconds_def wrap64_id)

lemma time_sub_exact: "in_int64 (t - u) \<Longrightarrow> time_sub t u = t - u"
  by (simp add: time_sub_def sat64_id)

lemma time_sub_pos: "u < t \<Longrightarrow> 0 < time_sub t u"
  by (simp add: time_sub_def sat64_def)

lemma time_sub_ge_iff: "0 < d \<Longrightarrow> d < 2 ^ 63 \<Longrightarrow> d \<le> time_sub t u \<longleftrightarrow> d \<le> t - u"
  by (auto simp: time_sub_def sat64_def)

subsection \<open>Bytes and characters\<close>

definition byte_of :: "char \<Rightarrow> byte" where
  "byte_of c = word_of_nat (of_char c)"

definition chr_of :: "byte \<Rightarrow> char" where
  "chr_of b = char_of (unat b)"

lemma chr_of_byte_of [simp]: "chr_of (byte_of c) = c"
  using nat_of_char_less_256 [of c] by (simp add: chr_of_def byte_of_def unat_of_nat)

lemma byte_of_eq_iff [simp]: "byte_of c = byte_of d \<longleftrightarrow> c = d"
  by (metis chr_of_byte_of)

lemma byte_of_0 [simp]: "byte_of c = 0 \<longleftrightarrow> c = CHR 0x00"
proof -
  have "byte_of (CHR 0x00) = 0" by (simp add: byte_of_def)
  then show ?thesis by (metis byte_of_eq_iff)
qed

lemma map_chr_of_byte_of [simp]: "map chr_of (map byte_of s) = s"
  by (simp add: o_def)

subsection \<open>Association lists\<close>

lemma alist_update_new: "k \<notin> fst ` set al \<Longrightarrow> AList.update k v al = al @ [(k, v)]"
  by (induction al) auto

end
