(* ===== verification/GoStrings.thy ===== *)
theory GoStrings
  imports Prelude
begin

text \<open>
  The parts of Go's standard library for text that the program calls, on byte strings:
  \<open>strings.Cut\<close>, \<open>Split\<close>, \<open>Fields\<close>, \<open>TrimSpace\<close>, \<open>TrimSuffix\<close>, \<open>EqualFold\<close> (against an
  ASCII pattern), \<open>strconv.Atoi\<close>, \<open>strconv.ParseBool\<close>, decimal printing,
  \<open>textproto.CanonicalMIMEHeaderKey\<close> and \<open>base64.StdEncoding\<close>. A fallible function returns
  an option; \<open>None\<close> is the error result.
\<close>

subsection \<open>Searching and cutting\<close>

fun cut :: "char \<Rightarrow> string \<Rightarrow> (string \<times> string) option" where
  \<comment> \<open>\<open>strings.Cut\<close> with a one-byte separator; \<open>None\<close> is \<open>found == false\<close>\<close>
  "cut c [] = None"
| "cut c (x # xs) = (if x = c then Some ([], xs) else map_option (\<lambda>(a, b). (x # a, b)) (cut c xs))"

definition last_cut :: "char \<Rightarrow> string \<Rightarrow> (string \<times> string) option" where
  "last_cut c s = map_option (\<lambda>(a, b). (rev b, rev a)) (cut c (rev s))"

definition has_prefix :: "string \<Rightarrow> string \<Rightarrow> bool" where
  "has_prefix s p \<longleftrightarrow> take (length p) s = p"

definition has_suffix :: "string \<Rightarrow> string \<Rightarrow> bool" where
  "has_suffix s p \<longleftrightarrow> length p \<le> length s \<and> drop (length s - length p) s = p"

definition trim_suffix :: "string \<Rightarrow> string \<Rightarrow> string" where
  "trim_suffix s p = (if has_suffix s p then take (length s - length p) s else s)"

definition contains_any :: "string \<Rightarrow> string \<Rightarrow> bool" where
  "contains_any s cs \<longleftrightarrow> list_ex (\<lambda>c. c \<in> set cs) s"

fun split_on :: "char \<Rightarrow> string \<Rightarrow> string list" where
  "split_on c [] = [[]]"
| "split_on c (x # xs) =
     (if x = c then [] # split_on c xs
      else case split_on c xs of [] \<Rightarrow> [[x]] | w # ws \<Rightarrow> (x # w) # ws)"

lemma cut_Some_iff: "cut c s = Some (a, b) \<longleftrightarrow> s = a @ c # b \<and> c \<notin> set a"
proof (induction s arbitrary: a)
  case (Cons x xs)
  show ?case
  proof (cases "x = c")
    case True
    then show ?thesis by (cases a) auto
  next
    case False
    then show ?thesis by (cases a) (auto simp: Cons.IH)
  qed
qed simp

lemma cut_None_iff: "cut c s = None \<longleftrightarrow> c \<notin> set s"
  by (induction s) auto

lemma cut_append [simp]: "c \<notin> set a \<Longrightarrow> cut c (a @ c # b) = Some (a, b)"
  by (simp add: cut_Some_iff)

lemma last_cut_Some_iff: "last_cut c s = Some (a, b) \<longleftrightarrow> s = a @ c # b \<and> c \<notin> set b"
proof -
  have "last_cut c s = Some (a, b) \<longleftrightarrow> cut c (rev s) = Some (rev b, rev a)"
    by (auto simp: last_cut_def)
  also have "\<dots> \<longleftrightarrow> rev s = rev b @ c # rev a \<and> c \<notin> set b"
    by (simp add: cut_Some_iff)
  also have "rev s = rev b @ c # rev a \<longleftrightarrow> s = a @ c # b"
    by (metis rev_append rev_rev_ident rev.simps(2) append_assoc append_Cons append_Nil)
  finally show ?thesis .
qed

lemma last_cut_None_iff: "last_cut c s = None \<longleftrightarrow> c \<notin> set s"
  by (simp add: last_cut_def cut_None_iff)

lemma has_prefix_append [simp]: "has_prefix (p @ s) p"
  by (simp add: has_prefix_def)

lemma split_on_nonempty [simp]: "split_on c s \<noteq> []"
  by (induction s) (auto split: list.splits)

lemma split_on_tokens: "t \<in> set (split_on c s) \<Longrightarrow> c \<notin> set t"
proof (induction s arbitrary: t)
  case (Cons x xs)
  then show ?case by (cases "split_on c xs") (auto split: if_splits)
qed simp

lemma split_on_append: "c \<notin> set a \<Longrightarrow> split_on c (a @ c # b) = a # split_on c b"
  by (induction a) auto

lemma split_on_absent: "c \<notin> set s \<Longrightarrow> split_on c s = [s]"
  by (induction s) auto

text \<open>The pieces are the maximal parts without the separator.\<close>

lemma split_on_mem:
  "t \<in> set (split_on c s) \<longleftrightarrow>
     c \<notin> set t \<and> (\<exists>a b. s = a @ t @ b \<and> (a = [] \<or> last a = c) \<and> (b = [] \<or> hd b = c))"
  (is "_ \<longleftrightarrow> ?part t s")
proof (induction "length s" arbitrary: s rule: less_induct)
  case less
  show ?case
  proof (cases "c \<in> set s")
    case False
    have "?part t s \<longleftrightarrow> t = s"
    proof
      assume "?part t s"
      then obtain p q where p: "s = p @ t @ q" "p = [] \<or> last p = c" "q = [] \<or> hd q = c" by blast
      have "p = []" by (rule ccontr) (use p False last_in_set [of p] in simp)
      moreover have "q = []" by (rule ccontr) (use p False hd_in_set [of q] in simp)
      ultimately show "t = s" using p(1) by simp
    next
      assume "t = s"
      with False show "?part t s" by (intro conjI exI [of _ "[]"]) auto
    qed
    with False show ?thesis by (auto simp: split_on_absent)
  next
    case True
    then obtain a b where s: "s = a @ c # b" "c \<notin> set a" by (meson split_list_first)
    have "?part t s \<longleftrightarrow> t = a \<or> ?part t b"
    proof
      assume "?part t s"
      then obtain p q where p: "s = p @ t @ q" "p = [] \<or> last p = c" "q = [] \<or> hd q = c" "c \<notin> set t" by blast
      show "t = a \<or> ?part t b"
      proof (cases "c \<in> set p")
        case True
        then obtain r r' where "p = r @ c # r'" "c \<notin> set r" by (meson split_list_first)
        moreover have "cut c s = Some (a, b)" using s by (simp add: cut_Some_iff)
        moreover have "cut c s = Some (r, r' @ t @ q)" using calculation(1,2) p(1) by (simp only: cut_Some_iff) simp
        ultimately have "p = r @ c # r'" "b = r' @ t @ q" by simp_all
        moreover have "r' = [] \<or> last r' = c" using p(2) \<open>p = r @ c # r'\<close> by (cases r' rule: rev_cases) auto
        ultimately show ?thesis using p(3,4) by blast
      next
        case False
        with p(2) have "p = []" by (metis last_in_set)
        with p s have "q \<noteq> []" by (metis append.left_neutral append.right_neutral in_set_conv_decomp)
        with p(3) obtain q' where "q = c # q'" by (cases q) auto
        with p(1,4) \<open>p = []\<close> have "cut c s = Some (t, q')" unfolding cut_Some_iff by simp
        moreover have "cut c s = Some (a, b)" using s by (simp add: cut_Some_iff)
        ultimately show ?thesis by simp
      qed
    next
      assume "t = a \<or> ?part t b"
      then show "?part t s"
      proof
        assume "t = a"
        with s show ?thesis by (intro conjI exI [of _ "[]"] exI [of _ "c # b"]) auto
      next
        assume "?part t b"
        then obtain p q where p: "b = p @ t @ q" "p = [] \<or> last p = c" "q = [] \<or> hd q = c" "c \<notin> set t" by blast
        then have "s = (a @ c # p) @ t @ q" "last (a @ c # p) = c" using s(1) by auto
        with p(3,4) show ?thesis by blast
      qed
    qed
    moreover have "t \<in> set (split_on c b) \<longleftrightarrow> ?part t b" by (rule less.hyps) (simp add: s(1))
    ultimately show ?thesis using s by (simp add: split_on_append)
  qed
qed

subsection \<open>White space\<close>

text \<open>
  \<open>unicode.IsSpace\<close>: the six ASCII characters, and the UTF-8 encodings of the other white
  space runes. No proper suffix of such an encoding starts a rune, so testing for an
  encoding byte by byte agrees with Go's decoding of the string rune by rune.
\<close>

definition ascii_space :: "char \<Rightarrow> bool" where
  "ascii_space c \<longleftrightarrow> c \<in> {CHR 0x09, CHR 0x0A, CHR 0x0B, CHR 0x0C, CHR 0x0D, CHR 0x20}"

definition wide_spaces :: "string list" where
  "wide_spaces =
     [[CHR 0xC2, CHR 0x85], [CHR 0xC2, CHR 0xA0], [CHR 0xE1, CHR 0x9A, CHR 0x80]]
     @ map (\<lambda>b. [CHR 0xE2, CHR 0x80, b])
         [CHR 0x80, CHR 0x81, CHR 0x82, CHR 0x83, CHR 0x84, CHR 0x85, CHR 0x86, CHR 0x87,
          CHR 0x88, CHR 0x89, CHR 0x8A, CHR 0xA8, CHR 0xA9, CHR 0xAF]
     @ [[CHR 0xE2, CHR 0x81, CHR 0x9F], [CHR 0xE3, CHR 0x80, CHR 0x80]]"

definition space_len :: "string list \<Rightarrow> string \<Rightarrow> nat" where
  \<comment> \<open>the length of the white space rune at the front of the string, 0 if there is none\<close>
  "space_len wide s =
     (case s of [] \<Rightarrow> 0
      | c # _ \<Rightarrow>
          if ascii_space c then 1
          else case filter (has_prefix s) wide of [] \<Rightarrow> 0 | w # _ \<Rightarrow> length w)"

lemma space_len_Nil [simp]: "space_len wide [] = 0"
  by (simp add: space_len_def)

lemma space_len_ascii: "ascii_space c \<Longrightarrow> space_len wide (c # s) = 1"
  by (simp add: space_len_def)

function skip_spaces :: "string list \<Rightarrow> string \<Rightarrow> string" where
  "skip_spaces wide s = (if space_len wide s = 0 then s else skip_spaces wide (drop (space_len wide s) s))"
  by pat_completeness auto
termination
proof (relation "measure (\<lambda>(_, s). length s)")
  fix wide s assume "space_len wide s \<noteq> 0"
  then show "((wide, drop (space_len wide s) s), wide, s) \<in> measure (\<lambda>(_, s). length s)"
    by (cases s) auto
qed simp

declare skip_spaces.simps [simp del]

definition trim_space :: "string \<Rightarrow> string" where
  "trim_space s = rev (skip_spaces (map rev wide_spaces) (rev (skip_spaces wide_spaces s)))"

function mark_spaces :: "string \<Rightarrow> char option list" where
  "mark_spaces [] = []"
| "mark_spaces (c # s) =
     (if space_len wide_spaces (c # s) = 0 then Some c # mark_spaces s
      else None # mark_spaces (drop (space_len wide_spaces (c # s)) (c # s)))"
  by pat_completeness auto
termination
  by (relation "measure length") auto

fun words_of :: "char option list \<Rightarrow> string list" where
  "words_of [] = [[]]"
| "words_of (None # xs) = [] # words_of xs"
| "words_of (Some c # xs) = (case words_of xs of [] \<Rightarrow> [[c]] | w # ws \<Rightarrow> (c # w) # ws)"

definition fields_of :: "string \<Rightarrow> string list" where
  \<comment> \<open>\<open>strings.Fields\<close>\<close>
  "fields_of s = filter (\<lambda>w. w \<noteq> []) (words_of (mark_spaces s))"

subsection \<open>Case folding and header names\<close>

definition ascii_upper :: "char \<Rightarrow> bool" where
  "ascii_upper c \<longleftrightarrow> (let n = of_char c :: nat in 65 \<le> n \<and> n \<le> 90)"

definition ascii_lower :: "char \<Rightarrow> bool" where
  "ascii_lower c \<longleftrightarrow> (let n = of_char c :: nat in 97 \<le> n \<and> n \<le> 122)"

definition ascii_digit :: "char \<Rightarrow> bool" where
  "ascii_digit c \<longleftrightarrow> (let n = of_char c :: nat in 48 \<le> n \<and> n \<le> 57)"

definition to_lower :: "char \<Rightarrow> char" where
  "to_lower c = (if ascii_upper c then char_of (of_char c + 32 :: nat) else c)"

definition to_upper :: "char \<Rightarrow> char" where
  "to_upper c = (if ascii_lower c then char_of (of_char c - 32 :: nat) else c)"

fun equal_fold :: "string \<Rightarrow> string \<Rightarrow> bool" where
  \<comment> \<open>\<open>strings.EqualFold\<close> where the second string is ASCII: beside the other case of a letter,
      U+017F (bytes C5 BF) folds to \<open>s\<close> and U+212A (bytes E2 84 AA) to \<open>k\<close>\<close>
  "equal_fold s [] = (s = [])"
| "equal_fold s (d # ds) =
     (case s of [] \<Rightarrow> False
      | c # cs \<Rightarrow>
          if (of_char c :: nat) < 128 then to_lower c = to_lower d \<and> equal_fold cs ds
          else if to_lower d = CHR ''s'' \<and> take 2 s = [CHR 0xC5, CHR 0xBF] then equal_fold (drop 2 s) ds
          else if to_lower d = CHR ''k'' \<and> take 3 s = [CHR 0xE2, CHR 0x84, CHR 0xAA] then equal_fold (drop 3 s) ds
          else False)"

lemma equal_fold_refl_ascii: "\<forall>c \<in> set s. (of_char c :: nat) < 128 \<Longrightarrow> equal_fold s s"
  by (induction s) auto

definition token_char :: "char \<Rightarrow> bool" where
  \<comment> \<open>the bytes of an RFC 9110 token\<close>
  "token_char c \<longleftrightarrow> ascii_upper c \<or> ascii_lower c \<or> ascii_digit c
     \<or> c \<in> set ''!#$%&*+-.^_|~'' \<or> c \<in> {CHR 0x27, CHR 0x60}"

fun canon_from :: "bool \<Rightarrow> string \<Rightarrow> string" where
  "canon_from up [] = []"
| "canon_from up (c # s) = (if up then to_upper c else to_lower c) # canon_from (c = CHR ''-'') s"

definition canonical_key :: "string \<Rightarrow> string" where
  \<comment> \<open>\<open>textproto.CanonicalMIMEHeaderKey\<close>: a string that is no token is left unchanged\<close>
  "canonical_key s = (if list_all token_char s then canon_from True s else s)"

lemma to_upper_idem [simp]: "to_upper (to_upper c) = to_upper c"
  by (auto simp: to_upper_def ascii_lower_def Let_def of_char_of)

lemma to_lower_idem [simp]: "to_lower (to_lower c) = to_lower c"
  by (auto simp: to_lower_def ascii_upper_def Let_def of_char_of)

lemma to_upper_dash [simp]: "to_upper c = CHR ''-'' \<longleftrightarrow> c = CHR ''-''"
proof -
  have "c = char_of (of_char c :: nat)" by simp
  then show ?thesis
    by (auto simp: to_upper_def ascii_lower_def Let_def simp flip: of_char_eq_iff [where 'a = nat])
qed

lemma to_lower_dash [simp]: "to_lower c = CHR ''-'' \<longleftrightarrow> c = CHR ''-''"
  by (auto simp: to_lower_def ascii_upper_def Let_def simp flip: of_char_eq_iff [where 'a = nat])

lemma token_char_to_upper: "token_char c \<Longrightarrow> token_char (to_upper c)"
  by (auto simp: token_char_def to_upper_def ascii_lower_def ascii_upper_def Let_def)

lemma token_char_to_lower: "token_char c \<Longrightarrow> token_char (to_lower c)"
  by (auto simp: token_char_def to_lower_def ascii_lower_def ascii_upper_def Let_def)

lemma canon_from_idem [simp]: "canon_from up (canon_from up s) = canon_from up s"
  by (induction s arbitrary: up) auto

lemma token_canon_from: "list_all token_char s \<Longrightarrow> list_all token_char (canon_from up s)"
  by (induction s arbitrary: up) (auto simp: token_char_to_upper token_char_to_lower)

lemma canonical_key_idem [simp]: "canonical_key (canonical_key s) = canonical_key s"
  by (simp add: canonical_key_def token_canon_from)

end
