(* ===== verification/GoCodec.thy ===== *)
theory GoCodec
  imports GoStrings
begin

text \<open>
  Numbers and bytes as text: \<open>strconv.Atoi\<close>, \<open>strconv.ParseBool\<close>, decimal printing and
  \<open>base64.StdEncoding\<close>, with the round trips the handlers rely on.
\<close>

subsection \<open>Decimal numbers\<close>

definition digit_char :: "nat \<Rightarrow> char" where
  "digit_char d = char_of (48 + d)"

function itoa :: "nat \<Rightarrow> string" where
  "itoa n = (if n < 10 then [digit_char n] else itoa (n div 10) @ [digit_char (n mod 10)])"
  by pat_completeness auto
termination
  by (relation "measure id") auto

declare itoa.simps [simp del]

fun digits_value :: "nat \<Rightarrow> string \<Rightarrow> nat option" where
  "digits_value acc [] = Some acc"
| "digits_value acc (c # cs) =
     (if ascii_digit c then digits_value (10 * acc + (of_char c - 48)) cs else None)"

definition atoi :: "string \<Rightarrow> int option" where
  \<comment> \<open>\<open>strconv.Atoi\<close> on a 64-bit platform: an optional sign, then decimal digits\<close>
  "atoi s =
     (let neg = (s \<noteq> [] \<and> hd s = CHR ''-'');
          ds = (if s \<noteq> [] \<and> (hd s = CHR ''-'' \<or> hd s = CHR ''+'') then tl s else s)
      in if ds = [] then None
         else case digits_value 0 ds of
           None \<Rightarrow> None
         | Some v \<Rightarrow> (let n = (if neg then - int v else int v) in if in_int64 n then Some n else None))"

definition parse_bool :: "string \<Rightarrow> bool option" where
  \<comment> \<open>\<open>strconv.ParseBool\<close>\<close>
  "parse_bool s =
     (if s \<in> {''1'', ''t'', ''T'', ''true'', ''TRUE'', ''True''} then Some True
      else if s \<in> {''0'', ''f'', ''F'', ''false'', ''FALSE'', ''False''} then Some False
      else None)"

lemma digit_char_digit: "d < 10 \<Longrightarrow> ascii_digit (digit_char d) \<and> (of_char (digit_char d) :: nat) = 48 + d"
  by (simp add: digit_char_def ascii_digit_def Let_def of_char_of)

lemma itoa_nonempty [simp]: "itoa n \<noteq> []"
  by (subst itoa.simps) simp

lemma itoa_digits: "c \<in> set (itoa n) \<Longrightarrow> ascii_digit c"
proof (induction n rule: itoa.induct)
  case (1 n)
  then show ?case
    by (subst (asm) (2) itoa.simps) (auto simp: digit_char_digit split: if_splits)
qed

lemma digits_value_append:
  "digits_value acc (xs @ ys) = (case digits_value acc xs of None \<Rightarrow> None | Some v \<Rightarrow> digits_value v ys)"
  by (induction xs arbitrary: acc) auto

lemma digits_value_itoa: "digits_value 0 (itoa n) = Some n"
proof (induction n rule: itoa.induct)
  case (1 n)
  show ?case
  proof (cases "n < 10")
    case True
    then show ?thesis by (simp add: itoa.simps [of n] digit_char_digit)
  next
    case False
    then have "digits_value 0 (itoa (n div 10)) = Some (n div 10)" by (rule 1)
    with False show ?thesis
      by (simp add: itoa.simps [of n] digits_value_append digit_char_digit)
  qed
qed

lemma digits_value_Some_digits: "digits_value acc s = Some v \<Longrightarrow> c \<in> set s \<Longrightarrow> ascii_digit c"
  by (induction s arbitrary: acc) (auto split: if_splits)

lemma ascii_digit_not_sign: "ascii_digit c \<Longrightarrow> c \<noteq> CHR ''-'' \<and> c \<noteq> CHR ''+''"
  by (auto simp: ascii_digit_def)

lemma atoi_itoa: "int n < 2 ^ 63 \<Longrightarrow> atoi (itoa n) = Some (int n)"
proof -
  assume n: "int n < 2 ^ 63"
  have "hd (itoa n) \<noteq> CHR ''-'' \<and> hd (itoa n) \<noteq> CHR ''+''"
    by (intro ascii_digit_not_sign itoa_digits [of _ n]) simp
  with n show ?thesis
    by (simp add: atoi_def digits_value_itoa in_int64_def)
qed

lemma atoi_chars:
  assumes "atoi s = Some n" "c \<in> set s"
  shows "ascii_digit c \<or> c = CHR ''-'' \<or> c = CHR ''+''"
proof (cases s)
  case (Cons x xs)
  with assms show ?thesis
    by (auto simp: atoi_def Let_def split: if_splits option.splits dest: digits_value_Some_digits)
qed (use assms in \<open>simp add: atoi_def\<close>)

lemma atoi_int64: "atoi s = Some n \<Longrightarrow> in_int64 n"
  by (auto simp: atoi_def Let_def split: if_splits option.splits)

lemma itoa_inj: "itoa m = itoa n \<longleftrightarrow> m = n"
  by (metis digits_value_itoa option.inject)

subsection \<open>Base64 with the standard alphabet and padding\<close>

definition b64_char :: "nat \<Rightarrow> char" where
  "b64_char v =
     (if v < 26 then char_of (65 + v)
      else if v < 52 then char_of (97 + (v - 26))
      else if v < 62 then char_of (48 + (v - 52))
      else if v = 62 then CHR ''+'' else CHR ''/'')"

definition b64_value :: "char \<Rightarrow> nat option" where
  "b64_value c =
     (let n = of_char c :: nat in
      if ascii_upper c then Some (n - 65)
      else if ascii_lower c then Some (n - 97 + 26)
      else if ascii_digit c then Some (n - 48 + 52)
      else if c = CHR ''+'' then Some 62
      else if c = CHR ''/'' then Some 63
      else None)"

fun b64_encode :: "nat list \<Rightarrow> string" where
  "b64_encode [] = []"
| "b64_encode [a] = [b64_char (a div 4), b64_char ((a mod 4) * 16), CHR ''='', CHR ''='']"
| "b64_encode [a, b] =
     [b64_char (a div 4), b64_char ((a mod 4) * 16 + b div 16), b64_char ((b mod 16) * 4), CHR ''='']"
| "b64_encode (a # b # c # r) =
     b64_char (a div 4) # b64_char ((a mod 4) * 16 + b div 16)
     # b64_char ((b mod 16) * 4 + c div 64) # b64_char (c mod 64) # b64_encode r"

fun b64_quanta :: "string \<Rightarrow> nat list option" where
  \<comment> \<open>the input without line breaks, four characters at a time; the unused low bits of a
      padded quantum are not checked (the decoder is not \<open>Strict\<close>)\<close>
  "b64_quanta [] = Some []"
| "b64_quanta (w # x # y # z # r) =
     (case (b64_value w, b64_value x) of
        (Some p, Some q) \<Rightarrow>
          if y = CHR ''='' then
            (if z = CHR ''='' \<and> r = [] then Some [p * 4 + q div 16] else None)
          else (case b64_value y of
            None \<Rightarrow> None
          | Some s \<Rightarrow>
              if z = CHR ''='' then
                (if r = [] then Some [p * 4 + q div 16, (q mod 16) * 16 + s div 4] else None)
              else (case (b64_value z, b64_quanta r) of
                (Some t, Some rest) \<Rightarrow>
                  Some ((p * 4 + q div 16) # ((q mod 16) * 16 + s div 4) # ((s mod 4) * 64 + t) # rest)
              | _ \<Rightarrow> None))
      | _ \<Rightarrow> None)"
| "b64_quanta _ = None"

definition base64_encode :: "string \<Rightarrow> string" where
  "base64_encode s = b64_encode (map of_char s)"

definition base64_decode :: "string \<Rightarrow> string option" where
  "base64_decode s =
     map_option (map char_of) (b64_quanta (filter (\<lambda>c. c \<noteq> CHR 0x0D \<and> c \<noteq> CHR 0x0A) s))"

definition b64_alphabet :: "char \<Rightarrow> bool" where
  "b64_alphabet c \<longleftrightarrow> ascii_upper c \<or> ascii_lower c \<or> ascii_digit c \<or> c \<in> {CHR ''+'', CHR ''/'', CHR ''=''}"

lemma b64_value_char: "v < 64 \<Longrightarrow> b64_value (b64_char v) = Some v"
  by (auto simp: b64_char_def b64_value_def Let_def ascii_upper_def ascii_lower_def ascii_digit_def of_char_of)

lemma b64_char_alphabet: "v < 64 \<Longrightarrow> b64_alphabet (b64_char v) \<and> b64_char v \<noteq> CHR ''=''"
  by (auto simp: b64_char_def b64_alphabet_def Let_def ascii_upper_def ascii_lower_def ascii_digit_def of_char_of
      simp flip: of_char_eq_iff [where 'a = nat])

lemma b64_alphabet_no_break: "b64_alphabet c \<Longrightarrow> c \<noteq> CHR 0x0D \<and> c \<noteq> CHR 0x0A \<and> c \<noteq> CHR 0x20"
  by (auto simp: b64_alphabet_def ascii_upper_def ascii_lower_def ascii_digit_def)

lemma byte_digits:
  fixes a :: nat
  assumes "a < 256"
  shows "a div 4 < 64" "a div 16 < 16" "a div 64 < 4"
  using assms by (simp_all add: less_mult_imp_div_less)

lemma sextet_bounds:
  fixes a b c :: nat
  assumes "a < 256" "b < 256" "c < 256"
  shows "a div 4 < 64" "a mod 4 * 16 + b div 16 < 64" "b mod 16 * 4 + c div 64 < 64" "c mod 64 < 64"
    "a mod 4 * 16 < 64" "b mod 16 * 4 < 64"
proof -
  have "a mod 4 < 4" "b mod 16 < 16" by simp_all
  then show "a div 4 < 64" "a mod 4 * 16 + b div 16 < 64" "b mod 16 * 4 + c div 64 < 64"
    "c mod 64 < 64" "a mod 4 * 16 < 64" "b mod 16 * 4 < 64"
    using byte_digits [OF assms(1)] byte_digits [OF assms(2)] byte_digits [OF assms(3)]
    by (linarith | simp)+
qed

lemma two_digits:
  fixes p q n :: nat
  assumes "q < n"
  shows "(p * n + q) div n = p" "(p * n + q) mod n = q"
  using assms by simp_all

lemma sextets_byte:
  fixes a b c :: nat
  assumes "b < 256" "c < 256"
  shows "a div 4 * 4 + (a mod 4 * 16 + b div 16) div 16 = a"
    "(a mod 4 * 16 + b div 16) mod 16 * 16 + (b mod 16 * 4 + c div 64) div 4 = b"
    "(b mod 16 * 4 + c div 64) mod 4 * 64 + c mod 64 = c"
  using two_digits [OF byte_digits(2) [OF assms(1)], of "a mod 4"]
    two_digits [OF byte_digits(3) [OF assms(2)], of "b mod 16"]
  by simp_all

lemma b64_encode_alphabet:
  "list_all (\<lambda>a. a < 256) as \<Longrightarrow> c \<in> set (b64_encode as) \<Longrightarrow> b64_alphabet c"
proof (induction as rule: b64_encode.induct)
  case (2 a)
  then show ?case
    using sextet_bounds [of a 0 0] by (auto simp: b64_char_alphabet b64_alphabet_def [of "CHR ''=''"])
next
  case (3 a b)
  then show ?case
    using sextet_bounds [of a b 0] by (auto simp: b64_char_alphabet b64_alphabet_def [of "CHR ''=''"])
next
  case (4 a b d r)
  then show ?case
    using sextet_bounds [of a b d] by (auto simp: b64_char_alphabet)
qed simp

lemma b64_quanta_encode: "list_all (\<lambda>a. a < 256) as \<Longrightarrow> b64_quanta (b64_encode as) = Some as"
proof (induction as rule: b64_encode.induct)
  case (2 a)
  then show ?case
    using sextet_bounds [of a 0 0] two_digits [of 0 16 "a mod 4"] by (simp add: b64_value_char)
next
  case (3 a b)
  then show ?case
    using sextet_bounds [of a b 0] sextets_byte(1) [of b 0 a] sextets_byte(2) [of b 0 a]
    by (simp add: b64_value_char b64_char_alphabet)
next
  case (4 a b c r)
  then show ?case
    using sextet_bounds [of a b c] byte_digits [of b] byte_digits [of c]
    by (simp add: b64_value_char b64_char_alphabet)
qed simp

lemma base64_encode_alphabet: "c \<in> set (base64_encode s) \<Longrightarrow> b64_alphabet c"
  unfolding base64_encode_def
  by (erule b64_encode_alphabet [rotated]) (simp add: list_all_iff)

lemma base64_decode_encode [simp]: "base64_decode (base64_encode s) = Some s"
proof -
  have "filter (\<lambda>c. c \<noteq> CHR 0x0D \<and> c \<noteq> CHR 0x0A) (base64_encode s) = base64_encode s"
    by (rule filter_True) (auto dest: base64_encode_alphabet b64_alphabet_no_break)
  then show ?thesis
    by (simp add: base64_decode_def base64_encode_def b64_quanta_encode list_all_iff o_def)
qed

end
