(* ===== verification/GoNet.thy ===== *)
theory GoNet
  imports GoCodec
begin

text \<open>
  The address functions of Go's \<open>net\<close> package the program calls: \<open>SplitHostPort\<close>,
  \<open>JoinHostPort\<close>, \<open>ParseIP\<close> with \<open>To4\<close> and \<open>IsLoopback\<close>. An address is Go's 16-byte form.
\<close>

subsection \<open>Host and port\<close>

datatype addr_error = MissingPort | TooManyColons | MissingBracket | UnexpectedOpen | UnexpectedClose

definition split_host_port :: "string \<Rightarrow> addr_error + (string \<times> string)" where
  "split_host_port hp =
     (case last_cut CHR '':'' hp of
        None \<Rightarrow> Inl MissingPort
      | Some (front, port) \<Rightarrow>
          if hd hp = CHR ''['' then
            (case cut CHR '']'' hp of
               None \<Rightarrow> Inl MissingBracket
             | Some (pre, post) \<Rightarrow>
                 if post = [] then Inl MissingPort
                 else if front \<noteq> pre @ [CHR '']''] then
                   Inl (if hd post = CHR '':'' then TooManyColons else MissingPort)
                 else if CHR ''['' \<in> set (tl hp) then Inl UnexpectedOpen
                 else if CHR '']'' \<in> set post then Inl UnexpectedClose
                 else Inr (tl pre, port))
          else if CHR '':'' \<in> set front then Inl TooManyColons
          else if CHR ''['' \<in> set hp then Inl UnexpectedOpen
          else if CHR '']'' \<in> set hp then Inl UnexpectedClose
          else Inr (front, port))"

definition join_host_port :: "string \<Rightarrow> string \<Rightarrow> string" where
  "join_host_port h p =
     (if CHR '':'' \<in> set h then CHR ''['' # h @ CHR '']'' # CHR '':'' # p else h @ CHR '':'' # p)"

lemma split_join_host_port:
  assumes h: "CHR ''['' \<notin> set h" "CHR '']'' \<notin> set h"
    and p: "CHR '':'' \<notin> set p" "CHR ''['' \<notin> set p" "CHR '']'' \<notin> set p"
  shows "split_host_port (join_host_port h p) = Inr (h, p)"
proof (cases "CHR '':'' \<in> set h")
  case True
  have "last_cut CHR '':'' (CHR ''['' # h @ CHR '']'' # CHR '':'' # p) = Some (CHR ''['' # h @ [CHR '']''], p)"
    using p by (simp add: last_cut_Some_iff)
  moreover have "cut CHR '']'' (CHR ''['' # h @ CHR '']'' # CHR '':'' # p) = Some (CHR ''['' # h, CHR '':'' # p)"
    using h by (simp add: cut_Some_iff)
  ultimately show ?thesis
    using True h p by (simp add: split_host_port_def join_host_port_def)
next
  case False
  have "last_cut CHR '':'' (h @ CHR '':'' # p) = Some (h, p)"
    using p by (simp add: last_cut_Some_iff)
  moreover have "hd (h @ CHR '':'' # p) \<noteq> CHR ''[''"
    using h by (cases h) auto
  ultimately show ?thesis
    using False h p by (simp add: split_host_port_def join_host_port_def)
qed

lemma split_host_port_Inr:
  assumes "split_host_port hp = Inr (h, p)"
  shows "(hp = h @ CHR '':'' # p \<or> hp = CHR ''['' # h @ CHR '']'' # CHR '':'' # p) \<and> CHR '':'' \<notin> set p"
proof -
  obtain front where lc: "last_cut CHR '':'' hp = Some (front, p)"
    using assms by (auto simp: split_host_port_def split: option.splits if_splits)
  then have hp: "hp = front @ CHR '':'' # p" "CHR '':'' \<notin> set p"
    by (simp_all add: last_cut_Some_iff)
  show ?thesis
  proof (cases "hd hp = CHR ''[''")
    case True
    then obtain pre post where c: "cut CHR '']'' hp = Some (pre, post)" "front = pre @ [CHR '']'']" "h = tl pre"
      using assms lc by (auto simp: split_host_port_def split: option.splits if_splits)
    then have "hp = pre @ CHR '']'' # post" by (simp add: cut_Some_iff)
    moreover from this True have "pre \<noteq> [] \<and> hd pre = CHR ''[''" by (cases pre) auto
    ultimately have "hp = CHR ''['' # h @ CHR '']'' # CHR '':'' # p"
      using c hp by (cases pre) auto
    with hp show ?thesis by simp
  next
    case False
    then show ?thesis
      using assms lc hp by (auto simp: split_host_port_def split: if_splits)
  qed
qed

lemma split_host_port_chars:
  assumes "split_host_port hp = Inr (h, p)"
  shows "set hp \<subseteq> set h \<union> set p \<union> {CHR ''['', CHR '']'', CHR '':''}"
  using split_host_port_Inr [OF assms] by auto

subsection \<open>IP literals\<close>

type_synonym ip = "byte list"

fun v4_fields :: "nat \<Rightarrow> nat \<Rightarrow> nat list \<Rightarrow> string \<Rightarrow> nat list option" where
  \<comment> \<open>value and number of digits of the current octet, the octets before it\<close>
  "v4_fields val digs acc [] = (if length acc < 3 then None else Some (acc @ [val]))"
| "v4_fields val digs acc (c # cs) =
     (if ascii_digit c then
        (if digs = 1 \<and> val = 0 then None
         else (let v = val * 10 + (of_char c - 48) in
           if v > 255 then None else v4_fields v (Suc digs) acc cs))
      else if c = CHR ''.'' then
        (if digs = 0 \<or> cs = [] then None
         else if length acc = 3 then None
         else v4_fields 0 0 (acc @ [val]) cs)
      else None)"

definition hex_value :: "char \<Rightarrow> nat option" where
  "hex_value c =
     (let n = of_char c in
      if ascii_digit c then Some (n - 48)
      else if 97 \<le> n \<and> n \<le> 102 then Some (n - 87)
      else if 65 \<le> n \<and> n \<le> 70 then Some (n - 55)
      else None)"

definition is_hex :: "char \<Rightarrow> bool" where
  "is_hex c \<longleftrightarrow> hex_value c \<noteq> None"

definition hex_number :: "string \<Rightarrow> nat" where
  "hex_number ds = foldl (\<lambda>acc c. acc * 16 + (case hex_value c of Some d \<Rightarrow> d | None \<Rightarrow> 0)) 0 ds"

function v6_groups :: "nat list \<Rightarrow> nat option \<Rightarrow> string \<Rightarrow> (nat list \<times> nat option) option" where
  \<comment> \<open>the bytes read so far and the position of \<open>::\<close> among them\<close>
  "v6_groups acc ell s =
     (if 16 \<le> length acc then (if s = [] then Some (acc, ell) else None)
      else
        (let ds = takeWhile is_hex s; rest = dropWhile is_hex s;
             v = hex_number ds; acc' = acc @ [v div 256, v mod 256] in
         if ds = [] \<or> 4 < length ds then None
         else if rest \<noteq> [] \<and> hd rest = CHR ''.'' then
           (if (ell = None \<and> length acc \<noteq> 12) \<or> 12 < length acc then None
            else map_option (\<lambda>fs. (acc @ fs, ell)) (v4_fields 0 0 [] s))
         else if rest = [] then Some (acc', ell)
         else if hd rest \<noteq> CHR '':'' \<or> tl rest = [] then None
         else if hd (tl rest) = CHR '':'' then
           (if ell \<noteq> None then None
            else if tl (tl rest) = [] then Some (acc', Some (length acc'))
            else v6_groups acc' (Some (length acc')) (tl (tl rest)))
         else v6_groups acc' ell (tl rest)))"
  by pat_completeness auto
termination
proof (relation "measure (\<lambda>(acc, _, _). 16 - length acc)")
qed auto

declare v6_groups.simps [simp del]

definition v6_expand :: "nat list \<Rightarrow> nat option \<Rightarrow> nat list option" where
  "v6_expand acc ell =
     (if length acc < 16 then
        map_option (\<lambda>e. take e acc @ replicate (16 - length acc) 0 @ drop e acc) ell
      else if ell \<noteq> None then None else Some acc)"

definition parse_ip :: "string \<Rightarrow> ip option" where
  \<comment> \<open>\<open>net.ParseIP\<close>: a zone makes it fail\<close>
  "parse_ip s =
     (case List.find (\<lambda>c. c \<in> {CHR ''.'', CHR '':'', CHR ''%''}) s of
        None \<Rightarrow> None
      | Some c \<Rightarrow>
          if c = CHR ''.'' then
            map_option (\<lambda>fs. replicate 10 0 @ [255, 255] @ map word_of_nat fs) (v4_fields 0 0 [] s)
          else if CHR ''%'' \<in> set s then None
          else
            (let colons = (take 2 s = ''::''); r = (if colons then drop 2 s else s) in
             if colons \<and> r = [] then Some (replicate 16 0)
             else case v6_groups [] (if colons then Some 0 else None) r of
               None \<Rightarrow> None
             | Some (acc, ell) \<Rightarrow> map_option (map word_of_nat) (v6_expand acc ell)))"

definition to4 :: "ip \<Rightarrow> byte list option" where
  "to4 a = (if take 12 a = replicate 10 0 @ [255, 255] then Some (drop 12 a) else None)"

definition is_loopback :: "ip \<Rightarrow> bool" where
  "is_loopback a = (case to4 a of Some v4 \<Rightarrow> hd v4 = 127 | None \<Rightarrow> a = replicate 15 0 @ [1])"

lemma v4_fields_length: "v4_fields val digs acc s = Some fs \<Longrightarrow> length acc \<le> 3 \<Longrightarrow> length fs = 4"
  by (induction val digs acc s rule: v4_fields.induct) (auto simp: Let_def split: if_splits)

definition v6_good :: "nat list \<Rightarrow> nat option \<Rightarrow> bool" where
  "v6_good acc ell \<longleftrightarrow> even (length acc) \<and> length acc \<le> 16 \<and> (\<forall>e. ell = Some e \<longrightarrow> e \<le> length acc)"

lemma v6_good_step:
  assumes "v6_good acc ell" "\<not> 16 \<le> length acc"
  shows "v6_good (acc @ [x, y]) ell" "v6_good (acc @ [x, y]) (Some (Suc (Suc (length acc))))"
proof -
  have "even (length acc)" "length acc < 16" using assms by (simp_all add: v6_good_def)
  then have "length acc + 2 \<le> 16" by presburger
  then show "v6_good (acc @ [x, y]) ell" "v6_good (acc @ [x, y]) (Some (Suc (Suc (length acc))))"
    using assms(1) by (auto simp: v6_good_def)
qed

lemma v6_good_v4:
  assumes "v6_good acc ell" "v4_fields 0 0 [] s = Some fs" "\<not> 12 < length acc"
  shows "v6_good (acc @ fs) ell"
  using assms v4_fields_length [OF assms(2)] by (auto simp: v6_good_def)

lemma v6_groups_good:
  "v6_groups acc ell s = Some (acc', ell') \<Longrightarrow> v6_good acc ell \<Longrightarrow> v6_good acc' ell'"
proof (induction "16 - length acc" arbitrary: acc ell s rule: less_induct)
  case less
  show ?case
  proof (cases "16 \<le> length acc")
    case True
    with less.prems show ?thesis by (simp add: v6_groups.simps [of acc] split: if_splits)
  next
    case False
    have rec: "v6_good acc' ell'"
      if "v6_groups (acc @ [x, y]) e t = Some (acc', ell')" "e = ell \<or> e = Some (Suc (Suc (length acc)))"
      for x y e t
      using less.hyps [OF _ that(1)] that(2) v6_good_step [OF less.prems(2) False] False by auto
    from less.prems False v6_good_step [OF less.prems(2) False] show ?thesis
      unfolding v6_groups.simps [of acc ell s] Let_def
      by (auto split: if_splits elim: rec intro: v6_good_v4)
  qed
qed

lemma parse_ip_length: "parse_ip s = Some a \<Longrightarrow> length a = 16"
proof -
  assume a: "parse_ip s = Some a"
  have "length a = 16"
    if "v6_groups [] ell r = Some (acc, ell')" "v6_expand acc ell' = Some b" "a = map word_of_nat b"
      "\<forall>e. ell = Some e \<longrightarrow> e \<le> 0" for ell r acc ell' b
    using v6_groups_good [OF that(1)] that(2-) by (auto simp: v6_good_def v6_expand_def split: if_splits)
  then show ?thesis
    using a by (auto simp: parse_ip_def Let_def v4_fields_length split: option.splits if_splits)
qed

lemma to4_length: "length a = 16 \<Longrightarrow> to4 a = Some v4 \<Longrightarrow> length v4 = 4"
  by (auto simp: to4_def split: if_splits)

lemma parse_ip_chars: "parse_ip s = Some a \<Longrightarrow> CHR ''.'' \<in> set s \<or> CHR '':'' \<in> set s"
  by (auto simp: parse_ip_def find_Some_iff split: option.splits if_splits dest: nth_mem)

end
