(* ===== verification/GoDuration.thy ===== *)
theory GoDuration
  imports GoCodec
begin

text \<open>
  \<open>time.ParseDuration\<close>: a sign, then numbers with a unit. The part of a number after its decimal
  point goes through \<open>float64\<close> in Go; \<open>round_ratio\<close> is the rounding of a positive quotient to 53
  bits (ties to even), and \<open>fraction_ns\<close> the two rounded operations and the truncation of the source.
\<close>

subsection \<open>Rounding to 53 bits\<close>

fun bit_length :: "nat \<Rightarrow> nat" where
  "bit_length n = (if n = 0 then 0 else Suc (bit_length (n div 2)))"

declare bit_length.simps [simp del]

definition scaled_ratio :: "nat \<Rightarrow> nat \<Rightarrow> int \<Rightarrow> nat \<times> nat" where
  \<comment> \<open>numerator and denominator of \<open>p / (q * 2 ^ e)\<close>\<close>
  "scaled_ratio p q e = (if e \<ge> 0 then (p, q * 2 ^ nat e) else (p * 2 ^ nat (- e), q))"

definition round_half_even :: "nat \<times> nat \<Rightarrow> nat" where
  "round_half_even r =
     (let (p, q) = r; d = p div q; m = p mod q in if 2 * m > q \<or> (2 * m = q \<and> odd d) then d + 1 else d)"

definition round_ratio :: "nat \<Rightarrow> nat \<Rightarrow> nat \<times> int" where
  \<comment> \<open>the \<open>float64\<close> nearest to \<open>p / q\<close> for positive \<open>p\<close> and \<open>q\<close>, as mantissa and exponent\<close>
  "round_ratio p q =
     (let e0 = int (bit_length p) - int (bit_length q) - 53;
          (a, b) = scaled_ratio p q e0;
          e = (if a \<ge> 2 ^ 53 * b then e0 + 1 else e0)
      in (round_half_even (scaled_ratio p q e), e))"

definition fraction_ns :: "nat \<Rightarrow> nat \<Rightarrow> nat \<Rightarrow> nat" where
  \<comment> \<open>\<open>uint64(float64(f) * (float64(unit) / scale))\<close> with \<open>scale\<close> the power of ten\<close>
  "fraction_ns f unit digits =
     (if f = 0 then 0
      else
        (let (m1, e1) = round_ratio f 1;
             (m2, e2) = round_ratio unit (10 ^ digits);
             (a, b) = scaled_ratio (m1 * m2) 1 (- (e1 + e2));
             (m, e) = round_ratio a b;
             (n, d) = scaled_ratio m 1 (- e)
         in n div d))"

subsection \<open>ParseDuration\<close>

definition duration_units :: "(string \<times> nat) list" where
  "duration_units =
     [(''ns'', 1), (''us'', 1000), ([CHR 0xC2, CHR 0xB5, CHR ''s''], 1000), ([CHR 0xCE, CHR 0xBC, CHR ''s''], 1000),
      (''ms'', 1000000), (''s'', 1000000000), (''m'', 60000000000), (''h'', 3600000000000)]"

fun leading_fraction :: "bool \<Rightarrow> nat \<Rightarrow> nat \<Rightarrow> string \<Rightarrow> nat \<times> nat \<times> string" where
  \<comment> \<open>the digits after the point: value, number of digits that count, the rest of the text\<close>
  "leading_fraction over x digits [] = (x, digits, [])"
| "leading_fraction over x digits (c # cs) =
     (if \<not> ascii_digit c then (x, digits, c # cs)
      else if over \<or> x > (2 ^ 63 - 1) div 10 \<or> x * 10 + (of_char c - 48) > 2 ^ 63
      then leading_fraction True x digits cs
      else leading_fraction False (x * 10 + (of_char c - 48)) (Suc digits) cs)"

definition number_char :: "char \<Rightarrow> bool" where
  "number_char c \<longleftrightarrow> c = CHR ''.'' \<or> ascii_digit c"

definition duration_item :: "string \<Rightarrow> (nat \<times> string) option" where
  \<comment> \<open>one number with its unit\<close>
  "duration_item s =
     (let pre = takeWhile ascii_digit s; s1 = dropWhile ascii_digit s;
          point = (s1 \<noteq> [] \<and> hd s1 = CHR ''.'');
          (f, digits, s2) = (if point then leading_fraction False 0 0 (tl s1) else (0, 0, s1));
          post = (point \<and> length s2 < length (tl s1));
          u = takeWhile (\<lambda>c. \<not> number_char c) s2
      in if s = [] \<or> \<not> number_char (hd s) then None
         else case digits_value 0 pre of
           None \<Rightarrow> None
         | Some v \<Rightarrow>
             if v > 2 ^ 63 \<or> (pre = [] \<and> \<not> post) \<or> u = [] then None
             else case map_of duration_units u of
               None \<Rightarrow> None
             | Some unit \<Rightarrow>
                 if v > 2 ^ 63 div unit then None
                 else
                   (let v1 = v * unit + fraction_ns f unit digits
                    in if v1 > 2 ^ 63 then None else Some (v1, dropWhile (\<lambda>c. \<not> number_char c) s2)))"

lemma leading_fraction_shorter: "leading_fraction over x digits s = (f, k, r) \<Longrightarrow> length r \<le> length s"
  by (induction over x digits s rule: leading_fraction.induct) (auto simp: Let_def split: if_splits)

lemma takeWhile_shorter: "takeWhile P s \<noteq> [] \<Longrightarrow> length (dropWhile P s) < length s"
  by (cases s) (auto simp: le_imp_less_Suc length_dropWhile_le split: if_splits)

lemma duration_item_shorter:
  assumes "duration_item s = Some (v, rest)"
  shows "length rest < length s"
proof -
  let ?s1 = "dropWhile ascii_digit s"
  obtain f k s2 where p:
    "(if ?s1 \<noteq> [] \<and> hd ?s1 = CHR ''.'' then leading_fraction False 0 0 (tl ?s1) else (0, 0, ?s1)) = (f, k, s2)"
    by (metis prod_cases3)
  have "length s2 \<le> length ?s1"
    using p by (auto split: if_splits dest!: leading_fraction_shorter)
  moreover have "length ?s1 \<le> length s" by (rule length_dropWhile_le)
  moreover have "takeWhile (\<lambda>c. \<not> number_char c) s2 \<noteq> []" "rest = dropWhile (\<lambda>c. \<not> number_char c) s2"
    using assms p by (auto simp: duration_item_def Let_def split: if_splits option.splits)
  ultimately show ?thesis using takeWhile_shorter [of "\<lambda>c. \<not> number_char c" s2] by simp
qed

function duration_loop :: "nat \<Rightarrow> string \<Rightarrow> nat option" where
  "duration_loop d s =
     (if s = [] then Some d
      else case duration_item s of
        None \<Rightarrow> None
      | Some (v, rest) \<Rightarrow>
          (let d1 = (d + v) mod 2 ^ 64 in if d1 > 2 ^ 63 then None else duration_loop d1 rest))"
  by pat_completeness auto
termination
  by (relation "measure (\<lambda>(_, s). length s)") (auto dest: duration_item_shorter)

declare duration_loop.simps [simp del]

definition parse_duration :: "string \<Rightarrow> duration option" where
  "parse_duration s0 =
     (let neg = (s0 \<noteq> [] \<and> hd s0 = CHR ''-'');
          s = (if s0 \<noteq> [] \<and> (hd s0 = CHR ''-'' \<or> hd s0 = CHR ''+'') then tl s0 else s0)
      in if s = ''0'' then Some 0
         else if s = [] then None
         else case duration_loop 0 s of
           None \<Rightarrow> None
         | Some d \<Rightarrow>
             if neg then Some (- int d) else if d > 2 ^ 63 - 1 then None else Some (int d))"

subsection \<open>What it accepts\<close>

lemma duration_loop_bound: "duration_loop d s = Some r \<Longrightarrow> d \<le> 2 ^ 63 \<Longrightarrow> r \<le> 2 ^ 63"
proof (induction d s rule: duration_loop.induct)
  case (1 d s)
  show ?case
  proof (cases "s = []")
    case True
    with "1.prems" show ?thesis by (simp add: duration_loop.simps [of d])
  next
    case False
    with "1.prems"(1) obtain v rest where item: "duration_item s = Some (v, rest)"
      by (subst (asm) duration_loop.simps) (auto split: option.splits)
    show ?thesis
      using "1.prems"(1) "1.IH" [OF False item] False item
      by (subst (asm) duration_loop.simps) (simp add: Let_def split: if_splits)
  qed
qed

lemma parse_duration_int64:
  assumes "parse_duration s = Some d"
  shows "in_int64 d"
  using assms duration_loop_bound [of 0]
  by (force simp: parse_duration_def in_int64_def Let_def split: if_splits option.splits)

lemma takeWhile_digits_itoa:
  "u \<noteq> [] \<Longrightarrow> \<not> ascii_digit (hd u) \<Longrightarrow>
     takeWhile ascii_digit (itoa n @ u) = itoa n \<and> dropWhile ascii_digit (itoa n @ u) = u"
  using itoa_digits [of _ n] by (cases u) (simp_all add: takeWhile_append dropWhile_append)

lemma duration_units_shape:
  "list_all (\<lambda>(u, k). u \<noteq> [] \<and> list_all (\<lambda>c. \<not> number_char c) u \<and> map_of duration_units u = Some k \<and> 1 \<le> k)
     duration_units"
  by (simp add: duration_units_def number_char_def ascii_digit_def)

lemma parse_duration_whole:
  assumes "(u, k) \<in> set duration_units" "n * k < 2 ^ 63"
  shows "parse_duration (itoa n @ u) = Some (int (n * k))"
proof -
  let ?s = "itoa n @ u"
  have u: "u \<noteq> []" "\<not> number_char (hd u)" "takeWhile (\<lambda>c. \<not> number_char c) u = u"
      "dropWhile (\<lambda>c. \<not> number_char c) u = []" "map_of duration_units u = Some k" "1 \<le> k"
    using duration_units_shape assms(1) by (cases u; auto simp: list_all_iff)+
  have digits: "takeWhile ascii_digit ?s = itoa n" "dropWhile ascii_digit ?s = u"
    using takeWhile_digits_itoa [of u n] u(1,2) by (auto simp: number_char_def)
  have hd: "ascii_digit (hd ?s)" using itoa_digits [of "hd (itoa n)" n] by simp
  have dot: "hd u \<noteq> CHR ''.''" using u(2) by (simp add: number_char_def)
  have n: "n \<le> 2 ^ 63 div k" using assms(2) u(6) by (simp add: less_eq_div_iff_mult_less_eq)
  then have "n \<le> 2 ^ 63" using div_le_dividend order_trans by blast
  with n assms(2) have "duration_item ?s = Some (n * k, [])"
    using u(1) hd dot by (simp add: duration_item_def Let_def digits digits_value_itoa u(3-5) number_char_def [of "hd (itoa n)"]
        fraction_ns_def)
  then have "duration_loop 0 ?s = Some (n * k)"
    using assms(2) by (subst duration_loop.simps) (simp add: duration_loop.simps)
  moreover have "?s \<noteq> ''0''" using u(1) by (cases "itoa n"; cases u) auto
  moreover have "?s \<noteq> []" "hd ?s \<noteq> CHR ''-''" "hd ?s \<noteq> CHR ''+''" using ascii_digit_not_sign [OF hd] by auto
  ultimately show ?thesis
    using assms(2) unfolding parse_duration_def by (simp add: Let_def)
qed

end
