(* ===== verification/GoSha256.thy ===== *)
theory GoSha256
  imports GoStrings
begin

text \<open>
  \<open>crypto/sha256.Sum256\<close> and \<open>crypto/subtle.ConstantTimeCompare\<close>. The hash follows FIPS 180-4
  over 32-bit words; the digest is its eight words, big endian, as 32 bytes.
\<close>

type_synonym w32 = "32 word"

definition rotr :: "nat \<Rightarrow> w32 \<Rightarrow> w32" where
  "rotr n x = or (drop_bit n x) (push_bit (32 - n) x)"

text \<open>
  The standard's constants are the first 32 bits of the fractional parts of the cube roots of the
  first 64 primes, and of the square roots of the first eight; they are computed from that.
\<close>

definition sha_primes :: "int list" where
  "sha_primes = filter (\<lambda>p. list_all (\<lambda>d. p mod d \<noteq> 0) [2..p - 1]) [2..311]"

primrec int_root :: "nat \<Rightarrow> nat \<Rightarrow> int \<Rightarrow> int \<Rightarrow> int" where
  \<comment> \<open>the largest number whose \<open>k\<close>-th power is at most \<open>n\<close>, bit by bit from bit \<open>b - 1\<close> on\<close>
  "int_root k 0 n r = r"
| "int_root k (Suc b) n r = int_root k b n (if (r + 2 ^ b) ^ k \<le> n then r + 2 ^ b else r)"

definition root_fraction :: "nat \<Rightarrow> int \<Rightarrow> int" where
  "root_fraction k p = int_root k 38 (p * 2 ^ (32 * k)) 0 mod 2 ^ 32"

definition sha_k :: "int list" where
  "sha_k = map (root_fraction 3) sha_primes"

definition sha_init :: "int list" where
  "sha_init = map (root_fraction 2) (take 8 sha_primes)"

definition sha_pad :: "byte list \<Rightarrow> byte list" where
  \<comment> \<open>a one bit, zeros up to 56 modulo 64, the length in bits as 64 bits\<close>
  "sha_pad m =
     (let n = length m in
      m @ [0x80] @ replicate ((119 - n mod 64) mod 64) 0
        @ map (\<lambda>i. word_of_int (8 * int n div 256 ^ i)) [7, 6, 5, 4, 3, 2, 1, 0])"

fun be_words :: "byte list \<Rightarrow> w32 list" where
  "be_words (a # b # c # d # r) =
     (word_of_int (((uint a * 256 + uint b) * 256 + uint c) * 256 + uint d)) # be_words r"
| "be_words _ = []"

definition sha_extend :: "w32 list \<Rightarrow> w32 list" where
  \<comment> \<open>the last sixteen words of the message schedule, newest first, give the next\<close>
  "sha_extend ws =
     (let w2 = ws ! 1; w7 = ws ! 6; w15 = ws ! 14; w16 = ws ! 15;
          s0 = xor (xor (rotr 7 w15) (rotr 18 w15)) (drop_bit 3 w15);
          s1 = xor (xor (rotr 17 w2) (rotr 19 w2)) (drop_bit 10 w2)
      in (w16 + s0 + w7 + s1) # ws)"

definition sha_schedule :: "w32 list \<Rightarrow> w32 list" where
  "sha_schedule block = rev ((sha_extend ^^ 48) (rev block))"

fun sha_round :: "w32 list \<Rightarrow> w32 \<times> w32 \<Rightarrow> w32 list" where
  "sha_round [a, b, c, d, e, f, g, h] (k, w) =
     (let S1 = xor (xor (rotr 6 e) (rotr 11 e)) (rotr 25 e);
          ch = xor (and e f) (and (not e) g);
          t1 = h + S1 + ch + k + w;
          S0 = xor (xor (rotr 2 a) (rotr 13 a)) (rotr 22 a);
          maj = xor (xor (and a b) (and a c)) (and b c)
      in [t1 + S0 + maj, a, b, c, d + t1, e, f, g])"
| "sha_round st _ = st"

definition sha_block :: "w32 list \<Rightarrow> w32 list \<Rightarrow> w32 list" where
  "sha_block st block =
     map2 (+) st (foldl sha_round st (zip (map word_of_int sha_k) (sha_schedule block)))"

function sha_blocks :: "w32 list \<Rightarrow> w32 list \<Rightarrow> w32 list" where
  "sha_blocks st ws = (if ws = [] then st else sha_blocks (sha_block st (take 16 ws)) (drop 16 ws))"
  by pat_completeness auto
termination
  by (relation "measure (\<lambda>(_, ws). length ws)") auto

declare sha_blocks.simps [simp del]

definition sha256_bytes :: "byte list \<Rightarrow> byte list" where
  "sha256_bytes m =
     concat (map (\<lambda>w. map (\<lambda>i. word_of_int (uint w div 256 ^ i)) [3, 2, 1, 0])
       (sha_blocks (map word_of_int sha_init) (be_words (sha_pad m))))"

definition sha256 :: "string \<Rightarrow> byte list" where
  "sha256 s = sha256_bytes (map byte_of s)"

definition constant_time_compare :: "byte list \<Rightarrow> byte list \<Rightarrow> int" where
  "constant_time_compare x y = (if x = y then 1 else 0)"

end
