(* ===== verification/Config.thy ===== *)
theory Config
  imports GoNet
begin

text \<open>
  \<open>internal/config/config.go\<close>: the settings as records with the source's fields, and
  \<open>Default\<close>. A \<open>Duration\<close> field is its number of nanoseconds. Go's \<open>int\<close> fields are \<^typ>\<open>int\<close>;
  where their width matters the wrap-around is written out.
\<close>

record upstream_auth =
  upauth_Enabled :: bool
  upauth_Username :: string
  upauth_Password :: string

record upstream_config =
  up_URL :: string
  up_Auth :: upstream_auth
  up_TLSCAFile :: string

record tls_config =
  tls_CertFile :: string
  tls_KeyFile :: string

record server_config =
  srv_Port :: int
  srv_Host :: string
  srv_TLS :: tls_config
  srv_AllowInsecurePublicHTTP :: bool
  srv_AllowUnauthenticatedPublicProxy :: bool
  srv_MaxConnections :: int
  srv_MaxConnectionsPerIP :: int
  srv_MaxHeaderBytes :: int
  srv_HTTP2MaxConcurrentStreams :: int
  srv_HTTP2SendPingTimeout :: duration
  srv_HTTP2PingTimeout :: duration
  srv_HTTP2WriteByteTimeout :: duration
  srv_ReadHeaderTimeout :: duration
  srv_IdleTimeout :: duration
  srv_ShutdownTimeout :: duration

record auth_config =
  auth_Enabled :: bool
  auth_Username :: string
  auth_Password :: string
  auth_MaxFailedAttempts :: int
  auth_FailureWindow :: duration
  auth_BlockDuration :: duration
  auth_MaxTrackedIPs :: int

record proxy_config =
  prx_Algorithm :: string
  prx_Timeout :: int
  prx_Network :: string
  prx_DialTimeout :: duration
  prx_DialKeepAlive :: duration
  prx_TLSHandshakeTimeout :: duration
  prx_ResponseHeaderTimeout :: duration
  prx_ResponseBodyIdleTimeout :: duration
  prx_IdleConnTimeout :: duration
  prx_ExpectContinueTimeout :: duration
  prx_MaxIdleConns :: int
  prx_MaxIdleConnsPerHost :: int
  prx_MaxConnsPerHost :: int
  prx_MaxTunnels :: int
  prx_MaxTunnelsPerIP :: int
  prx_TunnelIdleTimeout :: duration
  prx_FailoverCooldown :: duration

record config =
  cfg_Server :: server_config
  cfg_Auth :: auth_config
  cfg_Proxy :: proxy_config
  cfg_Upstreams :: "upstream_config list"

text \<open>
  \<open>Default\<close>. A field the source's composite literal leaves out has Go's zero value.
\<close>

definition default_server :: server_config where
  "default_server =
     \<lparr> srv_Port = 8380, srv_Host = ''127.0.0.1'',
       srv_TLS = \<lparr> tls_CertFile = [], tls_KeyFile = [] \<rparr>,
       srv_AllowInsecurePublicHTTP = False, srv_AllowUnauthenticatedPublicProxy = False,
       srv_MaxConnections = 1024, srv_MaxConnectionsPerIP = 128, srv_MaxHeaderBytes = 64 * 1024,
       srv_HTTP2MaxConcurrentStreams = 0,
       srv_HTTP2SendPingTimeout = 60 * second, srv_HTTP2PingTimeout = 15 * second,
       srv_HTTP2WriteByteTimeout = 30 * second,
       srv_ReadHeaderTimeout = 15 * second, srv_IdleTimeout = 2 * 60 * second,
       srv_ShutdownTimeout = 15 * second \<rparr>"

definition default_auth :: auth_config where
  "default_auth =
     \<lparr> auth_Enabled = False, auth_Username = [], auth_Password = [],
       auth_MaxFailedAttempts = 10, auth_FailureWindow = 60 * second,
       auth_BlockDuration = 5 * 60 * second, auth_MaxTrackedIPs = 4096 \<rparr>"

definition default_proxy :: proxy_config where
  "default_proxy =
     \<lparr> prx_Algorithm = ''roundrobin'', prx_Timeout = 30, prx_Network = ''auto'',
       prx_DialTimeout = 10 * second, prx_DialKeepAlive = 30 * second,
       prx_TLSHandshakeTimeout = 10 * second, prx_ResponseHeaderTimeout = 30 * second,
       prx_ResponseBodyIdleTimeout = 2 * 60 * second, prx_IdleConnTimeout = 90 * second,
       prx_ExpectContinueTimeout = second,
       prx_MaxIdleConns = 100, prx_MaxIdleConnsPerHost = 10, prx_MaxConnsPerHost = 0,
       prx_MaxTunnels = 256, prx_MaxTunnelsPerIP = 128,
       prx_TunnelIdleTimeout = 2 * 60 * second, prx_FailoverCooldown = 30 * second \<rparr>"

definition default_config :: config where
  "default_config =
     \<lparr> cfg_Server = default_server, cfg_Auth = default_auth,
       cfg_Proxy = default_proxy, cfg_Upstreams = [] \<rparr>"

lemmas default_defs = default_config_def default_server_def default_auth_def default_proxy_def

end
