(* ===== verification/Validate.thy ===== *)
theory Validate
  imports Config
begin

text \<open>
  \<open>internal/config/validate.go\<close>: \<open>Validate\<close> as the source's sequence of checks, the first
  failing one giving the error, and \<open>UpstreamURL\<close>.

  What the checks ask of the world outside the program is the record \<open>host_env\<close>: the file
  system, the certificate parsers of \<open>crypto\<close>, the clock and \<open>net/url.Parse\<close>. Every lemma
  holds for all of its values. \<open>url_Host\<close> is \<open>URL.Host\<close>; \<open>Hostname()\<close> and \<open>Port()\<close> are
  computed from it as \<open>net/url\<close> does.
\<close>

subsection \<open>The environment\<close>

record parsed_url =
  url_Scheme :: string
  url_User :: "(string \<times> string) option"
  url_Host :: string
  url_Path :: string
  url_RawQuery :: string
  url_Fragment :: string

record host_env =
  env_url_parse :: "string \<Rightarrow> parsed_url option"
  env_load_key_pair :: "string \<Rightarrow> string \<Rightarrow> string option"
  env_parse_leaf :: "string \<Rightarrow> (time \<times> time) option"
  env_read_file :: "string \<Rightarrow> string option"
  env_pem_has_certs :: "string \<Rightarrow> bool"
  env_now :: time

definition valid_optional_port :: "string \<Rightarrow> bool" where
  "valid_optional_port p \<longleftrightarrow> p = [] \<or> (hd p = CHR '':'' \<and> list_all ascii_digit (tl p))"

definition url_split :: "string \<Rightarrow> string \<times> string" where
  "url_split hp =
     (let (h, p) = (case last_cut CHR '':'' hp of
                      Some (a, b) \<Rightarrow> if valid_optional_port (CHR '':'' # b) then (a, b) else (hp, [])
                    | None \<Rightarrow> (hp, []))
      in (if has_prefix h ''['' \<and> has_suffix h '']'' then butlast (tl h) else h, p))"

definition hostname :: "parsed_url \<Rightarrow> string" where
  "hostname u = fst (url_split (url_Host u))"

definition url_port :: "parsed_url \<Rightarrow> string" where
  "url_port u = snd (url_split (url_Host u))"

subsection \<open>Upstream URLs\<close>

datatype url_error = URLSyntax | URLScheme | URLParts | URLDemonstration | URLPort

definition upstream_schemes :: "string list" where
  "upstream_schemes = [''http'', ''https'', ''socks4'', ''socks5'']"

definition default_port :: "string \<Rightarrow> string" where
  "default_port scheme =
     (if scheme = ''https'' then ''443'' else if scheme = ''http'' then ''80'' else ''1080'')"

definition upstream_port :: "parsed_url \<Rightarrow> string" where
  "upstream_port u = (if url_port u = [] then default_port (url_Scheme u) else url_port u)"

definition upstream_url :: "host_env \<Rightarrow> upstream_config \<Rightarrow> url_error + parsed_url" where
  "upstream_url env up =
     (case env_url_parse env (up_URL up) of
        None \<Rightarrow> Inl URLSyntax
      | Some u \<Rightarrow>
          if url_Scheme u \<notin> set upstream_schemes then Inl URLScheme
          else if hostname u = [] \<or> url_User u \<noteq> None \<or> (url_Path u \<noteq> [] \<and> url_Path u \<noteq> ''/'')
                  \<or> url_RawQuery u \<noteq> [] \<or> url_Fragment u \<noteq> [] then Inl URLParts
          else if has_suffix (hostname u) ''.example.com'' then Inl URLDemonstration
          else
            (case atoi (upstream_port u) of
               None \<Rightarrow> Inl URLPort
             | Some n \<Rightarrow>
                 if n < 1 \<or> n > 65535 then Inl URLPort
                 else Inr (u\<lparr> url_Host := join_host_port (hostname u) (upstream_port u), url_Path := [],
                              url_User := (if upauth_Enabled (up_Auth up)
                                              \<and> (url_Scheme u = ''http'' \<or> url_Scheme u = ''https'')
                                           then Some (upauth_Username (up_Auth up), upauth_Password (up_Auth up))
                                           else url_User u) \<rparr>)))"

subsection \<open>Validate\<close>

datatype validate_error =
    NilConfig | BadHost | BadPort | BadMaxConnections | BadMaxConnectionsPerIP | BadMaxHeaderBytes
  | NegativeHTTP2Timeout | BadServerTimeout | TLSPairIncomplete | TLSLoad | TLSParse | TLSNotValidNow
  | PublicHTTP | PublicUnauthenticated
  | BadMaxFailedAttempts | BadFailureTimes | BadMaxTrackedIPs | BadCredentials | DemoCredentials
  | BadAlgorithm | BadProxyLimits | BadMaxTunnelsPerIP | BadHTTP2Streams | BadNetwork
  | BadBodyIdleTimeout | BadTransportTimeouts | BadPoolLimits
  | NoUpstreams | UpURL nat url_error | UpDemoCredentials nat | UpSocks4Credentials nat
  | UpSocks5Credentials nat | UpHTTPCredentials nat | UpCANeedsHTTPS nat | UpCARead nat | UpCANoPEM nat

fun first_error :: "'e option list \<Rightarrow> 'e option" where
  "first_error [] = None"
| "first_error (None # cs) = first_error cs"
| "first_error (Some e # cs) = Some e"

abbreviation check :: "bool \<Rightarrow> 'e \<Rightarrow> 'e option" where
  \<comment> \<open>\<open>if bad { return error }\<close>\<close>
  "check bad e \<equiv> (if bad then Some e else None)"

definition check_server :: "server_config \<Rightarrow> validate_error option" where
  "check_server s = first_error
     [ check (srv_Host s = [] \<or> contains_any (srv_Host s) [CHR '' '', CHR ''/'', CHR 0x0D, CHR 0x0A, CHR 0x09]) BadHost,
       check (srv_Port s < 1 \<or> srv_Port s > 65535) BadPort,
       check (srv_MaxConnections s < 1) BadMaxConnections,
       check (srv_MaxConnectionsPerIP s < 1 \<or> srv_MaxConnectionsPerIP s > srv_MaxConnections s) BadMaxConnectionsPerIP,
       check (srv_MaxHeaderBytes s < 1024 \<or> srv_MaxHeaderBytes s > 16 * 1048576) BadMaxHeaderBytes,
       check (srv_HTTP2SendPingTimeout s < 0 \<or> srv_HTTP2PingTimeout s < 0 \<or> srv_HTTP2WriteByteTimeout s < 0)
         NegativeHTTP2Timeout,
       check (srv_ReadHeaderTimeout s \<le> 0 \<or> srv_IdleTimeout s \<le> 0 \<or> srv_ShutdownTimeout s \<le> 0)
         BadServerTimeout ]"

definition check_tls :: "host_env \<Rightarrow> tls_config \<Rightarrow> validate_error option" where
  "check_tls env t =
     (if (tls_CertFile t = []) \<noteq> (tls_KeyFile t = []) then Some TLSPairIncomplete
      else if tls_CertFile t = [] then None
      else case env_load_key_pair env (tls_CertFile t) (tls_KeyFile t) of
        None \<Rightarrow> Some TLSLoad
      | Some leaf \<Rightarrow>
          (case env_parse_leaf env leaf of
             None \<Rightarrow> Some TLSParse
           | Some (not_before, not_after) \<Rightarrow>
               check (time_before (env_now env) not_before \<or> \<not> time_before (env_now env) not_after)
                 TLSNotValidNow))"

definition local_host :: "string \<Rightarrow> bool" where
  "local_host host \<longleftrightarrow>
     equal_fold host ''localhost'' \<or> (case parse_ip host of None \<Rightarrow> False | Some a \<Rightarrow> is_loopback a)"

definition check_exposure :: "server_config \<Rightarrow> auth_config \<Rightarrow> validate_error option" where
  "check_exposure s a = first_error
     [ check (\<not> local_host (srv_Host s) \<and> tls_CertFile (srv_TLS s) = [] \<and> \<not> srv_AllowInsecurePublicHTTP s)
         PublicHTTP,
       check (\<not> local_host (srv_Host s) \<and> \<not> auth_Enabled a \<and> \<not> srv_AllowUnauthenticatedPublicProxy s)
         PublicUnauthenticated ]"

definition check_auth :: "auth_config \<Rightarrow> validate_error option" where
  "check_auth a = first_error
     [ check (auth_MaxFailedAttempts a < 1 \<or> auth_MaxFailedAttempts a > 1000) BadMaxFailedAttempts,
       check (auth_FailureWindow a \<le> 0 \<or> auth_BlockDuration a \<le> 0) BadFailureTimes,
       check (auth_MaxTrackedIPs a < 1 \<or> auth_MaxTrackedIPs a > 65536) BadMaxTrackedIPs,
       check (auth_Enabled a \<and>
              (auth_Username a = [] \<or> auth_Password a = [] \<or> contains_any (auth_Username a) '':''))
         BadCredentials,
       check (auth_Enabled a \<and>
              (auth_Username a = ''<set-username>'' \<or> auth_Password a = ''<set-strong-password>''
               \<or> (auth_Username a = ''admin'' \<and> auth_Password a = ''password'')))
         DemoCredentials ]"

definition check_proxy :: "server_config \<Rightarrow> proxy_config \<Rightarrow> validate_error option" where
  "check_proxy s p = first_error
     [ check (prx_Algorithm p \<noteq> ''roundrobin'' \<and> prx_Algorithm p \<noteq> ''random'') BadAlgorithm,
       check (prx_Timeout p < 1 \<or> prx_MaxTunnels p < 1 \<or> prx_TunnelIdleTimeout p \<le> 0 \<or> prx_FailoverCooldown p \<le> 0)
         BadProxyLimits,
       check (prx_MaxTunnelsPerIP p < 1 \<or> prx_MaxTunnelsPerIP p > prx_MaxTunnels p) BadMaxTunnelsPerIP,
       check (srv_HTTP2MaxConcurrentStreams s < 0 \<or> srv_HTTP2MaxConcurrentStreams s > prx_MaxTunnels p
              \<or> srv_HTTP2MaxConcurrentStreams s > prx_MaxTunnelsPerIP p) BadHTTP2Streams,
       check (prx_Network p \<noteq> ''auto'' \<and> prx_Network p \<noteq> ''tcp4'' \<and> prx_Network p \<noteq> ''tcp6'') BadNetwork,
       check (prx_ResponseBodyIdleTimeout p \<le> 0) BadBodyIdleTimeout,
       check (prx_DialTimeout p \<le> 0 \<or> prx_DialKeepAlive p \<le> 0 \<or> prx_TLSHandshakeTimeout p \<le> 0
              \<or> prx_ResponseHeaderTimeout p \<le> 0 \<or> prx_IdleConnTimeout p \<le> 0 \<or> prx_ExpectContinueTimeout p < 0)
         BadTransportTimeouts,
       check (prx_MaxIdleConns p < 0 \<or> prx_MaxIdleConnsPerHost p < 0 \<or> prx_MaxConnsPerHost p < 0)
         BadPoolLimits ]"

definition check_up_auth :: "nat \<Rightarrow> parsed_url \<Rightarrow> upstream_auth \<Rightarrow> validate_error option" where
  "check_up_auth i u a =
     (if upauth_Username a = [] \<or> upauth_Username a = ''<upstream-username>''
         \<or> upauth_Password a = ''<upstream-password>'' then Some (UpDemoCredentials i)
      else if url_Scheme u = ''socks4'' then
        check (upauth_Password a \<noteq> [] \<or> length (upauth_Username a) > 255 \<or> CHR 0x00 \<in> set (upauth_Username a))
          (UpSocks4Credentials i)
      else if url_Scheme u = ''socks5'' then
        check (upauth_Password a = [] \<or> length (upauth_Username a) > 255 \<or> length (upauth_Password a) > 255)
          (UpSocks5Credentials i)
      else
        check (upauth_Password a = [] \<or> contains_any (upauth_Username a) '':'') (UpHTTPCredentials i))"

definition check_up_ca :: "host_env \<Rightarrow> nat \<Rightarrow> parsed_url \<Rightarrow> string \<Rightarrow> validate_error option" where
  "check_up_ca env i u file =
     (if file = [] then None
      else if url_Scheme u \<noteq> ''https'' then Some (UpCANeedsHTTPS i)
      else case env_read_file env file of
        None \<Rightarrow> Some (UpCARead i)
      | Some data \<Rightarrow> check (\<not> env_pem_has_certs env data) (UpCANoPEM i))"

definition check_upstream :: "host_env \<Rightarrow> nat \<Rightarrow> upstream_config \<Rightarrow> validate_error option" where
  "check_upstream env i up =
     (case upstream_url env up of
        Inl e \<Rightarrow> Some (UpURL i e)
      | Inr u \<Rightarrow> first_error
          [ if upauth_Enabled (up_Auth up) then check_up_auth i u (up_Auth up) else None,
            check_up_ca env i u (up_TLSCAFile up) ])"

definition check_upstreams :: "host_env \<Rightarrow> upstream_config list \<Rightarrow> validate_error option" where
  "check_upstreams env ups =
     (if ups = [] then Some NoUpstreams
      else first_error (map (\<lambda>i. check_upstream env i (ups ! i)) [0..<length ups]))"

definition validate :: "host_env \<Rightarrow> config option \<Rightarrow> validate_error option" where
  "validate env c =
     (case c of None \<Rightarrow> Some NilConfig
      | Some cfg \<Rightarrow> first_error
          [ check_server (cfg_Server cfg), check_tls env (srv_TLS (cfg_Server cfg)),
            check_exposure (cfg_Server cfg) (cfg_Auth cfg), check_auth (cfg_Auth cfg),
            check_proxy (cfg_Server cfg) (cfg_Proxy cfg), check_upstreams env (cfg_Upstreams cfg) ])"

subsection \<open>What a passing check says\<close>

lemma first_error_None [simp]: "first_error cs = None \<longleftrightarrow> (\<forall>c \<in> set cs. c = None)"
  by (induction cs rule: first_error.induct) auto

lemma first_error_Some: "first_error cs = Some e \<Longrightarrow> Some e \<in> set cs"
  by (induction cs rule: first_error.induct) auto

lemma check_None [simp]: "check b e = None \<longleftrightarrow> \<not> b"
  by simp

lemma contains_any_single [simp]: "contains_any s [c] \<longleftrightarrow> c \<in> set s"
  by (auto simp: contains_any_def list_ex_iff)

lemma validate_parts:
  "validate env (Some cfg) = None \<longleftrightarrow>
     check_server (cfg_Server cfg) = None \<and> check_tls env (srv_TLS (cfg_Server cfg)) = None
     \<and> check_exposure (cfg_Server cfg) (cfg_Auth cfg) = None \<and> check_auth (cfg_Auth cfg) = None
     \<and> check_proxy (cfg_Server cfg) (cfg_Proxy cfg) = None \<and> check_upstreams env (cfg_Upstreams cfg) = None"
  by (simp add: validate_def)

lemma check_auth_None:
  assumes "check_auth a = None"
  shows "1 \<le> auth_MaxFailedAttempts a" "auth_MaxFailedAttempts a \<le> 1000"
    "0 < auth_FailureWindow a" "0 < auth_BlockDuration a"
    "1 \<le> auth_MaxTrackedIPs a" "auth_MaxTrackedIPs a \<le> 65536"
    "auth_Enabled a \<Longrightarrow> auth_Username a \<noteq> [] \<and> auth_Password a \<noteq> [] \<and> CHR '':'' \<notin> set (auth_Username a)"
  using assms by (auto simp: check_auth_def split: if_splits)

lemma check_proxy_None:
  assumes "check_proxy s p = None"
  shows "prx_Algorithm p \<in> {''roundrobin'', ''random''}" "1 \<le> prx_Timeout p" "1 \<le> prx_MaxTunnels p"
    "0 < prx_TunnelIdleTimeout p" "0 < prx_FailoverCooldown p"
    "1 \<le> prx_MaxTunnelsPerIP p" "prx_MaxTunnelsPerIP p \<le> prx_MaxTunnels p"
    "0 \<le> srv_HTTP2MaxConcurrentStreams s" "srv_HTTP2MaxConcurrentStreams s \<le> prx_MaxTunnelsPerIP p"
    "srv_HTTP2MaxConcurrentStreams s \<le> prx_MaxTunnels p"
    "0 < prx_ResponseBodyIdleTimeout p" "0 < prx_DialTimeout p"
  using assms by (auto simp: check_proxy_def split: if_splits)

lemma check_server_None:
  assumes "check_server s = None"
  shows "1 \<le> srv_MaxConnections s" "1 \<le> srv_MaxConnectionsPerIP s"
    "srv_MaxConnectionsPerIP s \<le> srv_MaxConnections s" "1 \<le> srv_Port s" "srv_Port s \<le> 65535"
    "0 < srv_ShutdownTimeout s" "srv_Host s \<noteq> []"
  using assms by (auto simp: check_server_def split: if_splits)

lemma check_upstreams_None:
  "check_upstreams env ups = None \<longleftrightarrow>
     ups \<noteq> [] \<and> (\<forall>i < length ups. check_upstream env i (ups ! i) = None)"
  by (auto simp: check_upstreams_def)

lemma check_upstream_None:
  assumes "check_upstream env i up = None"
  obtains u where "upstream_url env up = Inr u"
    "upauth_Enabled (up_Auth up) \<Longrightarrow> check_up_auth i u (up_Auth up) = None"
    "check_up_ca env i u (up_TLSCAFile up) = None"
  using assms by (auto simp: check_upstream_def split: sum.splits if_splits)

subsection \<open>Upstream URLs are normalised\<close>

lemma url_port_digits: "c \<in> set (url_port u) \<Longrightarrow> ascii_digit c"
  by (auto simp: url_port_def url_split_def valid_optional_port_def list_all_iff Let_def
      split: option.splits if_splits prod.splits)

lemma default_port_digits: "c \<in> set (default_port sch) \<Longrightarrow> ascii_digit c"
  by (auto simp: default_port_def ascii_digit_def split: if_splits)

lemma digit_no_delimiter: "ascii_digit c \<Longrightarrow> c \<noteq> CHR '':'' \<and> c \<noteq> CHR ''['' \<and> c \<noteq> CHR '']''"
  by (auto simp: ascii_digit_def)

lemma upstream_port_digits: "c \<in> set (upstream_port u) \<Longrightarrow> ascii_digit c"
  by (auto simp: upstream_port_def url_port_digits default_port_digits split: if_splits)

lemma upstream_url_Inr:
  assumes "upstream_url env up = Inr u"
  obtains v n where "env_url_parse env (up_URL up) = Some v"
    "url_Scheme u = url_Scheme v" "url_Scheme u \<in> set upstream_schemes"
    "hostname v \<noteq> []" "\<not> has_suffix (hostname v) ''.example.com''"
    "url_Host u = join_host_port (hostname v) (upstream_port v)"
    "atoi (upstream_port v) = Some n" "1 \<le> n" "n \<le> 65535" "url_Path u = []"
    "url_User u = (if upauth_Enabled (up_Auth up) \<and> url_Scheme u \<in> {''http'', ''https''}
                   then Some (upauth_Username (up_Auth up), upauth_Password (up_Auth up)) else None)"
proof -
  obtain v where v: "env_url_parse env (up_URL up) = Some v"
    using assms by (auto simp: upstream_url_def split: option.splits)
  obtain n where n: "atoi (upstream_port v) = Some n"
    using assms v by (auto simp: upstream_url_def split: option.splits if_splits)
  show ?thesis
    by (rule that [OF v _ _ _ _ _ n]) (use assms v n in \<open>auto simp: upstream_url_def simp del: not_None_eq split: if_splits\<close>)
qed

subsection \<open>Samples\<close>

definition sample_url :: "string \<Rightarrow> string \<Rightarrow> parsed_url" where
  "sample_url scheme host =
     \<lparr> url_Scheme = scheme, url_User = None, url_Host = host, url_Path = [], url_RawQuery = [], url_Fragment = [] \<rparr>"

definition sample_host_env :: host_env where
  "sample_host_env =
     \<lparr> env_url_parse = map_of
         [(''http://proxy:3128'', sample_url ''http'' ''proxy:3128''), (''socks5://proxy'', sample_url ''socks5'' ''proxy'')],
       env_load_key_pair = (\<lambda>_ _. None), env_parse_leaf = (\<lambda>_. None), env_read_file = (\<lambda>_. None),
       env_pem_has_certs = (\<lambda>_. False), env_now = 0 \<rparr>"

definition sample_upstream :: "string \<Rightarrow> upstream_config" where
  "sample_upstream url =
     \<lparr> up_URL = url, up_Auth = \<lparr> upauth_Enabled = True, upauth_Username = ''u'', upauth_Password = ''p'' \<rparr>,
       up_TLSCAFile = [] \<rparr>"

definition sample_config :: config where
  "sample_config = default_config\<lparr>cfg_Upstreams := [sample_upstream ''http://proxy:3128'', sample_upstream ''socks5://proxy'']\<rparr>"

end
