(* ===== verification/EnvConfig.thy ===== *)
theory EnvConfig
  imports Validate GoDuration
begin

text \<open>
  \<open>internal/config/env.go\<close> and the loader of \<open>config.go\<close>: the \<open>.env\<close> file, the process
  environment, the overrides they make to the configuration, and \<open>LoadConfigWithEnv\<close>.

  A Go pointer to a field of the configuration (\<open>dest\<close>) is a pair of a reader and a writer of
  that field. The map of values is an association list with distinct keys, so that its emptiness
  and its names are computed. The YAML decoder (a third-party package) is a parameter, and so are the files.
\<close>

subsection \<open>The \<open>.env\<close> file and the process environment\<close>

datatype env_error =
    EnvRead | EnvInvalidLine nat | EnvDuplicate string
  | EnvBool string | EnvInt string | EnvDuration string
  | EnvUpstreamCount | EnvUpstreamURL nat | EnvUnknown

datatype file_result = FileMissing | FileError | FileData string bool
  \<comment> \<open>the data, and whether reading ended in an error\<close>

definition max_env_line :: nat where
  "max_env_line = 2 ^ 20"

definition scan_lines :: "string \<Rightarrow> string list" where
  \<comment> \<open>\<open>bufio.ScanLines\<close>; the carriage return it drops is dropped in \<open>env_line\<close>\<close>
  "scan_lines s =
     (let ls = split_on CHR 0x0A s in if last ls = [] then butlast ls else ls)"

definition env_line :: "string \<Rightarrow> string" where
  \<comment> \<open>\<open>ScanLines\<close> drops one carriage return and the loop another\<close>
  "env_line token = trim_suffix (trim_suffix token [CHR 0x0D]) [CHR 0x0D]"

definition name_char :: "char \<Rightarrow> bool" where
  "name_char c \<longleftrightarrow> ascii_upper c \<or> ascii_digit c \<or> c = CHR ''_''"

definition valid_env_name :: "string \<Rightarrow> bool" where
  "valid_env_name name \<longleftrightarrow> name \<noteq> [] \<and> ascii_upper (hd name) \<and> list_all name_char (tl name)"

type_synonym env_values = "(string \<times> string) list"

fun read_env_lines :: "nat \<Rightarrow> string list \<Rightarrow> env_values \<Rightarrow> env_error + env_values" where
  "read_env_lines n [] values = Inr values"
| "read_env_lines n (token # tokens) values =
     (let line = env_line token in
      if max_env_line \<le> length token then Inl EnvRead
      else if trim_space line = [] \<or> has_prefix (trim_space line) ''#'' then read_env_lines (Suc n) tokens values
      else case cut CHR ''='' line of
        None \<Rightarrow> Inl (EnvInvalidLine n)
      | Some (key0, val) \<Rightarrow>
          (let key = trim_space key0 in
           if \<not> valid_env_name key then Inl (EnvInvalidLine n)
           else if \<not> has_prefix key ''MUX_'' then read_env_lines (Suc n) tokens values
           else if map_of values key \<noteq> None then Inl (EnvDuplicate key)
           else read_env_lines (Suc n) tokens (AList.update key val values)))"

definition read_env_file :: "(string \<Rightarrow> file_result) \<Rightarrow> string \<Rightarrow> env_error + env_values" where
  "read_env_file files path =
     (if path = [] then Inr []
      else case files path of
        FileMissing \<Rightarrow> Inr []
      | FileError \<Rightarrow> Inl EnvRead
      | FileData s err \<Rightarrow>
          (case read_env_lines 1 (scan_lines s) [] of
             Inl e \<Rightarrow> Inl e
           | Inr values \<Rightarrow> if err then Inl EnvRead else Inr values))"

definition add_assignment :: "string \<Rightarrow> env_values \<Rightarrow> env_values" where
  "add_assignment assignment values =
     (case cut CHR ''='' assignment of
        Some (key, val) \<Rightarrow> if has_prefix key ''MUX_'' then AList.update key val values else values
      | None \<Rightarrow> values)"

definition read_env_values :: "(string \<Rightarrow> file_result) \<Rightarrow> string list \<Rightarrow> string \<Rightarrow> env_error + env_values" where
  "read_env_values files environ path =
     (case read_env_file files path of
        Inl e \<Rightarrow> Inl e
      | Inr values \<Rightarrow> Inr (fold add_assignment environ values))"

subsection \<open>Destinations\<close>

type_synonym 'a dest = "(config \<Rightarrow> 'a) \<times> ('a \<Rightarrow> config \<Rightarrow> config)"

definition server_dest :: "(server_config \<Rightarrow> 'a) \<Rightarrow> (('a \<Rightarrow> 'a) \<Rightarrow> server_config \<Rightarrow> server_config) \<Rightarrow> 'a dest" where
  "server_dest g u = (\<lambda>c. g (cfg_Server c), \<lambda>v c. c\<lparr>cfg_Server := u (\<lambda>_. v) (cfg_Server c)\<rparr>)"

definition auth_dest :: "(auth_config \<Rightarrow> 'a) \<Rightarrow> (('a \<Rightarrow> 'a) \<Rightarrow> auth_config \<Rightarrow> auth_config) \<Rightarrow> 'a dest" where
  "auth_dest g u = (\<lambda>c. g (cfg_Auth c), \<lambda>v c. c\<lparr>cfg_Auth := u (\<lambda>_. v) (cfg_Auth c)\<rparr>)"

definition proxy_dest :: "(proxy_config \<Rightarrow> 'a) \<Rightarrow> (('a \<Rightarrow> 'a) \<Rightarrow> proxy_config \<Rightarrow> proxy_config) \<Rightarrow> 'a dest" where
  "proxy_dest g u = (\<lambda>c. g (cfg_Proxy c), \<lambda>v c. c\<lparr>cfg_Proxy := u (\<lambda>_. v) (cfg_Proxy c)\<rparr>)"

definition string_settings :: "(string \<times> string dest) list" where
  "string_settings =
     [(''MUX_SERVER_HOST'', server_dest srv_Host srv_Host_update),
      (''MUX_SERVER_TLS_CERT_FILE'',
         server_dest (\<lambda>s. tls_CertFile (srv_TLS s)) (\<lambda>f. srv_TLS_update (tls_CertFile_update f))),
      (''MUX_SERVER_TLS_KEY_FILE'',
         server_dest (\<lambda>s. tls_KeyFile (srv_TLS s)) (\<lambda>f. srv_TLS_update (tls_KeyFile_update f))),
      (''MUX_AUTH_USERNAME'', auth_dest auth_Username auth_Username_update),
      (''MUX_AUTH_PASSWORD'', auth_dest auth_Password auth_Password_update),
      (''MUX_PROXY_ALGORITHM'', proxy_dest prx_Algorithm prx_Algorithm_update),
      (''MUX_PROXY_NETWORK'', proxy_dest prx_Network prx_Network_update)]"

definition bool_settings :: "(string \<times> bool dest) list" where
  "bool_settings =
     [(''MUX_SERVER_ALLOW_INSECURE_PUBLIC_HTTP'',
         server_dest srv_AllowInsecurePublicHTTP srv_AllowInsecurePublicHTTP_update),
      (''MUX_SERVER_ALLOW_UNAUTHENTICATED_PUBLIC_PROXY'',
         server_dest srv_AllowUnauthenticatedPublicProxy srv_AllowUnauthenticatedPublicProxy_update),
      (''MUX_AUTH_ENABLED'', auth_dest auth_Enabled auth_Enabled_update)]"

definition int_settings :: "(string \<times> int dest) list" where
  "int_settings =
     [(''MUX_SERVER_PORT'', server_dest srv_Port srv_Port_update),
      (''MUX_SERVER_MAX_CONNECTIONS'', server_dest srv_MaxConnections srv_MaxConnections_update),
      (''MUX_SERVER_MAX_CONNECTIONS_PER_IP'', server_dest srv_MaxConnectionsPerIP srv_MaxConnectionsPerIP_update),
      (''MUX_SERVER_MAX_HEADER_BYTES'', server_dest srv_MaxHeaderBytes srv_MaxHeaderBytes_update),
      (''MUX_SERVER_HTTP2_MAX_CONCURRENT_STREAMS'',
         server_dest srv_HTTP2MaxConcurrentStreams srv_HTTP2MaxConcurrentStreams_update),
      (''MUX_PROXY_TIMEOUT'', proxy_dest prx_Timeout prx_Timeout_update),
      (''MUX_AUTH_MAX_FAILED_ATTEMPTS'', auth_dest auth_MaxFailedAttempts auth_MaxFailedAttempts_update),
      (''MUX_AUTH_MAX_TRACKED_IPS'', auth_dest auth_MaxTrackedIPs auth_MaxTrackedIPs_update),
      (''MUX_PROXY_MAX_IDLE_CONNS'', proxy_dest prx_MaxIdleConns prx_MaxIdleConns_update),
      (''MUX_PROXY_MAX_IDLE_CONNS_PER_HOST'', proxy_dest prx_MaxIdleConnsPerHost prx_MaxIdleConnsPerHost_update),
      (''MUX_PROXY_MAX_CONNS_PER_HOST'', proxy_dest prx_MaxConnsPerHost prx_MaxConnsPerHost_update),
      (''MUX_PROXY_MAX_TUNNELS'', proxy_dest prx_MaxTunnels prx_MaxTunnels_update),
      (''MUX_PROXY_MAX_TUNNELS_PER_IP'', proxy_dest prx_MaxTunnelsPerIP prx_MaxTunnelsPerIP_update)]"

definition duration_settings :: "(string \<times> duration dest) list" where
  "duration_settings =
     [(''MUX_SERVER_READ_HEADER_TIMEOUT'', server_dest srv_ReadHeaderTimeout srv_ReadHeaderTimeout_update),
      (''MUX_SERVER_IDLE_TIMEOUT'', server_dest srv_IdleTimeout srv_IdleTimeout_update),
      (''MUX_SERVER_SHUTDOWN_TIMEOUT'', server_dest srv_ShutdownTimeout srv_ShutdownTimeout_update),
      (''MUX_SERVER_HTTP2_SEND_PING_TIMEOUT'', server_dest srv_HTTP2SendPingTimeout srv_HTTP2SendPingTimeout_update),
      (''MUX_SERVER_HTTP2_PING_TIMEOUT'', server_dest srv_HTTP2PingTimeout srv_HTTP2PingTimeout_update),
      (''MUX_SERVER_HTTP2_WRITE_BYTE_TIMEOUT'', server_dest srv_HTTP2WriteByteTimeout srv_HTTP2WriteByteTimeout_update),
      (''MUX_PROXY_DIAL_TIMEOUT'', proxy_dest prx_DialTimeout prx_DialTimeout_update),
      (''MUX_PROXY_DIAL_KEEP_ALIVE'', proxy_dest prx_DialKeepAlive prx_DialKeepAlive_update),
      (''MUX_PROXY_TLS_HANDSHAKE_TIMEOUT'', proxy_dest prx_TLSHandshakeTimeout prx_TLSHandshakeTimeout_update),
      (''MUX_PROXY_RESPONSE_HEADER_TIMEOUT'', proxy_dest prx_ResponseHeaderTimeout prx_ResponseHeaderTimeout_update),
      (''MUX_PROXY_RESPONSE_BODY_IDLE_TIMEOUT'', proxy_dest prx_ResponseBodyIdleTimeout prx_ResponseBodyIdleTimeout_update),
      (''MUX_PROXY_IDLE_CONN_TIMEOUT'', proxy_dest prx_IdleConnTimeout prx_IdleConnTimeout_update),
      (''MUX_PROXY_EXPECT_CONTINUE_TIMEOUT'', proxy_dest prx_ExpectContinueTimeout prx_ExpectContinueTimeout_update),
      (''MUX_PROXY_TUNNEL_IDLE_TIMEOUT'', proxy_dest prx_TunnelIdleTimeout prx_TunnelIdleTimeout_update),
      (''MUX_PROXY_FAILOVER_COOLDOWN'', proxy_dest prx_FailoverCooldown prx_FailoverCooldown_update),
      (''MUX_AUTH_FAILURE_WINDOW'', auth_dest auth_FailureWindow auth_FailureWindow_update),
      (''MUX_AUTH_BLOCK_DURATION'', auth_dest auth_BlockDuration auth_BlockDuration_update)]"

subsection \<open>Overrides\<close>

fun apply_settings ::
    "(string \<Rightarrow> 'a option) \<Rightarrow> (string \<Rightarrow> env_error) \<Rightarrow> env_values \<Rightarrow> (string \<times> 'a dest) list \<Rightarrow> config
      \<Rightarrow> env_error + config" where
  \<comment> \<open>one of the four loops of \<open>applyEnvOverrides\<close>\<close>
  "apply_settings parse err values [] cfg = Inr cfg"
| "apply_settings parse err values ((name, dest) # entries) cfg =
     (case map_of values name of
        None \<Rightarrow> apply_settings parse err values entries cfg
      | Some val \<Rightarrow>
          (case parse val of
             None \<Rightarrow> Inl (err name)
           | Some parsed \<Rightarrow> apply_settings parse err values entries (snd dest parsed cfg)))"

definition upstream_prefix :: "nat \<Rightarrow> string" where
  "upstream_prefix index = ''MUX_UPSTREAM_'' @ itoa (index + 1) @ ''_''"

definition text_or_empty :: "env_values \<Rightarrow> string \<Rightarrow> string" where
  "text_or_empty values name = (case map_of values name of None \<Rightarrow> [] | Some val \<Rightarrow> val)"

definition env_upstream :: "env_values \<Rightarrow> nat \<Rightarrow> env_error + upstream_config" where
  "env_upstream values index =
     (let prefix = upstream_prefix index; authName = prefix @ ''AUTH_ENABLED'';
          up = \<lparr> up_URL = text_or_empty values (prefix @ ''URL''),
                 up_Auth = \<lparr> upauth_Enabled = False,
                             upauth_Username = text_or_empty values (prefix @ ''AUTH_USERNAME''),
                             upauth_Password = text_or_empty values (prefix @ ''AUTH_PASSWORD'') \<rparr>,
                 up_TLSCAFile = text_or_empty values (prefix @ ''TLS_CA_FILE'') \<rparr>
      in case (case map_of values authName of None \<Rightarrow> Some False | Some val \<Rightarrow> parse_bool val) of
           None \<Rightarrow> Inl (EnvBool authName)
         | Some enabled \<Rightarrow>
             if up_URL up = [] then Inl (EnvUpstreamURL index)
             else Inr (up\<lparr>up_Auth := (up_Auth up)\<lparr>upauth_Enabled := enabled\<rparr>\<rparr>))"

fun env_upstreams :: "env_values \<Rightarrow> nat list \<Rightarrow> env_error + upstream_config list" where
  "env_upstreams values [] = Inr []"
| "env_upstreams values (index # rest) =
     (case env_upstream values index of
        Inl e \<Rightarrow> Inl e
      | Inr up \<Rightarrow> (case env_upstreams values rest of Inl e \<Rightarrow> Inl e | Inr ups \<Rightarrow> Inr (up # ups)))"

definition upstream_names :: "nat \<Rightarrow> string list" where
  "upstream_names index =
     map (\<lambda>suffix. upstream_prefix index @ suffix)
       [''URL'', ''AUTH_USERNAME'', ''AUTH_PASSWORD'', ''TLS_CA_FILE'', ''AUTH_ENABLED'']"

definition apply_upstreams :: "env_values \<Rightarrow> config \<Rightarrow> env_error + (config \<times> nat)" where
  \<comment> \<open>the new configuration and the number of upstreams whose variables are known\<close>
  "apply_upstreams values cfg =
     (case map_of values ''MUX_UPSTREAM_COUNT'' of
        None \<Rightarrow> Inr (cfg, 0)
      | Some countText \<Rightarrow>
          (case atoi countText of
             None \<Rightarrow> Inl EnvUpstreamCount
           | Some count \<Rightarrow>
               if count < 0 \<or> count > 1024 then Inl EnvUpstreamCount
               else (case env_upstreams values [0..<nat count] of
                  Inl e \<Rightarrow> Inl e
                | Inr ups \<Rightarrow> Inr (cfg\<lparr>cfg_Upstreams := ups\<rparr>, nat count))))"

definition known_names :: "nat \<Rightarrow> string list" where
  "known_names count =
     [''MUX_PUBLISH_HOST'', ''MUX_PUBLISH_PORT'', ''MUX_UPSTREAM_COUNT'']
     @ map fst string_settings @ map fst bool_settings @ map fst int_settings @ map fst duration_settings
     @ concat (map upstream_names [0..<count])"

definition bind_result :: "'e + 'a \<Rightarrow> ('a \<Rightarrow> 'e + 'b) \<Rightarrow> 'e + 'b" where
  "bind_result r k = (case r of Inl e \<Rightarrow> Inl e | Inr x \<Rightarrow> k x)"

definition apply_env_overrides :: "env_values \<Rightarrow> config \<Rightarrow> env_error + config" where
  "apply_env_overrides values cfg =
     bind_result (apply_settings Some EnvBool values string_settings cfg) (\<lambda>cfg.
     bind_result (apply_settings parse_bool EnvBool values bool_settings cfg) (\<lambda>cfg.
     bind_result (apply_settings atoi EnvInt values int_settings cfg) (\<lambda>cfg.
     bind_result (apply_settings parse_duration EnvDuration values duration_settings cfg) (\<lambda>cfg.
     bind_result (apply_upstreams values cfg) (\<lambda>(cfg, count).
     if list_all (\<lambda>(name, _). name \<in> set (known_names count)) values then Inr cfg else Inl EnvUnknown)))))"

definition unmarshal_duration :: "string option \<Rightarrow> duration option" where
  \<comment> \<open>\<open>Duration.UnmarshalYAML\<close>; \<open>None\<close> is a node that is not a string\<close>
  "unmarshal_duration node = (case node of None \<Rightarrow> None | Some val \<Rightarrow> parse_duration val)"

datatype load_error = LoadRead | LoadParse | LoadEnv env_error | LoadInvalid validate_error

definition load_config_with_env ::
    "(string \<Rightarrow> config \<Rightarrow> config option) \<Rightarrow> (string \<Rightarrow> file_result) \<Rightarrow> string list \<Rightarrow> host_env
      \<Rightarrow> string \<Rightarrow> string \<Rightarrow> load_error + config" where
  "load_config_with_env yaml files environ henv filename envFile =
     bind_result
       (if filename = [] then Inr (default_config, False)
        else case files filename of
          FileMissing \<Rightarrow> Inr (default_config, True)
        | FileError \<Rightarrow> Inl LoadRead
        | FileData s err \<Rightarrow>
            if err then Inl LoadRead
            else case yaml s default_config of None \<Rightarrow> Inl LoadParse | Some cfg \<Rightarrow> Inr (cfg, False))
       (\<lambda>(cfg, missing).
     case read_env_values files environ envFile of
       Inl e \<Rightarrow> Inl (LoadEnv e)
     | Inr values \<Rightarrow>
         if missing \<and> values = [] then Inl LoadRead
         else case apply_env_overrides values cfg of
           Inl e \<Rightarrow> Inl (LoadEnv e)
         | Inr cfg1 \<Rightarrow>
             (case validate henv (Some cfg1) of Some e \<Rightarrow> Inl (LoadInvalid e) | None \<Rightarrow> Inr cfg1))"

definition load_config ::
    "(string \<Rightarrow> config \<Rightarrow> config option) \<Rightarrow> (string \<Rightarrow> file_result) \<Rightarrow> string list \<Rightarrow> host_env
      \<Rightarrow> string \<Rightarrow> load_error + config" where
  "load_config yaml files environ henv filename =
     load_config_with_env yaml files environ henv filename []"

subsection \<open>Destinations do not overlap\<close>

definition separate :: "'a dest \<Rightarrow> 'b dest \<Rightarrow> bool" where
  \<comment> \<open>writing the second leaves the first alone\<close>
  "separate d e \<longleftrightarrow> (\<forall>v c. fst d (snd e v c) = fst d c)"

definition good_dest :: "'a dest \<Rightarrow> bool" where
  "good_dest d \<longleftrightarrow> (\<forall>v c. fst d (snd d v c) = v)"

definition separate_lists :: "(string \<times> 'a dest) list \<Rightarrow> (string \<times> 'b dest) list \<Rightarrow> bool" where
  "separate_lists xs ys \<longleftrightarrow> list_all (\<lambda>d. list_all (\<lambda>e. separate (snd d) (snd e)) ys) xs"

definition good_settings :: "(string \<times> 'a dest) list \<Rightarrow> bool" where
  "good_settings xs \<longleftrightarrow> list_all (\<lambda>d. good_dest (snd d)) xs
     \<and> sorted_wrt (\<lambda>d e. separate (snd d) (snd e) \<and> separate (snd e) (snd d)) xs"

lemmas dest_defs = server_dest_def auth_dest_def proxy_dest_def separate_def good_dest_def

lemma good_string_settings: "good_settings string_settings"
  by (simp add: good_settings_def string_settings_def dest_defs)

lemma good_bool_settings: "good_settings bool_settings"
  by (simp add: good_settings_def bool_settings_def dest_defs)

lemma good_int_settings: "good_settings int_settings"
  by (simp add: good_settings_def int_settings_def dest_defs)

lemma good_duration_settings: "good_settings duration_settings"
  by (simp add: good_settings_def duration_settings_def dest_defs)

lemma separate_settings:
  "separate_lists string_settings bool_settings" "separate_lists string_settings int_settings"
  "separate_lists string_settings duration_settings" "separate_lists bool_settings int_settings"
  "separate_lists bool_settings duration_settings" "separate_lists int_settings duration_settings"
  "separate_lists bool_settings string_settings" "separate_lists int_settings string_settings"
  "separate_lists duration_settings string_settings" "separate_lists int_settings bool_settings"
  "separate_lists duration_settings bool_settings" "separate_lists duration_settings int_settings"
  by (simp_all add: separate_lists_def string_settings_def bool_settings_def int_settings_def
      duration_settings_def dest_defs)

subsection \<open>What a successful override does\<close>

definition setting_applied :: "(string \<Rightarrow> 'a option) \<Rightarrow> env_values \<Rightarrow> config \<Rightarrow> config \<Rightarrow> string \<times> 'a dest \<Rightarrow> bool" where
  "setting_applied parse values cfg cfg' entry =
     (case map_of values (fst entry) of
        None \<Rightarrow> fst (snd entry) cfg' = fst (snd entry) cfg
      | Some val \<Rightarrow> parse val = Some (fst (snd entry) cfg'))"

lemma apply_settings_frame:
  assumes "apply_settings parse err values xs cfg = Inr cfg'" "\<forall>e \<in> set xs. \<forall>v c. g (snd (snd e) v c) = g c"
  shows "g cfg' = g cfg"
  using assms
proof (induction xs arbitrary: cfg)
  case (Cons entry xs)
  have step: "g (snd (snd entry) v c) = g c" for v c using Cons.prems(2) by simp
  obtain name d where e: "entry = (name, d)" by (cases entry)
  show ?case
  proof (cases "map_of values name")
    case None
    with Cons.prems(1) e have "apply_settings parse err values xs cfg = Inr cfg'" by simp
    then show ?thesis using Cons.IH Cons.prems(2) by simp
  next
    case (Some val)
    with Cons.prems(1) e obtain x where "apply_settings parse err values xs (snd d x cfg) = Inr cfg'"
      by (auto split: option.splits)
    then show ?thesis using Cons.IH Cons.prems(2) step e by simp
  qed
qed simp

lemma settings_applied_cong:
  assumes "list_all (setting_applied parse vals cfg1 cfg2) xs"
    and "\<And>e. e \<in> set xs \<Longrightarrow> fst (snd e) cfg1 = fst (snd e) cfg \<and> fst (snd e) cfg2 = fst (snd e) cfg'"
  shows "list_all (setting_applied parse vals cfg cfg') xs"
  unfolding list_all_iff
proof
  fix e assume "e \<in> set xs"
  with assms(1) have "setting_applied parse vals cfg1 cfg2 e" by (simp add: list_all_iff)
  with assms(2) [OF \<open>e \<in> set xs\<close>] show "setting_applied parse vals cfg cfg' e"
    by (cases "map_of vals (fst e)") (simp_all add: setting_applied_def)
qed

lemma apply_settings_applied:
  assumes "good_settings xs" "apply_settings parse err vals xs cfg = Inr cfg'"
  shows "list_all (setting_applied parse vals cfg cfg') xs"
  using assms
proof (induction xs arbitrary: cfg)
  case (Cons entry xs)
  obtain name d where e: "entry = (name, d)" by (cases entry)
  have good: "good_settings xs" "good_dest d"
    and sep: "\<And>f. f \<in> set xs \<Longrightarrow> separate d (snd f) \<and> separate (snd f) d"
    using Cons.prems(1) e by (auto simp: good_settings_def)
  have keep: "\<forall>f \<in> set xs. \<forall>v c. fst d (snd (snd f) v c) = fst d c"
    using sep by (simp add: separate_def)
  show ?case
  proof (cases "map_of vals name")
    case None
    with Cons.prems(2) e have rest: "apply_settings parse err vals xs cfg = Inr cfg'" by simp
    with Cons.IH good(1) have "list_all (setting_applied parse vals cfg cfg') xs" by blast
    with None e apply_settings_frame [OF rest keep] show ?thesis by (simp add: setting_applied_def [of _ _ _ _ "(name, d)"])
  next
    case (Some val)
    with Cons.prems(2) e obtain x where x: "parse val = Some x" "apply_settings parse err vals xs (snd d x cfg) = Inr cfg'"
      by (auto split: option.splits)
    have "list_all (setting_applied parse vals cfg cfg') xs"
      by (rule settings_applied_cong [OF Cons.IH [OF good(1) x(2)]]) (use sep in \<open>simp add: separate_def\<close>)
    moreover have "fst d cfg' = x"
      using apply_settings_frame [OF x(2) keep] good(2) by (simp add: good_dest_def)
    ultimately show ?thesis using Some x(1) e by (simp add: setting_applied_def [of _ _ _ _ "(name, d)"])
  qed
qed simp

lemma separate_lists_frame:
  assumes "separate_lists xs ys" "apply_settings parse err vals ys cfg = Inr cfg'" "e \<in> set xs"
  shows "fst (snd e) cfg' = fst (snd e) cfg"
  by (rule apply_settings_frame [OF assms(2)])
     (use assms(1,3) in \<open>simp add: separate_lists_def separate_def list_all_iff\<close>)

lemma separate_upstreams:
  "a \<in> set string_settings \<Longrightarrow> fst (snd a) (c\<lparr>cfg_Upstreams := ups\<rparr>) = fst (snd a) c"
  "b \<in> set bool_settings \<Longrightarrow> fst (snd b) (c\<lparr>cfg_Upstreams := ups\<rparr>) = fst (snd b) c"
  "i \<in> set int_settings \<Longrightarrow> fst (snd i) (c\<lparr>cfg_Upstreams := ups\<rparr>) = fst (snd i) c"
  "d \<in> set duration_settings \<Longrightarrow> fst (snd d) (c\<lparr>cfg_Upstreams := ups\<rparr>) = fst (snd d) c"
  by (auto simp: string_settings_def bool_settings_def int_settings_def duration_settings_def dest_defs)

lemma settings_keep_upstreams:
  "\<forall>a \<in> set string_settings. \<forall>v c. cfg_Upstreams (snd (snd a) v c) = cfg_Upstreams c"
  "\<forall>b \<in> set bool_settings. \<forall>v c. cfg_Upstreams (snd (snd b) v c) = cfg_Upstreams c"
  "\<forall>i \<in> set int_settings. \<forall>v c. cfg_Upstreams (snd (snd i) v c) = cfg_Upstreams c"
  "\<forall>d \<in> set duration_settings. \<forall>v c. cfg_Upstreams (snd (snd d) v c) = cfg_Upstreams c"
  by (auto simp: string_settings_def bool_settings_def int_settings_def duration_settings_def dest_defs)

lemma bind_result_Inr: "bind_result r k = Inr y \<longleftrightarrow> (\<exists>x. r = Inr x \<and> k x = Inr y)"
  by (cases r) (auto simp: bind_result_def)

subsection \<open>The documented variables\<close>

text \<open>
  The variables as the README lists them, each with the field it sets. The properties are stated
  with these tables; that the destinations of the code are these fields is proved.
\<close>

definition documented_strings :: "(string \<times> (config \<Rightarrow> string)) list" where
  "documented_strings =
     [(''MUX_SERVER_HOST'', \<lambda>c. srv_Host (cfg_Server c)),
      (''MUX_SERVER_TLS_CERT_FILE'', \<lambda>c. tls_CertFile (srv_TLS (cfg_Server c))),
      (''MUX_SERVER_TLS_KEY_FILE'', \<lambda>c. tls_KeyFile (srv_TLS (cfg_Server c))),
      (''MUX_AUTH_USERNAME'', \<lambda>c. auth_Username (cfg_Auth c)),
      (''MUX_AUTH_PASSWORD'', \<lambda>c. auth_Password (cfg_Auth c)),
      (''MUX_PROXY_ALGORITHM'', \<lambda>c. prx_Algorithm (cfg_Proxy c)),
      (''MUX_PROXY_NETWORK'', \<lambda>c. prx_Network (cfg_Proxy c))]"

definition documented_bools :: "(string \<times> (config \<Rightarrow> bool)) list" where
  "documented_bools =
     [(''MUX_SERVER_ALLOW_INSECURE_PUBLIC_HTTP'', \<lambda>c. srv_AllowInsecurePublicHTTP (cfg_Server c)),
      (''MUX_SERVER_ALLOW_UNAUTHENTICATED_PUBLIC_PROXY'', \<lambda>c. srv_AllowUnauthenticatedPublicProxy (cfg_Server c)),
      (''MUX_AUTH_ENABLED'', \<lambda>c. auth_Enabled (cfg_Auth c))]"

definition documented_ints :: "(string \<times> (config \<Rightarrow> int)) list" where
  "documented_ints =
     [(''MUX_SERVER_PORT'', \<lambda>c. srv_Port (cfg_Server c)),
      (''MUX_SERVER_MAX_CONNECTIONS'', \<lambda>c. srv_MaxConnections (cfg_Server c)),
      (''MUX_SERVER_MAX_CONNECTIONS_PER_IP'', \<lambda>c. srv_MaxConnectionsPerIP (cfg_Server c)),
      (''MUX_SERVER_MAX_HEADER_BYTES'', \<lambda>c. srv_MaxHeaderBytes (cfg_Server c)),
      (''MUX_SERVER_HTTP2_MAX_CONCURRENT_STREAMS'', \<lambda>c. srv_HTTP2MaxConcurrentStreams (cfg_Server c)),
      (''MUX_PROXY_TIMEOUT'', \<lambda>c. prx_Timeout (cfg_Proxy c)),
      (''MUX_AUTH_MAX_FAILED_ATTEMPTS'', \<lambda>c. auth_MaxFailedAttempts (cfg_Auth c)),
      (''MUX_AUTH_MAX_TRACKED_IPS'', \<lambda>c. auth_MaxTrackedIPs (cfg_Auth c)),
      (''MUX_PROXY_MAX_IDLE_CONNS'', \<lambda>c. prx_MaxIdleConns (cfg_Proxy c)),
      (''MUX_PROXY_MAX_IDLE_CONNS_PER_HOST'', \<lambda>c. prx_MaxIdleConnsPerHost (cfg_Proxy c)),
      (''MUX_PROXY_MAX_CONNS_PER_HOST'', \<lambda>c. prx_MaxConnsPerHost (cfg_Proxy c)),
      (''MUX_PROXY_MAX_TUNNELS'', \<lambda>c. prx_MaxTunnels (cfg_Proxy c)),
      (''MUX_PROXY_MAX_TUNNELS_PER_IP'', \<lambda>c. prx_MaxTunnelsPerIP (cfg_Proxy c))]"

definition documented_durations :: "(string \<times> (config \<Rightarrow> duration)) list" where
  "documented_durations =
     [(''MUX_SERVER_READ_HEADER_TIMEOUT'', \<lambda>c. srv_ReadHeaderTimeout (cfg_Server c)),
      (''MUX_SERVER_IDLE_TIMEOUT'', \<lambda>c. srv_IdleTimeout (cfg_Server c)),
      (''MUX_SERVER_SHUTDOWN_TIMEOUT'', \<lambda>c. srv_ShutdownTimeout (cfg_Server c)),
      (''MUX_SERVER_HTTP2_SEND_PING_TIMEOUT'', \<lambda>c. srv_HTTP2SendPingTimeout (cfg_Server c)),
      (''MUX_SERVER_HTTP2_PING_TIMEOUT'', \<lambda>c. srv_HTTP2PingTimeout (cfg_Server c)),
      (''MUX_SERVER_HTTP2_WRITE_BYTE_TIMEOUT'', \<lambda>c. srv_HTTP2WriteByteTimeout (cfg_Server c)),
      (''MUX_PROXY_DIAL_TIMEOUT'', \<lambda>c. prx_DialTimeout (cfg_Proxy c)),
      (''MUX_PROXY_DIAL_KEEP_ALIVE'', \<lambda>c. prx_DialKeepAlive (cfg_Proxy c)),
      (''MUX_PROXY_TLS_HANDSHAKE_TIMEOUT'', \<lambda>c. prx_TLSHandshakeTimeout (cfg_Proxy c)),
      (''MUX_PROXY_RESPONSE_HEADER_TIMEOUT'', \<lambda>c. prx_ResponseHeaderTimeout (cfg_Proxy c)),
      (''MUX_PROXY_RESPONSE_BODY_IDLE_TIMEOUT'', \<lambda>c. prx_ResponseBodyIdleTimeout (cfg_Proxy c)),
      (''MUX_PROXY_IDLE_CONN_TIMEOUT'', \<lambda>c. prx_IdleConnTimeout (cfg_Proxy c)),
      (''MUX_PROXY_EXPECT_CONTINUE_TIMEOUT'', \<lambda>c. prx_ExpectContinueTimeout (cfg_Proxy c)),
      (''MUX_PROXY_TUNNEL_IDLE_TIMEOUT'', \<lambda>c. prx_TunnelIdleTimeout (cfg_Proxy c)),
      (''MUX_PROXY_FAILOVER_COOLDOWN'', \<lambda>c. prx_FailoverCooldown (cfg_Proxy c)),
      (''MUX_AUTH_FAILURE_WINDOW'', \<lambda>c. auth_FailureWindow (cfg_Auth c)),
      (''MUX_AUTH_BLOCK_DURATION'', \<lambda>c. auth_BlockDuration (cfg_Auth c))]"

definition process_value :: "string list \<Rightarrow> string \<Rightarrow> string option" where
  \<comment> \<open>the value the process environment gives a variable: the last assignment counts\<close>
  "process_value environ name =
     (if has_prefix name ''MUX_'' then map_of (rev (List.map_filter (cut CHR ''='') environ)) name else None)"

definition taken :: "(string \<Rightarrow> 'a option) \<Rightarrow> string option \<Rightarrow> 'a \<Rightarrow> 'a \<Rightarrow> bool" where
  \<comment> \<open>the new value is the text's if there is one, else the old value\<close>
  "taken parse text old new = (case text of None \<Rightarrow> new = old | Some val \<Rightarrow> parse val = Some new)"

definition effective :: "string list \<Rightarrow> env_values \<Rightarrow> string \<Rightarrow> string option" where
  \<comment> \<open>the process environment before the \<open>.env\<close> file\<close>
  "effective environ filevals name =
     (case process_value environ name of Some val \<Rightarrow> Some val | None \<Rightarrow> map_of filevals name)"

definition upstream_variable :: "nat \<Rightarrow> string \<Rightarrow> string" where
  "upstream_variable i suffix = ''MUX_UPSTREAM_'' @ itoa (Suc i) @ ''_'' @ suffix"

definition upstream_taken :: "(string \<Rightarrow> string option) \<Rightarrow> nat \<Rightarrow> upstream_config \<Rightarrow> bool" where
  "upstream_taken text i up \<longleftrightarrow>
     text (upstream_variable i ''URL'') = Some (up_URL up) \<and> up_URL up \<noteq> []
     \<and> taken Some (text (upstream_variable i ''AUTH_USERNAME'')) [] (upauth_Username (up_Auth up))
     \<and> taken Some (text (upstream_variable i ''AUTH_PASSWORD'')) [] (upauth_Password (up_Auth up))
     \<and> taken Some (text (upstream_variable i ''TLS_CA_FILE'')) [] (up_TLSCAFile up)
     \<and> taken parse_bool (text (upstream_variable i ''AUTH_ENABLED'')) False (upauth_Enabled (up_Auth up))"

definition upstreams_taken :: "(string \<Rightarrow> string option) \<Rightarrow> upstream_config list \<Rightarrow> upstream_config list \<Rightarrow> bool" where
  "upstreams_taken text old new =
     (case text ''MUX_UPSTREAM_COUNT'' of
        None \<Rightarrow> new = old
      | Some val \<Rightarrow> atoi val = Some (int (length new)) \<and> length new \<le> 1024
          \<and> (\<forall>i < length new. upstream_taken text i (new ! i)))"

definition documented :: "(string \<Rightarrow> string option) \<Rightarrow> nat \<Rightarrow> string \<Rightarrow> bool" where
  \<comment> \<open>the variables there are when this number of upstreams is given\<close>
  "documented text count name \<longleftrightarrow>
     name \<in> {''MUX_PUBLISH_HOST'', ''MUX_PUBLISH_PORT'', ''MUX_UPSTREAM_COUNT''}
     \<or> name \<in> fst ` set documented_strings \<or> name \<in> fst ` set documented_bools
     \<or> name \<in> fst ` set documented_ints \<or> name \<in> fst ` set documented_durations
     \<or> text ''MUX_UPSTREAM_COUNT'' \<noteq> None
       \<and> (\<exists>i < count. \<exists>suffix \<in> {''URL'', ''AUTH_USERNAME'', ''AUTH_PASSWORD'', ''TLS_CA_FILE'', ''AUTH_ENABLED''}.
            name = upstream_variable i suffix)"

lemma documented_settings:
  "documented_strings = map (map_prod id fst) string_settings"
  "documented_bools = map (map_prod id fst) bool_settings"
  "documented_ints = map (map_prod id fst) int_settings"
  "documented_durations = map (map_prod id fst) duration_settings"
  by (simp_all add: documented_strings_def documented_bools_def documented_ints_def documented_durations_def
      string_settings_def bool_settings_def int_settings_def duration_settings_def dest_defs)

lemma upstream_variable_prefix: "upstream_prefix i @ suffix = upstream_variable i suffix"
  by (simp add: upstream_prefix_def upstream_variable_def)

lemma env_upstream_taken: "env_upstream values i = Inr up \<Longrightarrow> upstream_taken (map_of values) i up"
  by (auto simp: env_upstream_def upstream_taken_def taken_def text_or_empty_def upstream_variable_prefix Let_def
      split: option.splits if_splits)

lemma known_documented:
  "name \<in> set (known_names count) \<Longrightarrow>
     count = (if text ''MUX_UPSTREAM_COUNT'' = None then 0 else n) \<Longrightarrow> documented text n name"
  unfolding known_names_def documented_def documented_settings upstream_names_def upstream_variable_prefix
  by (auto simp: image_iff split: if_splits)

lemma env_upstreams_Inr:
  "env_upstreams values ixs = Inr ups \<Longrightarrow>
     length ups = length ixs \<and> (\<forall>j < length ixs. env_upstream values (ixs ! j) = Inr (ups ! j))"
proof (induction ixs arbitrary: ups)
  case (Cons i ixs)
  then show ?case by (auto simp: nth_Cons split: sum.splits nat.split)
qed simp

lemma apply_upstreams_Inr:
  assumes "apply_upstreams vals cfg = Inr (cfg', count)"
  shows "upstreams_taken (map_of vals) (cfg_Upstreams cfg) (cfg_Upstreams cfg')"
    "cfg' = cfg\<lparr>cfg_Upstreams := cfg_Upstreams cfg'\<rparr>"
    "count = (if map_of vals ''MUX_UPSTREAM_COUNT'' = None then 0 else length (cfg_Upstreams cfg'))"
  using assms
  by (auto simp: apply_upstreams_def upstreams_taken_def env_upstream_taken dest!: env_upstreams_Inr
      split: option.splits sum.splits if_splits)

lemma overrides_applied:
  assumes "apply_env_overrides values cfg = Inr cfg'"
  shows "list_all (setting_applied Some values cfg cfg') string_settings"
    "list_all (setting_applied parse_bool values cfg cfg') bool_settings"
    "list_all (setting_applied atoi values cfg cfg') int_settings"
    "list_all (setting_applied parse_duration values cfg cfg') duration_settings"
    "upstreams_taken (map_of values) (cfg_Upstreams cfg) (cfg_Upstreams cfg')"
    "list_all (\<lambda>(name, _). documented (map_of values) (length (cfg_Upstreams cfg')) name) values"
proof -
  obtain c1 c2 c3 c4 count where
    s1: "apply_settings Some EnvBool values string_settings cfg = Inr c1"
    and s2: "apply_settings parse_bool EnvBool values bool_settings c1 = Inr c2"
    and s3: "apply_settings atoi EnvInt values int_settings c2 = Inr c3"
    and s4: "apply_settings parse_duration EnvDuration values duration_settings c3 = Inr c4"
    and s5: "apply_upstreams values c4 = Inr (cfg', count)"
    and known: "list_all (\<lambda>(name, _). name \<in> set (known_names count)) values"
    using assms by (auto simp: apply_env_overrides_def bind_result_Inr split: prod.splits if_splits)
  have keep: "fst (snd a) cfg' = fst (snd a) c4" if "a \<in> set string_settings" for a
    using separate_upstreams(1) [OF that] apply_upstreams_Inr(2) [OF s5] by metis
  have keep2: "fst (snd a) cfg' = fst (snd a) c4" if "a \<in> set bool_settings" for a
    using separate_upstreams(2) [OF that] apply_upstreams_Inr(2) [OF s5] by metis
  have keep3: "fst (snd a) cfg' = fst (snd a) c4" if "a \<in> set int_settings" for a
    using separate_upstreams(3) [OF that] apply_upstreams_Inr(2) [OF s5] by metis
  have keep4: "fst (snd a) cfg' = fst (snd a) c4" if "a \<in> set duration_settings" for a
    using separate_upstreams(4) [OF that] apply_upstreams_Inr(2) [OF s5] by metis
  note sep = separate_settings
  show "list_all (setting_applied Some values cfg cfg') string_settings"
    by (rule settings_applied_cong [OF apply_settings_applied [OF good_string_settings s1]])
       (simp add: keep separate_lists_frame [OF sep(1) s2] separate_lists_frame [OF sep(2) s3]
         separate_lists_frame [OF sep(3) s4])
  show "list_all (setting_applied parse_bool values cfg cfg') bool_settings"
    by (rule settings_applied_cong [OF apply_settings_applied [OF good_bool_settings s2]])
       (simp add: keep2 separate_lists_frame [OF sep(7) s1] separate_lists_frame [OF sep(4) s3]
         separate_lists_frame [OF sep(5) s4])
  show "list_all (setting_applied atoi values cfg cfg') int_settings"
    by (rule settings_applied_cong [OF apply_settings_applied [OF good_int_settings s3]])
       (simp add: keep3 separate_lists_frame [OF sep(8) s1] separate_lists_frame [OF sep(10) s2]
         separate_lists_frame [OF sep(6) s4])
  show "list_all (setting_applied parse_duration values cfg cfg') duration_settings"
    by (rule settings_applied_cong [OF apply_settings_applied [OF good_duration_settings s4]])
       (simp add: keep4 separate_lists_frame [OF sep(9) s1] separate_lists_frame [OF sep(11) s2]
         separate_lists_frame [OF sep(12) s3])
  have "cfg_Upstreams c4 = cfg_Upstreams cfg"
    using apply_settings_frame [OF s1 settings_keep_upstreams(1)] apply_settings_frame [OF s2 settings_keep_upstreams(2)]
      apply_settings_frame [OF s3 settings_keep_upstreams(3)] apply_settings_frame [OF s4 settings_keep_upstreams(4)]
    by simp
  then show "upstreams_taken (map_of values) (cfg_Upstreams cfg) (cfg_Upstreams cfg')"
    using apply_upstreams_Inr(1) [OF s5] by simp
  show "list_all (\<lambda>(name, _). documented (map_of values) (length (cfg_Upstreams cfg')) name) values"
    using known apply_upstreams_Inr(3) [OF s5] by (auto simp: list_all_iff intro: known_documented)
qed

subsection \<open>Precedence\<close>

lemma add_assignment_map_of:
  "map_of (add_assignment a values) name =
     (case cut CHR ''='' a of
        Some (key, val) \<Rightarrow> if key = name \<and> has_prefix name ''MUX_'' then Some val else map_of values name
      | None \<Rightarrow> map_of values name)"
  by (auto simp: add_assignment_def update_conv' split: option.split)

lemma environ_map_of:
  "map_of (fold add_assignment environ values) name =
     (case process_value environ name of Some val \<Rightarrow> Some val | None \<Rightarrow> map_of values name)"
proof (induction environ arbitrary: "values")
  case Nil
  show ?case by (simp add: process_value_def List.map_filter_def)
next
  case (Cons a environ)
  show ?case
    by (auto simp: Cons.IH add_assignment_map_of process_value_def List.map_filter_simps map_add_def
        split: option.splits)
qed

lemma environ_effective: "map_of (fold add_assignment environ filevals) = effective environ filevals"
  by (simp add: fun_eq_iff environ_map_of effective_def)

lemma settings_taken:
  "list_all (setting_applied parse (fold add_assignment environ filevals) base cfg) xs
    \<longleftrightarrow> list_all (\<lambda>(name, field). taken parse (effective environ filevals name) (field base) (field cfg))
          (map (map_prod id fst) xs)"
  unfolding list_all_iff setting_applied_def taken_def environ_effective case_prod_beta
  by (simp split: option.split)

subsection \<open>Reading back a file\<close>

definition render_env :: "env_values \<Rightarrow> string" where
  "render_env values = concat (map (\<lambda>(key, val). key @ CHR ''='' # val @ [CHR 0x0A]) values)"

definition good_assignment :: "string \<times> string \<Rightarrow> bool" where
  "good_assignment kv \<longleftrightarrow> valid_env_name (fst kv) \<and> has_prefix (fst kv) ''MUX_''
     \<and> CHR 0x0A \<notin> set (snd kv) \<and> (snd kv = [] \<or> last (snd kv) \<noteq> CHR 0x0D)
     \<and> length (fst kv) + length (snd kv) + 1 < max_env_line"

lemma no_space_front:
  assumes "\<not> ascii_space c" "\<forall>w \<in> set wide. w \<noteq> [] \<and> hd w \<noteq> c"
  shows "space_len wide (c # s) = 0"
proof -
  have "filter (has_prefix (c # s)) wide = []"
    using assms(2) by (auto simp: filter_empty_conv has_prefix_def neq_Nil_conv)
  with assms(1) show ?thesis by (simp add: space_len_def)
qed

lemma skip_spaces_front:
  "\<not> ascii_space c \<Longrightarrow> \<forall>w \<in> set wide. w \<noteq> [] \<and> hd w \<noteq> c \<Longrightarrow> skip_spaces wide (c # s) = c # s"
  by (simp add: skip_spaces.simps no_space_front)

lemma space_len_le:
  assumes "\<forall>w \<in> set wide. c \<notin> set w" "\<not> ascii_space c"
  shows "space_len wide (s @ [c]) \<le> length s"
proof (cases s)
  case Nil
  with assms(2) have "space_len wide (s @ [c]) = 0 \<or>
      (\<exists>w \<in> set wide. has_prefix (s @ [c]) w \<and> space_len wide (s @ [c]) = length w)"
    by (auto simp: space_len_def filter_eq_Cons_iff split: list.splits)
  moreover have "length w = 0" if "w \<in> set wide" "has_prefix [c] w" for w
    using assms(1) that by (cases w) (auto simp: has_prefix_def)
  ultimately show ?thesis using Nil by auto
next
  case (Cons x xs)
  show ?thesis
  proof (cases "ascii_space x")
    case True
    then show ?thesis using Cons by (simp add: space_len_def)
  next
    case False
    have "length w \<le> length s" if "w \<in> set wide" "has_prefix (s @ [c]) w" for w
    proof (rule ccontr)
      assume "\<not> length w \<le> length s"
      then have "take (length w) (s @ [c]) = s @ [c]" by simp
      with that assms(1) show False by (auto simp: has_prefix_def)
    qed
    with False Cons show ?thesis
      by (auto simp: space_len_def filter_eq_Cons_iff split: list.split)
  qed
qed

lemma skip_spaces_keeps_last:
  assumes "\<forall>w \<in> set wide. c \<notin> set w" "\<not> ascii_space c"
  shows "\<exists>t. skip_spaces wide (s @ [c]) = t @ [c]"
proof (induction s rule: length_induct)
  case (1 s)
  show ?case
  proof (cases "space_len wide (s @ [c]) = 0")
    case True
    then show ?thesis by (simp add: skip_spaces.simps)
  next
    case False
    let ?n = "space_len wide (s @ [c])"
    have "?n \<le> length s" by (rule space_len_le [OF assms])
    then have "skip_spaces wide (s @ [c]) = skip_spaces wide (drop ?n s @ [c])"
      using False by (subst skip_spaces.simps) simp
    moreover have "length (drop ?n s) < length s" using False \<open>?n \<le> length s\<close> by simp
    ultimately show ?thesis using 1 by auto
  qed
qed

lemma wide_spaces_high: "\<forall>w \<in> set wide_spaces. w \<noteq> [] \<and> (\<forall>c \<in> set w. \<not> name_char c \<and> c \<noteq> CHR ''M'')"
  by code_simp

lemma name_char_no_space: "name_char c \<Longrightarrow> \<not> ascii_space c"
  by (auto simp: name_char_def ascii_space_def ascii_upper_def ascii_digit_def)

lemma upper_name_char: "ascii_upper c \<Longrightarrow> name_char c"
  by (simp add: name_char_def)

lemma high_front:
  assumes "name_char c"
  shows "\<forall>w \<in> set wide_spaces. w \<noteq> [] \<and> hd w \<noteq> c" "\<forall>w \<in> set (map rev wide_spaces). w \<noteq> [] \<and> hd w \<noteq> c"
    "\<forall>w \<in> set (map rev wide_spaces). c \<notin> set w"
proof -
  have w: "w \<noteq> []" "c \<notin> set w" if "w \<in> set wide_spaces" for w
    using wide_spaces_high that assms by blast+
  then show "\<forall>w \<in> set (map rev wide_spaces). c \<notin> set w" by simp
  have "hd w \<in> set w" "hd (rev w) \<in> set w" if "w \<in> set wide_spaces" for w
    using w(1) [OF that] by (simp_all add: hd_rev)
  with w show "\<forall>w \<in> set wide_spaces. w \<noteq> [] \<and> hd w \<noteq> c"
    "\<forall>w \<in> set (map rev wide_spaces). w \<noteq> [] \<and> hd w \<noteq> c"
    by force+
qed

lemma trim_space_name:
  assumes "valid_env_name key"
  shows "trim_space key = key"
proof -
  have all: "list_all name_char key" "key \<noteq> []"
    using assms by (cases key; auto simp: valid_env_name_def upper_name_char)+
  then have c: "name_char (hd key)" "name_char (last key)" by (auto simp: list_all_iff)
  have "skip_spaces wide_spaces key = key"
    using skip_spaces_front [OF name_char_no_space [OF c(1)] high_front(1) [OF c(1)], of "tl key"] all(2) by simp
  moreover have "skip_spaces (map rev wide_spaces) (rev key) = rev key"
    using skip_spaces_front [OF name_char_no_space [OF c(2)] high_front(2) [OF c(2)], of "tl (rev key)"] all(2)
    by (metis hd_rev list.collapse rev_is_Nil_conv)
  ultimately show ?thesis by (simp add: trim_space_def)
qed

lemma trim_space_line:
  assumes "name_char c"
  shows "\<exists>t. trim_space (c # s) = c # t"
proof -
  have "skip_spaces wide_spaces (c # s) = c # s"
    by (rule skip_spaces_front [OF name_char_no_space [OF assms] high_front(1) [OF assms]])
  moreover obtain t where "skip_spaces (map rev wide_spaces) (rev s @ [c]) = t @ [c]"
    using skip_spaces_keeps_last [OF high_front(3) [OF assms] name_char_no_space [OF assms]] by blast
  ultimately show ?thesis by (simp add: trim_space_def)
qed

lemma trim_suffix_id: "s = [] \<or> last s \<noteq> c \<Longrightarrow> trim_suffix s [c] = s"
  by (cases s rule: rev_cases) (auto simp: trim_suffix_def has_suffix_def)

lemma good_assignment_key:
  assumes "good_assignment (key, val)"
  obtains t where "key = CHR ''M'' # t" "list_all name_char key" "valid_env_name key" "has_prefix key ''MUX_''"
proof -
  have v: "valid_env_name key" "has_prefix key ''MUX_''" using assms by (simp_all add: good_assignment_def)
  then have "list_all name_char key" by (cases key) (auto simp: valid_env_name_def upper_name_char)
  with v show ?thesis by (intro that [of "tl key"]) (cases key; simp add: has_prefix_def)+
qed

lemma name_char_not: "\<not> name_char (CHR ''='')" "\<not> name_char (CHR 0x0A)"
  by (simp_all add: name_char_def ascii_upper_def ascii_digit_def)

lemma scan_render:
  assumes "list_all good_assignment kvs"
  shows "scan_lines (render_env kvs) = map (\<lambda>(key, val). key @ CHR ''='' # val) kvs"
proof -
  have no_nl: "CHR 0x0A \<notin> set key \<and> CHR 0x0A \<notin> set val" if "good_assignment (key, val)" for key val
  proof -
    have "list_all name_char key" by (rule good_assignment_key [OF that])
    with that show ?thesis using name_char_not(2) by (auto simp: good_assignment_def list_all_iff)
  qed
  have "split_on CHR 0x0A (render_env kvs) = map (\<lambda>(key, val). key @ CHR ''='' # val) kvs @ [[]]"
    using assms
  proof (induction kvs)
    case (Cons kv kvs)
    obtain key val where kv: "kv = (key, val)" by (cases kv)
    with Cons.prems no_nl have "CHR 0x0A \<notin> set (key @ CHR ''='' # val)" by auto
    with split_on_append [OF this, of "render_env kvs"] Cons kv show ?case by (simp add: render_env_def)
  qed (simp add: render_env_def)
  then show ?thesis by (simp add: scan_lines_def)
qed

lemma read_rendered_line:
  assumes "good_assignment (key, val)" "map_of acc key = None"
  shows "read_env_lines n ((key @ CHR ''='' # val) # ls) acc = read_env_lines (Suc n) ls (acc @ [(key, val)])"
proof -
  obtain t where key: "key = CHR ''M'' # t" "list_all name_char key" "valid_env_name key" "has_prefix key ''MUX_''"
    by (rule good_assignment_key [OF assms(1)])
  let ?line = "key @ CHR ''='' # val"
  have "last ?line \<noteq> CHR 0x0D" using assms(1) by (auto simp: good_assignment_def)
  then have line: "env_line ?line = ?line" by (simp add: env_line_def trim_suffix_id)
  have "name_char (CHR ''M'')" by code_simp
  then obtain u where trim: "trim_space ?line = CHR ''M'' # u" using trim_space_line key(1) by (metis append_Cons)
  have "CHR ''='' \<notin> set key" using key(2) name_char_not by (auto simp: list_all_iff)
  then have cut: "cut CHR ''='' ?line = Some (key, val)" by simp
  have len: "\<not> max_env_line \<le> length ?line" using assms(1) by (simp add: good_assignment_def)
  have "key \<notin> fst ` set acc" using assms(2) by (simp add: map_of_eq_None_iff)
  then show ?thesis
    using len key(4) by (simp add: Let_def line trim cut trim_space_name key(3) assms(2) alist_update_new)
      (simp add: has_prefix_def)
qed

lemma read_rendered:
  assumes "list_all good_assignment kvs" "distinct (map fst (acc @ kvs))"
  shows "read_env_lines n (map (\<lambda>(key, val). key @ CHR ''='' # val) kvs) acc = Inr (acc @ kvs)"
  using assms
proof (induction kvs arbitrary: acc n)
  case (Cons kv kvs)
  obtain key val where kv: "kv = (key, val)" by (cases kv)
  with Cons.prems have "map_of acc key = None" by (auto simp: map_of_eq_None_iff)
  with Cons kv show ?case by (simp add: read_rendered_line del: read_env_lines.simps)
qed simp

subsection \<open>Properties\<close>

text \<open>C32. A \<open>.env\<close> file that lists assignments \<open>KEY=value\<close> of distinct \<open>MUX_\<close> variables, one to
  a line, is read back as exactly those assignments: values keep their spaces, quotes and equal
  signs.\<close>
theorem env_file_roundtrip:
  assumes "list_all good_assignment kvs" "distinct (map fst kvs)" "path \<noteq> []"
    "files path = FileData (render_env kvs) False"
  shows "read_env_file files path = Inr kvs"
  using assms(2-4) by (simp add: read_env_file_def scan_render [OF assms(1)] read_rendered [OF assms(1)])

theorem env_file_roundtrip_witness:
  "read_env_file (\<lambda>_. FileData (render_env [(''MUX_A'', '' x=1 ''), (''MUX_B2'', [])]) False) ''e''
    = Inr [(''MUX_A'', '' x=1 ''), (''MUX_B2'', [])]"
proof -
  have good: "list_all good_assignment [(''MUX_A'', '' x=1 ''), (''MUX_B2'', [])]"
    by (simp add: good_assignment_def valid_env_name_def name_char_def ascii_upper_def ascii_digit_def
        has_prefix_def max_env_line_def)
  show ?thesis
    by (rule env_file_roundtrip [OF good]) simp_all
qed

text \<open>A duration in the configuration that is written as a whole number and a unit is read as
  exactly that number of nanoseconds while it fits in 64 bits, and no text is read as a duration
  outside 64 bits.\<close>
theorem config_duration_exact:
  "(\<forall>(u, k) \<in> set duration_units. n * k < 2 ^ 63 \<longrightarrow> unmarshal_duration (Some (itoa n @ u)) = Some (int (n * k)))
   \<and> (\<forall>d. unmarshal_duration node = Some d \<longrightarrow> in_int64 d)"
  by (auto simp: unmarshal_duration_def parse_duration_whole split: option.splits dest: parse_duration_int64)

theorem config_duration_exact_witness: "unmarshal_duration (Some (itoa 15 @ ''s'')) = Some 15000000000"
proof -
  have "(''s'', 1000000000) \<in> set duration_units" by (simp add: duration_units_def)
  then show ?thesis using config_duration_exact [of 15 None] by fastforce
qed

text \<open>C31. When the configuration loads, every setting has the value of its documented \<open>MUX_\<close> variable
  in the process environment if that is set, else the one the \<open>.env\<close> file assigns, else the one of
  the YAML file over the defaults. The upstream list is replaced as a whole exactly when
  \<open>MUX_UPSTREAM_COUNT\<close> is set, and then upstream \<open>i\<close> has the URL, credentials, CA file and flag of its
  own five variables, and only those. No \<open>MUX_\<close> variable is left unrecognised, and the result
  passes \<open>Validate\<close>. A configuration file that does not exist is accepted only when a variable is
  set.\<close>
theorem config_precedence:
  assumes "load_config_with_env yaml files environ henv filename envFile = Inr cfg"
  shows "\<exists>base filevals. read_env_file files envFile = Inr filevals
     \<and> (if filename = [] \<or> files filename = FileMissing then base = default_config
        else \<exists>s. files filename = FileData s False \<and> yaml s default_config = Some base)
     \<and> (filename \<noteq> [] \<longrightarrow> files filename = FileMissing \<longrightarrow> fold add_assignment environ filevals \<noteq> [])
     \<and> (\<forall>(name, field) \<in> set documented_strings. taken Some (effective environ filevals name) (field base) (field cfg))
     \<and> (\<forall>(name, field) \<in> set documented_bools. taken parse_bool (effective environ filevals name) (field base) (field cfg))
     \<and> (\<forall>(name, field) \<in> set documented_ints. taken atoi (effective environ filevals name) (field base) (field cfg))
     \<and> (\<forall>(name, field) \<in> set documented_durations.
          taken parse_duration (effective environ filevals name) (field base) (field cfg))
     \<and> upstreams_taken (effective environ filevals) (cfg_Upstreams base) (cfg_Upstreams cfg)
     \<and> (\<forall>(name, val) \<in> set (fold add_assignment environ filevals).
          documented (effective environ filevals) (length (cfg_Upstreams cfg)) name)
     \<and> validate henv (Some cfg) = None"
proof -
  obtain base missing filevals where
    base: "if filename = [] \<or> files filename = FileMissing then base = default_config
        else \<exists>s. files filename = FileData s False \<and> yaml s default_config = Some base"
      "missing \<longleftrightarrow> filename \<noteq> [] \<and> files filename = FileMissing"
    and filevals: "read_env_file files envFile = Inr filevals"
      "missing \<longrightarrow> fold add_assignment environ filevals \<noteq> []"
    and over: "apply_env_overrides (fold add_assignment environ filevals) base = Inr cfg"
    and valid: "validate henv (Some cfg) = None"
    using assms
    by (auto simp: load_config_with_env_def bind_result_Inr read_env_values_def
        split: if_splits file_result.splits option.splits sum.splits)
  note applied = overrides_applied [OF over, unfolded settings_taken environ_effective, folded documented_settings,
      unfolded list_all_iff]
  show ?thesis
    by (rule exI [of _ base], rule exI [of _ filevals], intro conjI)
      (use base filevals valid applied in simp_all)
qed

definition sample_env :: env_values where
  "sample_env =
     [(''MUX_SERVER_PORT'', ''9000''), (''MUX_PROXY_TIMEOUT'', ''5''), (''MUX_UPSTREAM_COUNT'', ''1''),
      (''MUX_UPSTREAM_1_URL'', ''http://proxy:3128'')]"

definition sample_files :: "string \<Rightarrow> file_result" where
  "sample_files f = (if f = ''.env'' then FileData (render_env sample_env) False else FileMissing)"

definition sample_loaded :: config where
  "sample_loaded = default_config\<lparr>cfg_Server := default_server\<lparr>srv_Port := 9001\<rparr>,
     cfg_Proxy := default_proxy\<lparr>prx_Timeout := 5\<rparr>,
     cfg_Upstreams := [\<lparr> up_URL = ''http://proxy:3128'',
       up_Auth = \<lparr> upauth_Enabled = False, upauth_Username = [], upauth_Password = [] \<rparr>, up_TLSCAFile = [] \<rparr>]\<rparr>"

lemma sample_env_read: "read_env_file sample_files ''.env'' = Inr sample_env"
proof -
  have "list_all good_assignment sample_env" "distinct (map fst sample_env)"
    by (simp_all add: sample_env_def good_assignment_def valid_env_name_def name_char_def ascii_upper_def
        ascii_digit_def has_prefix_def max_env_line_def)
  then show ?thesis by (simp add: read_env_file_def sample_files_def scan_render read_rendered)
qed

lemma sample_load:
  "load_config_with_env (\<lambda>_ _. None) sample_files [''HOME=/'', ''MUX_SERVER_PORT=9001''] sample_host_env
     ''mux.yaml'' ''.env'' = Inr sample_loaded"
proof -
  let ?vals = "fold add_assignment [''HOME=/'', ''MUX_SERVER_PORT=9001''] sample_env"
  have "apply_env_overrides ?vals default_config = Inr sample_loaded" by code_simp
  moreover have "validate sample_host_env (Some sample_loaded) = None" by code_simp
  moreover have "?vals \<noteq> []" by code_simp
  moreover have "sample_files ''mux.yaml'' = FileMissing" by (simp add: sample_files_def)
  ultimately show ?thesis
    by (simp add: load_config_with_env_def bind_result_def read_env_values_def sample_env_read)
qed

theorem config_precedence_witness:
  "\<exists>base filevals. read_env_file sample_files ''.env'' = Inr filevals \<and> base = default_config
   \<and> taken atoi (effective [''HOME=/'', ''MUX_SERVER_PORT=9001''] filevals ''MUX_SERVER_PORT'')
       (srv_Port (cfg_Server base)) (srv_Port (cfg_Server sample_loaded))
   \<and> srv_Port (cfg_Server sample_loaded) = 9001 \<and> prx_Timeout (cfg_Proxy sample_loaded) = 5"
proof -
  have "(''MUX_SERVER_PORT'', \<lambda>c. srv_Port (cfg_Server c)) \<in> set documented_ints" by (simp add: documented_ints_def)
  moreover have "srv_Port (cfg_Server sample_loaded) = 9001" "prx_Timeout (cfg_Proxy sample_loaded) = 5"
    by (simp_all add: sample_loaded_def)
  ultimately show ?thesis
    using config_precedence [OF sample_load] by (force simp: sample_files_def)
qed

end
