(* ===== verification/Balancer.thy ===== *)
theory Balancer
  imports Config
begin

text \<open>
  \<open>internal/balancer/balancer.go\<close>: the upstream selector. \<open>Next\<close>, \<open>MarkFailure\<close> and
  \<open>MarkSuccess\<close> run under the selector's mutex, so each is one step of the state. The clock
  reading \<open>b.now()\<close> is an argument; \<open>b.random.Intn(n)\<close> is a raw draw reduced modulo \<open>n\<close>.

  The interface the request handlers rely on is the locale \<open>upstream_selector\<close>; its
  interpretation on the model is at the end, with the properties of the selector.
\<close>

subsection \<open>State and operations\<close>

record selection =
  sel_Index :: nat
  sel_Upstream :: upstream_config

record balancer =
  bal_upstreams :: "upstream_config list"
  bal_unhealthyUntil :: "time list"
  bal_algorithm :: string
  bal_cooldown :: duration
  bal_current :: nat

definition new_balancer :: "proxy_config \<Rightarrow> upstream_config list \<Rightarrow> balancer" where
  "new_balancer cfg ups =
     \<lparr> bal_upstreams = ups, bal_unhealthyUntil = replicate (length ups) zero_time,
       bal_algorithm = prx_Algorithm cfg, bal_cooldown = prx_FailoverCooldown cfg, bal_current = 0 \<rparr>"

definition eligible :: "balancer \<Rightarrow> time \<Rightarrow> int \<Rightarrow> nat \<Rightarrow> bool" where
  "eligible b now exclude i \<longleftrightarrow>
     int i \<noteq> exclude \<and> \<not> time_before now (bal_unhealthyUntil b ! i)"

definition available_upstreams :: "balancer \<Rightarrow> time \<Rightarrow> int \<Rightarrow> nat list" where
  "available_upstreams b now exclude = filter (eligible b now exclude) [0..<length (bal_upstreams b)]"

definition select_at :: "balancer \<Rightarrow> nat \<Rightarrow> selection" where
  "select_at b i = \<lparr> sel_Index = i, sel_Upstream = bal_upstreams b ! i \<rparr>"

definition rr_candidates :: "balancer \<Rightarrow> nat list" where
  \<comment> \<open>\<open>(b.current + offset) % len(b.upstreams)\<close> for the offsets in order\<close>
  "rr_candidates b =
     (let n = length (bal_upstreams b) in map (\<lambda>offset. (bal_current b + offset) mod n) [0..<n])"

definition next_upstream :: "time \<Rightarrow> nat \<Rightarrow> int \<Rightarrow> balancer \<Rightarrow> balancer \<times> selection option" where
  "next_upstream now draw exclude b =
     (let n = length (bal_upstreams b); available = available_upstreams b now exclude in
      if available = [] then (b, None)
      else if bal_algorithm b = ''random'' then
        (b, Some (select_at b (available ! (draw mod length available))))
      else
        (let index = (case List.find (eligible b now exclude) (rr_candidates b) of
                        Some candidate \<Rightarrow> candidate | None \<Rightarrow> available ! 0)
         in (b\<lparr>bal_current := (index + 1) mod n\<rparr>, Some (select_at b index))))"

definition mark_failure :: "time \<Rightarrow> int \<Rightarrow> balancer \<Rightarrow> balancer" where
  "mark_failure now index b =
     (if 0 \<le> index \<and> index < int (length (bal_upstreams b)) then
        b\<lparr>bal_unhealthyUntil := (bal_unhealthyUntil b)[nat index := time_add now (bal_cooldown b)]\<rparr>
      else b)"

definition mark_success :: "int \<Rightarrow> balancer \<Rightarrow> balancer" where
  "mark_success index b =
     (if 0 \<le> index \<and> index < int (length (bal_upstreams b)) then
        b\<lparr>bal_unhealthyUntil := (bal_unhealthyUntil b)[nat index := zero_time]\<rparr>
      else b)"

definition bal_inv :: "balancer \<Rightarrow> bool" where
  "bal_inv b \<longleftrightarrow> length (bal_unhealthyUntil b) = length (bal_upstreams b)"

definition healthy :: "time \<Rightarrow> balancer \<Rightarrow> nat \<Rightarrow> bool" where
  "healthy now b i \<longleftrightarrow> i < length (bal_upstreams b) \<and> bal_unhealthyUntil b ! i \<le> now"

subsection \<open>The interface of a selector\<close>

datatype sel_op = OpNext time nat int | OpFailure time nat | OpSuccess nat

locale upstream_selector =
  fixes pick :: "time \<Rightarrow> nat \<Rightarrow> int \<Rightarrow> 's \<Rightarrow> 's \<times> selection option"
    and failure :: "time \<Rightarrow> int \<Rightarrow> 's \<Rightarrow> 's"
    and success :: "int \<Rightarrow> 's \<Rightarrow> 's"
    and pool :: "'s \<Rightarrow> upstream_config list"
    and cooldown :: "'s \<Rightarrow> duration"
    and usable :: "time \<Rightarrow> 's \<Rightarrow> nat \<Rightarrow> bool"
    and inv :: "'s \<Rightarrow> bool"
  assumes inv_pick: "inv s \<Longrightarrow> inv (fst (pick t r ex s))"
    and inv_failure: "inv s \<Longrightarrow> inv (failure t k s)"
    and inv_success: "inv s \<Longrightarrow> inv (success k s)"
    and pool_pick: "pool (fst (pick t r ex s)) = pool s"
    and pool_failure: "pool (failure t k s) = pool s"
    and pool_success: "pool (success k s) = pool s"
    and cooldown_pick: "cooldown (fst (pick t r ex s)) = cooldown s"
    and cooldown_failure: "cooldown (failure t k s) = cooldown s"
    and cooldown_success: "cooldown (success k s) = cooldown s"
    and pick_Some: "inv s \<Longrightarrow> snd (pick t r ex s) = Some sel \<Longrightarrow>
        usable t s (sel_Index sel) \<and> int (sel_Index sel) \<noteq> ex \<and> sel_Upstream sel = pool s ! sel_Index sel"
    and pick_None: "inv s \<Longrightarrow>
        snd (pick t r ex s) = None \<longleftrightarrow> (\<forall>i. usable t s i \<longrightarrow> int i = ex)"
    and usable_range: "usable t s i \<Longrightarrow> i < length (pool s)"
    and usable_pick: "usable t' (fst (pick t r ex s)) i \<longleftrightarrow> usable t' s i"
    and usable_failure: "inv s \<Longrightarrow> j < length (pool s) \<Longrightarrow>
        usable t' (failure t (int j) s) i \<longleftrightarrow> (if i = j then t + cooldown s \<le> t' else usable t' s i)"
    and usable_failure_other: "i \<noteq> j \<Longrightarrow> usable t' (failure t (int j) s) i \<longleftrightarrow> usable t' s i"
    and usable_success: "inv s \<Longrightarrow> j < length (pool s) \<Longrightarrow> 0 \<le> t' \<Longrightarrow> usable t' (success (int j) s) j"
    and usable_success_other: "i \<noteq> j \<Longrightarrow> usable t' (success (int j) s) i \<longleftrightarrow> usable t' s i"
begin

primrec step :: "sel_op \<Rightarrow> 's \<Rightarrow> 's" where
  "step (OpNext t r ex) s = fst (pick t r ex s)"
| "step (OpFailure t k) s = failure t (int k) s"
| "step (OpSuccess k) s = success (int k) s"

lemma inv_step: "inv s \<Longrightarrow> inv (step x s)"
  by (cases x) (simp_all add: inv_pick inv_failure inv_success)

lemma pool_step: "pool (step x s) = pool s"
  by (cases x) (simp_all add: pool_pick pool_failure pool_success)

lemma cooldown_step: "cooldown (step x s) = cooldown s"
  by (cases x) (simp_all add: cooldown_pick cooldown_failure cooldown_success)

lemma inv_run: "inv s \<Longrightarrow> inv (fold step xs s)"
  by (induction xs arbitrary: s) (simp_all add: inv_step)

lemma pool_run: "pool (fold step xs s) = pool s"
  by (induction xs arbitrary: s) (simp_all add: pool_step)

text \<open>An upstream that failed stays out until its cooldown is over, whatever else happens to the
  selector, as long as it is not reported successful.\<close>

lemma unusable_run:
  assumes "inv s" "\<not> usable t' s k" "t' < t + cooldown s"
    and "\<forall>x \<in> set xs. x \<noteq> OpSuccess k \<and> (\<forall>u. x = OpFailure u k \<longrightarrow> t \<le> u)"
  shows "\<not> usable t' (fold step xs s) k"
  using assms
proof (induction xs arbitrary: s)
  case (Cons x xs)
  have "\<not> usable t' (step x s) k"
  proof (cases x)
    case (OpNext u r ex)
    with Cons.prems show ?thesis by (simp add: usable_pick)
  next
    case (OpFailure u j)
    show ?thesis
    proof (cases "j = k \<and> k < length (pool s)")
      case True
      with Cons.prems OpFailure show ?thesis by (simp add: usable_failure)
    next
      case False
      with Cons.prems OpFailure show ?thesis
        using usable_failure_other [of k j] usable_range [of t' "failure u (int j) s" k]
        by (auto simp: pool_failure)
    qed
  next
    case (OpSuccess j)
    with Cons.prems show ?thesis by (auto simp: usable_success_other)
  qed
  with Cons.prems show ?case
    by (simp add: Cons.IH inv_step cooldown_step)
qed simp

lemma failure_quarantine:
  assumes "inv s" "k < length (pool s)" "t' < t + cooldown s"
    and "\<forall>x \<in> set xs. x \<noteq> OpSuccess k \<and> (\<forall>u. x = OpFailure u k \<longrightarrow> t \<le> u)"
    and "snd (pick t' r ex (fold step xs (failure t (int k) s))) = Some sel"
  shows "sel_Index sel \<noteq> k"
proof -
  have "\<not> usable t' (fold step xs (failure t (int k) s)) k"
    by (rule unusable_run [where t = t])
       (use assms in \<open>auto simp: inv_failure usable_failure cooldown_failure\<close>)
  moreover have "inv (fold step xs (failure t (int k) s))"
    using assms(1) by (intro inv_run inv_failure)
  ultimately show ?thesis using assms(5) pick_Some by blast
qed

text \<open>It is back once the cooldown is over, unless it is reported as failed again.\<close>

lemma usable_run:
  assumes "inv s" "usable t' s k" "0 \<le> t'" "\<forall>x \<in> set xs. \<forall>u. x \<noteq> OpFailure u k"
  shows "usable t' (fold step xs s) k"
  using assms
proof (induction xs arbitrary: s)
  case (Cons x xs)
  have "usable t' (step x s) k"
  proof (cases x)
    case (OpSuccess j)
    with Cons.prems show ?thesis
      using usable_success [of s k t'] usable_success_other [of k j] usable_range [of t' s k]
      by (cases "j = k") auto
  qed (use Cons.prems in \<open>auto simp: usable_pick usable_failure_other\<close>)
  with Cons.prems show ?case by (simp add: Cons.IH inv_step)
qed simp

lemma failure_recovery:
  assumes "inv s" "k < length (pool s)" "t + cooldown s \<le> t'" "0 \<le> t'"
    and "\<forall>x \<in> set xs. \<forall>u. x \<noteq> OpFailure u k"
  shows "usable t' (fold step xs (failure t (int k) s)) k"
  by (rule usable_run) (use assms in \<open>auto simp: inv_failure usable_failure\<close>)

text \<open>It is back at once when it is reported as working.\<close>

lemma success_recovery:
  assumes "inv s" "k < length (pool s)" "0 \<le> t'" "\<forall>x \<in> set xs. \<forall>u. x \<noteq> OpFailure u k"
  shows "usable t' (fold step xs (success (int k) s)) k"
  by (rule usable_run) (use assms in \<open>auto simp: inv_success usable_success\<close>)

text \<open>The failover step: the alternate taken after a failure is another upstream of the pool.\<close>

lemma alternate_differs:
  assumes "inv s" "snd (pick t r (int k) s) = Some sel"
  shows "sel_Index sel \<noteq> k \<and> sel_Index sel < length (pool s) \<and> sel_Upstream sel = pool s ! sel_Index sel"
  using pick_Some [OF assms] usable_range by auto

end

subsection \<open>The selector implements the interface\<close>

lemma bal_inv_new [simp]: "bal_inv (new_balancer cfg ups)"
  by (simp add: bal_inv_def new_balancer_def)

lemma eligible_iff: "i < length (bal_upstreams b) \<Longrightarrow>
    eligible b now ex i \<longleftrightarrow> healthy now b i \<and> int i \<noteq> ex"
  by (auto simp: eligible_def healthy_def time_before_def)

lemma available_set: "set (available_upstreams b now ex) = {i. healthy now b i \<and> int i \<noteq> ex}"
  by (auto simp: available_upstreams_def eligible_iff healthy_def)

lemma set_rr_candidates: "set (rr_candidates b) \<subseteq> {..<length (bal_upstreams b)}"
  by (auto simp: rr_candidates_def Let_def intro!: mod_less_divisor)

lemma find_SomeD: "List.find P xs = Some x \<Longrightarrow> x \<in> set xs \<and> P x"
  by (auto simp: find_Some_iff)

lemma next_upstream_None:
  "snd (next_upstream now r ex b) = None \<longleftrightarrow> (\<forall>i. healthy now b i \<longrightarrow> int i = ex)"
proof -
  have "snd (next_upstream now r ex b) = None \<longleftrightarrow> available_upstreams b now ex = []"
    by (simp add: next_upstream_def Let_def)
  also have "\<dots> \<longleftrightarrow> {i. healthy now b i \<and> int i \<noteq> ex} = {}"
    using available_set [of b now ex] by (metis set_empty)
  finally show ?thesis by auto
qed

lemma next_upstream_Some:
  assumes "snd (next_upstream now r ex b) = Some sel"
  shows "healthy now b (sel_Index sel) \<and> int (sel_Index sel) \<noteq> ex
         \<and> sel_Upstream sel = bal_upstreams b ! sel_Index sel"
proof -
  let ?av = "available_upstreams b now ex"
  have ne: "?av \<noteq> []" using assms by (auto simp: next_upstream_def Let_def)
  have "sel_Index sel \<in> set ?av \<or>
        (List.find (eligible b now ex) (rr_candidates b) = Some (sel_Index sel))"
    using assms ne by (auto simp: next_upstream_def select_at_def Let_def split: if_splits option.splits
        intro!: nth_mem)
  then have "healthy now b (sel_Index sel) \<and> int (sel_Index sel) \<noteq> ex"
  proof
    assume "sel_Index sel \<in> set ?av"
    then show ?thesis unfolding available_set by simp
  next
    assume "List.find (eligible b now ex) (rr_candidates b) = Some (sel_Index sel)"
    then show ?thesis using set_rr_candidates [of b] by (auto dest!: find_SomeD simp: eligible_iff)
  qed
  moreover have "sel_Upstream sel = bal_upstreams b ! sel_Index sel"
    using assms by (auto simp: next_upstream_def select_at_def Let_def split: if_splits)
  ultimately show ?thesis by simp
qed

lemma next_upstream_frame [simp]:
  "bal_upstreams (fst (next_upstream now r ex b)) = bal_upstreams b"
  "bal_unhealthyUntil (fst (next_upstream now r ex b)) = bal_unhealthyUntil b"
  "bal_cooldown (fst (next_upstream now r ex b)) = bal_cooldown b"
  "bal_algorithm (fst (next_upstream now r ex b)) = bal_algorithm b"
  by (simp_all add: next_upstream_def Let_def)

lemma mark_frame [simp]:
  "bal_upstreams (mark_failure now k b) = bal_upstreams b" "bal_upstreams (mark_success k b) = bal_upstreams b"
  "bal_cooldown (mark_failure now k b) = bal_cooldown b" "bal_cooldown (mark_success k b) = bal_cooldown b"
  "bal_current (mark_failure now k b) = bal_current b" "bal_current (mark_success k b) = bal_current b"
  "bal_algorithm (mark_failure now k b) = bal_algorithm b" "bal_algorithm (mark_success k b) = bal_algorithm b"
  by (simp_all add: mark_failure_def mark_success_def)

interpretation bal: upstream_selector next_upstream mark_failure mark_success
  bal_upstreams bal_cooldown healthy bal_inv
proof unfold_locales
  show "bal_inv s \<Longrightarrow> snd (next_upstream t r ex s) = Some sel \<Longrightarrow>
      healthy t s (sel_Index sel) \<and> int (sel_Index sel) \<noteq> ex \<and> sel_Upstream sel = bal_upstreams s ! sel_Index sel"
    for s t r ex sel by (rule next_upstream_Some)
  show "bal_inv s \<Longrightarrow> (snd (next_upstream t r ex s) = None) = (\<forall>i. healthy t s i \<longrightarrow> int i = ex)"
    for s t r ex by (rule next_upstream_None)
qed (auto simp: bal_inv_def healthy_def mark_failure_def mark_success_def nth_list_update time_add_def)

subsection \<open>Round robin as a queue\<close>

text \<open>
  The contract of round robin: the upstreams form a queue, in the cyclic order that starts at
  \<open>b.current\<close>; a selection takes the first usable upstream of the queue and puts it at its
  end. \<open>rr_queue\<close> is the abstraction function.
\<close>

definition rr_queue :: "time \<Rightarrow> int \<Rightarrow> balancer \<Rightarrow> nat list" where
  "rr_queue now ex b = filter (eligible b now ex) (rr_candidates b)"

lemma rr_candidates_rotate:
  "rr_candidates b = rotate (bal_current b) [0..<length (bal_upstreams b)]"
proof (rule nth_equalityI)
  fix i assume "i < length (rr_candidates b)"
  then have i: "i < length (bal_upstreams b)" by (simp add: rr_candidates_def Let_def)
  then have "(bal_current b + i) mod length (bal_upstreams b) < length (bal_upstreams b)"
    by (intro mod_less_divisor) auto
  with i show "rr_candidates b ! i = rotate (bal_current b) [0..<length (bal_upstreams b)] ! i"
    by (simp add: rr_candidates_def Let_def nth_rotate)
qed (simp add: rr_candidates_def Let_def)

lemma set_rr_queue: "set (rr_queue now ex b) = {i. healthy now b i \<and> int i \<noteq> ex}"
  by (auto simp: rr_queue_def rr_candidates_rotate eligible_iff healthy_def)

lemma distinct_rr_queue: "distinct (rr_queue now ex b)"
  by (simp add: rr_queue_def rr_candidates_rotate)

lemma available_empty_iff: "available_upstreams b now ex = [] \<longleftrightarrow> rr_queue now ex b = []"
  by (metis available_set set_rr_queue set_empty)

lemma find_filter_Cons: "filter P xs = y # ys \<Longrightarrow> List.find P xs = Some y"
  by (induction xs) (auto split: if_splits)

lemma rotate_past:
  assumes "rotate m [0..<n] = pre @ x # post"
  shows "rotate ((x + 1) mod n) [0..<n] = post @ pre @ [x]"
proof -
  have len: "length pre < n"
    using arg_cong [OF assms, of length] by simp
  have bound: "(m + length pre) mod n < n"
    using len by (intro mod_less_divisor) auto
  have "x = rotate m [0..<n] ! length pre" using assms by simp
  also have "\<dots> = (m + length pre) mod n" using len bound by (simp add: nth_rotate)
  finally have "(x + 1) mod n = Suc (m + length pre) mod n"
    by (simp add: mod_Suc_eq)
  then have "rotate ((x + 1) mod n) [0..<n] = rotate (Suc (m + length pre)) [0..<n]"
    using rotate_conv_mod [of "Suc (m + length pre)" "[0..<n]"] by simp
  also have "\<dots> = rotate (Suc (length pre)) (rotate m [0..<n])"
    by (simp add: rotate_rotate add.commute)
  also have "\<dots> = rotate (length (pre @ [x])) ((pre @ [x]) @ post)"
    unfolding assms by simp
  also have "\<dots> = post @ pre @ [x]"
    unfolding rotate_append by simp
  finally show ?thesis .
qed

lemma next_upstream_rr:
  assumes "bal_algorithm b \<noteq> ''random''" "rr_queue now ex b = i # q"
  shows "next_upstream now r ex b =
     (b\<lparr>bal_current := (i + 1) mod length (bal_upstreams b)\<rparr>, Some (select_at b i))"
  using assms available_empty_iff [of b now ex]
  by (simp add: next_upstream_def Let_def rr_queue_def find_filter_Cons)

lemma next_upstream_rr_queue:
  assumes "bal_algorithm b \<noteq> ''random''" "rr_queue now ex b = i # q"
  shows "rr_queue now ex (fst (next_upstream now r ex b)) = q @ [i]"
proof -
  let ?n = "length (bal_upstreams b)" and ?P = "eligible b now ex"
  obtain pre post where split: "rr_candidates b = pre @ i # post" "\<forall>u \<in> set pre. \<not> ?P u" "?P i"
    and q: "q = filter ?P post"
    using assms(2) unfolding rr_queue_def filter_eq_Cons_iff by auto
  have "rr_candidates (fst (next_upstream now r ex b)) = post @ pre @ [i]"
    using rotate_past [OF split(1) [unfolded rr_candidates_rotate]]
    by (simp add: next_upstream_rr [OF assms] rr_candidates_rotate)
  moreover have "eligible (fst (next_upstream now r ex b)) now ex = ?P"
    by (rule ext) (simp add: eligible_def)
  ultimately show ?thesis
    using split q by (simp add: rr_queue_def)
qed

fun serve :: "(time \<times> nat) list \<Rightarrow> balancer \<Rightarrow> nat option list" where
  \<comment> \<open>the indices a sequence of first attempts (\<open>exclude == -1\<close>) gets\<close>
  "serve [] b = []"
| "serve ((now, r) # ts) b =
     (let (b', sel) = next_upstream now r (-1) b in map_option sel_Index sel # serve ts b')"

lemma rr_queue_cong:
  assumes "\<forall>i. healthy t b i \<longleftrightarrow> healthy u b i"
  shows "rr_queue t ex b = rr_queue u ex b"
  unfolding rr_queue_def
  by (rule filter_cong) (use assms in \<open>auto simp: rr_candidates_rotate eligible_iff healthy_def\<close>)

lemma healthy_next [simp]: "healthy u (fst (next_upstream t r ex b)) i \<longleftrightarrow> healthy u b i"
  by (simp add: healthy_def)

lemma serve_queue:
  assumes "bal_algorithm b \<noteq> ''random''" "rr_queue u (-1) b = q" "q \<noteq> []"
    and "\<forall>(t, r) \<in> set ts. \<forall>i. healthy t b i \<longleftrightarrow> healthy u b i"
  shows "serve ts b = map (\<lambda>k. Some (q ! (k mod length q))) [0..<length ts]"
  using assms
proof (induction ts arbitrary: b q)
  case (Cons tr ts)
  obtain t r where tr: "tr = (t, r)" by (cases tr)
  obtain i q' where q: "q = i # q'" using Cons.prems(3) by (cases q) auto
  have rq: "rr_queue t (-1) b = i # q'"
    using Cons.prems q tr rr_queue_cong [of t b u] by auto
  let ?b = "fst (next_upstream t r (-1) b)"
  have "serve ts ?b = map (\<lambda>k. Some ((q' @ [i]) ! (k mod length (q' @ [i])))) [0..<length ts]"
  proof (rule Cons.IH)
    show "rr_queue u (-1) ?b = q' @ [i]"
      using next_upstream_rr_queue [OF Cons.prems(1) rq, of r] rr_queue_cong [of t ?b u "-1"] Cons.prems(4) tr
      by simp
  qed (use Cons.prems in \<open>auto simp: healthy_def\<close>)
  moreover have "(q' @ [i]) ! (k mod length (q' @ [i])) = q ! (Suc k mod length q)" for k
    using nth_rotate [of "k mod length q" q 1] q by (simp add: mod_Suc_eq)
  ultimately show ?case
    using next_upstream_rr [OF Cons.prems(1) rq] tr q
    by (simp add: select_at_def map_upt_Suc case_prod_beta del: upt_Suc)
qed simp

subsection \<open>Properties\<close>

primrec bal_step :: "sel_op \<Rightarrow> balancer \<Rightarrow> balancer" where
  "bal_step (OpNext now r ex) b = fst (next_upstream now r ex b)"
| "bal_step (OpFailure now k) b = mark_failure now (int k) b"
| "bal_step (OpSuccess k) b = mark_success (int k) b"

lemma bal_step_eq: "bal.step = bal_step"
proof (intro ext)
  fix x b show "bal.step x b = bal_step x b" by (cases x) simp_all
qed

definition three_upstreams :: "upstream_config list" where
  "three_upstreams = map (\<lambda>u. \<lparr> up_URL = u, up_Auth = \<lparr> upauth_Enabled = False, upauth_Username = [], upauth_Password = [] \<rparr>,
                              up_TLSCAFile = [] \<rparr>) [''http://a:80'', ''http://b:80'', ''http://c:80'']"

definition sample_balancer :: balancer where
  "sample_balancer = new_balancer default_proxy three_upstreams"

lemma sample_balancer_simps [simp]:
  "bal_upstreams sample_balancer = three_upstreams" "bal_unhealthyUntil sample_balancer = [0, 0, 0]"
  "bal_algorithm sample_balancer = ''roundrobin''" "bal_cooldown sample_balancer = 30 * second"
  "bal_current sample_balancer = 0" "bal_inv sample_balancer" "length three_upstreams = 3"
  by (simp_all add: sample_balancer_def new_balancer_def three_upstreams_def default_proxy_def bal_inv_def
      eval_nat_numeral)

text \<open>C9. \<open>Next\<close> never returns an excluded or cooling-down upstream: a selection is an index of
  the configured list, differs from the excluded one, is past its cooldown, and carries the
  configuration of that index. Both algorithms, every state the selector can be in.\<close>

theorem next_upstream_sound:
  assumes "bal_inv b" "snd (next_upstream now r ex b) = Some sel"
  shows "sel_Index sel < length (bal_upstreams b) \<and> int (sel_Index sel) \<noteq> ex
    \<and> bal_unhealthyUntil b ! sel_Index sel \<le> now
    \<and> sel_Upstream sel = bal_upstreams b ! sel_Index sel"
  using bal.pick_Some [OF assms] by (simp add: healthy_def)

theorem next_upstream_sound_witness:
  "\<exists>sel. snd (next_upstream 7 0 1 sample_balancer) = Some sel \<and> sel_Index sel < 3 \<and> int (sel_Index sel) \<noteq> 1"
proof -
  have ne: "snd (next_upstream 7 0 1 sample_balancer) \<noteq> None"
    by (simp add: next_upstream_None healthy_def exI [of _ 0])
  then obtain sel where sel: "snd (next_upstream 7 0 1 sample_balancer) = Some sel" by auto
  show ?thesis
    using next_upstream_sound [OF _ sel] sel by simp
qed

text \<open>\<open>Next\<close> gives up exactly when every upstream is excluded or cooling down, and then the
  selector is unchanged.\<close>

theorem next_upstream_complete:
  "next_upstream now r ex b = (b, None) \<longleftrightarrow>
     {i. i < length (bal_upstreams b) \<and> bal_unhealthyUntil b ! i \<le> now \<and> int i \<noteq> ex} = {}"
proof -
  have "snd (next_upstream now r ex b) = None \<longleftrightarrow> next_upstream now r ex b = (b, None)"
    by (auto simp: next_upstream_def Let_def)
  then show ?thesis using next_upstream_None [of now r ex b] by (auto simp: healthy_def)
qed

text \<open>C10. A failed upstream is quarantined: after \<open>MarkFailure(k)\<close> at time \<open>t\<close>, no \<open>Next\<close> before
  \<open>t + cooldown\<close> returns \<open>k\<close>, whatever selections, failures and successes of other upstreams come
  in between, and further failures of \<open>k\<close> itself.\<close>

theorem failed_upstream_quarantined:
  assumes "bal_inv b" "k < length (bal_upstreams b)" "t' < t + bal_cooldown b"
    and "\<forall>x \<in> set xs. x \<noteq> OpSuccess k \<and> (\<forall>u. x = OpFailure u k \<longrightarrow> t \<le> u)"
    and "snd (next_upstream t' r ex (fold bal_step xs (mark_failure t (int k) b))) = Some sel"
  shows "sel_Index sel \<noteq> k"
  using bal.failure_quarantine [OF assms(1-4)] assms(5) by (simp add: bal_step_eq)

theorem failed_upstream_quarantined_witness:
  "\<exists>sel. snd (next_upstream 9 0 (-1) (fold bal_step [OpNext 5 0 (-1)] (mark_failure 3 (int 1) sample_balancer))) = Some sel
     \<and> sel_Index sel \<noteq> 1"
proof -
  let ?b = "fold bal_step [OpNext 5 0 (-1)] (mark_failure 3 (int 1) sample_balancer)"
  have "healthy 9 ?b 0" by (simp add: healthy_def mark_failure_def)
  then have "snd (next_upstream 9 0 (-1) ?b) \<noteq> None" by (auto simp: next_upstream_None)
  then obtain sel where "snd (next_upstream 9 0 (-1) ?b) = Some sel" by blast
  moreover from this have "sel_Index sel \<noteq> 1"
    by (rule failed_upstream_quarantined [rotated 4]) simp_all
  ultimately show ?thesis by blast
qed

text \<open>C39. Recovery: \<open>k\<close> has failed and, whatever else has happened, has not failed again since. Once
  the cooldown of the failure is over, \<open>k\<close> is in the round-robin queue again and \<open>Next\<close> succeeds
  unless it excludes \<open>k\<close>; after \<open>MarkSuccess\<close> the same holds at once, at any time.\<close>

theorem failed_upstream_recovers:
  fixes t t' :: time and b :: balancer and k r :: nat and xs ys :: "sel_op list"
  assumes "bal_inv b" "k < length (bal_upstreams b)" "0 \<le> t'"
    and "\<forall>x \<in> set xs. \<forall>u. x \<noteq> OpFailure u k" and "ex \<noteq> int k"
  defines "failed \<equiv> mark_failure t (int k) b"
  shows "(t + bal_cooldown b \<le> t' \<longrightarrow>
       k \<in> set (rr_queue t' ex (fold bal_step xs failed)) \<and> snd (next_upstream t' r ex (fold bal_step xs failed)) \<noteq> None)
    \<and> (let working = mark_success (int k) (fold bal_step ys failed) in
       k \<in> set (rr_queue t' ex (fold bal_step xs working)) \<and> snd (next_upstream t' r ex (fold bal_step xs working)) \<noteq> None)"
proof -
  have served: "k \<in> set (rr_queue t' ex c) \<and> snd (next_upstream t' r ex c) \<noteq> None" if "healthy t' c k" for c
    using that assms(5) by (auto simp: set_rr_queue next_upstream_None)
  have failed: "bal_inv (fold bal.step ys failed)" "bal_upstreams (fold bal.step ys failed) = bal_upstreams b"
    using bal.inv_run [OF bal.inv_failure [OF assms(1)]] by (simp_all add: failed_def bal.pool_run)
  show ?thesis
    using bal.failure_recovery [OF assms(1,2) _ assms(3,4), of t] bal.success_recovery [OF failed(1) _ assms(3,4)]
      assms(2) failed(2) served
    by (simp add: bal_step_eq failed_def Let_def)
qed

theorem failed_upstream_recovers_witness:
  "snd (next_upstream (40 * second) 0 0 (fold bal_step [OpNext 5 0 (-1), OpFailure 6 2] (mark_failure 3 (int 1) sample_balancer))) \<noteq> None
   \<and> snd (next_upstream 7 0 0 (fold bal_step [OpNext 5 0 (-1)]
        (mark_success (int 1) (fold bal_step [OpFailure 4 0] (mark_failure 3 (int 1) sample_balancer))))) \<noteq> None"
  using failed_upstream_recovers [of sample_balancer 1 "40 * second" "[OpNext 5 0 (-1), OpFailure 6 2]" 0 3 0 "[]"]
    failed_upstream_recovers [of sample_balancer 1 7 "[OpNext 5 0 (-1)]" 0 3 0 "[OpFailure 4 0]"]
  by (simp add: Let_def)

text \<open>C40. Round robin is a fair queue: while the set of healthy upstreams does not change, the
  \<open>k\<close>-th selection is element \<open>k\<close> modulo the number of healthy upstreams of one fixed
  enumeration of them, so each of them is served once in every round.\<close>

theorem round_robin_fair:
  assumes "bal_algorithm b \<noteq> ''random''" "{i. healthy u b i} \<noteq> {}"
    and "\<forall>(t, r) \<in> set ts. \<forall>i. healthy t b i \<longleftrightarrow> healthy u b i"
  shows "\<exists>q. distinct q \<and> set q = {i. healthy u b i}
    \<and> serve ts b = map (\<lambda>k. Some (q ! (k mod length q))) [0..<length ts]"
proof (intro exI conjI)
  have q: "set (rr_queue u (-1) b) = {i. healthy u b i}" by (simp add: set_rr_queue)
  show "serve ts b = map (\<lambda>k. Some (rr_queue u (-1) b ! (k mod length (rr_queue u (-1) b)))) [0..<length ts]"
    by (rule serve_queue [OF assms(1) refl _ assms(3)]) (use q assms(2) in \<open>metis set_empty\<close>)
qed (simp_all add: distinct_rr_queue set_rr_queue)

theorem round_robin_fair_witness:
  "\<exists>q. distinct q \<and> set q = {0, 1, 2}
    \<and> serve [(1, 0), (2, 0), (3, 0), (4, 0)] sample_balancer = map (\<lambda>k. Some (q ! (k mod length q))) [0..<4]"
proof -
  have h: "healthy t sample_balancer i \<longleftrightarrow> i \<in> {0, 1, 2}" if "0 \<le> t" for t i
    using that by (auto simp: healthy_def nth_Cons' numeral_3_eq_3)
  then have set: "{i. healthy 1 sample_balancer i} = {0, 1, 2}" by auto
  have len: "length [(1::int, 0::nat), (2, 0), (3, 0), (4, 0)] = 4" by simp
  show ?thesis
    by (rule round_robin_fair [of sample_balancer 1 "[(1, 0), (2, 0), (3, 0), (4, 0)]", unfolded set len])
       (auto simp: h)
qed

end
