(* ===== verification/Limits.thy ===== *)
theory Limits
  imports GoNet "HOL-Library.Multiset"
begin

text \<open>
  \<open>internal/proxy/limits.go\<close>: the counting limiter for connections and tunnels, and the
  listener that applies it. A successful \<open>tryAcquire\<close> returns a closure that releases the
  slot at most once (\<open>sync.Once\<close>); the closures made so far are the list \<open>lim_handles\<close>, each
  with the key it captured and whether its \<open>Once\<close> has fired, and a closure is named by its
  position. Acquire and release run under the mutex, so each is one step.

  The contract the clients (the listener and the CONNECT handler) use is the locale
  \<open>slot_limiter\<close>, over the multiset of keys that hold a slot.
\<close>

subsection \<open>State and operations\<close>

record limiter =
  lim_maxTotal :: int
  lim_maxPerKey :: int
  lim_total :: int
  lim_perKey :: "string \<rightharpoonup> int"
  lim_handles :: "(string \<times> bool) list"

definition new_limiter :: "int \<Rightarrow> int \<Rightarrow> limiter" where
  "new_limiter maxTotal maxPerKey =
     \<lparr> lim_maxTotal = maxTotal, lim_maxPerKey = maxPerKey, lim_total = 0,
       lim_perKey = Map.empty, lim_handles = [] \<rparr>"

definition slot_key :: "string \<Rightarrow> string" where
  "slot_key key = (if key = [] then ''unknown'' else key)"

definition per_key :: "limiter \<Rightarrow> string \<Rightarrow> int" where
  \<comment> \<open>\<open>l.perKey[key]\<close>: 0 for a missing key\<close>
  "per_key l key = (case lim_perKey l key of None \<Rightarrow> 0 | Some n \<Rightarrow> n)"

definition try_acquire :: "string \<Rightarrow> limiter \<Rightarrow> limiter \<times> nat option" where
  "try_acquire key0 l =
     (let key = slot_key key0 in
      if lim_total l \<ge> lim_maxTotal l \<or> per_key l key \<ge> lim_maxPerKey l then (l, None)
      else
        (l\<lparr> lim_total := lim_total l + 1,
            lim_perKey := (lim_perKey l)(key \<mapsto> per_key l key + 1),
            lim_handles := lim_handles l @ [(key, False)] \<rparr>,
         Some (length (lim_handles l))))"

definition release_slot :: "nat \<Rightarrow> limiter \<Rightarrow> limiter" where
  "release_slot h l =
     (if h < length (lim_handles l) \<and> \<not> snd (lim_handles l ! h) then
        (let key = fst (lim_handles l ! h); n = per_key l key - 1 in
         l\<lparr> lim_total := lim_total l - 1,
            lim_perKey := (if n = 0 then (lim_perKey l)(key := None) else (lim_perKey l)(key \<mapsto> n)),
            lim_handles := (lim_handles l)[h := (key, True)] \<rparr>)
      else l)"

subsection \<open>The contract\<close>

datatype slot_op = Acquire string | Release nat

locale slot_limiter =
  fixes acquire :: "string \<Rightarrow> 's \<Rightarrow> 's \<times> nat option"
    and release :: "nat \<Rightarrow> 's \<Rightarrow> 's"
    and held :: "'s \<Rightarrow> string multiset"
    and owner :: "'s \<Rightarrow> nat \<Rightarrow> string option"
    and limit :: "'s \<Rightarrow> int"
    and key_limit :: "'s \<Rightarrow> int"
    and inv :: "'s \<Rightarrow> bool"
  assumes inv_acquire: "inv s \<Longrightarrow> inv (fst (acquire k s))"
    and inv_release: "inv s \<Longrightarrow> inv (release h s)"
    and limit_acquire: "limit (fst (acquire k s)) = limit s" "key_limit (fst (acquire k s)) = key_limit s"
    and limit_release: "limit (release h s) = limit s" "key_limit (release h s) = key_limit s"
    and acquire_None: "inv s \<Longrightarrow> snd (acquire k s) = None \<longleftrightarrow>
        limit s \<le> int (size (held s)) \<or> key_limit s \<le> int (count (held s) (slot_key k))"
    and acquire_refused: "snd (acquire k s) = None \<Longrightarrow> fst (acquire k s) = s"
    and acquire_Some: "inv s \<Longrightarrow> acquire k s = (s', Some h) \<Longrightarrow>
        held s' = add_mset (slot_key k) (held s) \<and> owner s h = None
        \<and> owner s' = (owner s)(h \<mapsto> slot_key k)"
    and release_owned: "inv s \<Longrightarrow> owner s h = Some k \<Longrightarrow>
        held s = add_mset k (held (release h s)) \<and> owner (release h s) = (owner s)(h := None)"
    and release_free: "owner s h = None \<Longrightarrow> release h s = s"
begin

primrec step :: "slot_op \<Rightarrow> 's \<Rightarrow> 's" where
  "step (Acquire k) s = fst (acquire k s)"
| "step (Release h) s = release h s"

lemma inv_step: "inv s \<Longrightarrow> inv (step x s)"
  by (cases x) (simp_all add: inv_acquire inv_release)

lemma limit_step: "limit (step x s) = limit s" "key_limit (step x s) = key_limit s"
  by (cases x; simp add: limit_acquire limit_release)+

lemma inv_run: "inv s \<Longrightarrow> inv (fold step xs s)"
  by (induction xs arbitrary: s) (simp_all add: inv_step)

lemma limit_run: "limit (fold step xs s) = limit s" "key_limit (fold step xs s) = key_limit s"
  by (induction xs arbitrary: s) (simp_all add: limit_step)

text \<open>No step takes the held slots over a limit.\<close>

definition within :: "'s \<Rightarrow> bool" where
  "within s \<longleftrightarrow> int (size (held s)) \<le> limit s \<and> (\<forall>k. int (count (held s) k) \<le> key_limit s)"

lemma within_step:
  assumes "inv s" "within s"
  shows "within (step x s)"
proof (cases x)
  case (Acquire k)
  show ?thesis
  proof (cases "acquire k s")
    case (Pair s' ho)
    then show ?thesis
    proof (cases ho)
      case None
      with Pair Acquire assms show ?thesis using acquire_refused [of k s] by simp
    next
      case (Some h)
      then have "held s' = add_mset (slot_key k) (held s)"
        using acquire_Some [OF assms(1)] Pair by simp
      with Pair Some Acquire assms show ?thesis
        using acquire_None [OF assms(1), of k] limit_acquire [of k s]
        by (auto simp: within_def)
    qed
  qed
next
  case (Release h)
  show ?thesis
  proof (cases "owner s h")
    case None
    with Release assms show ?thesis by (simp add: release_free)
  next
    case (Some k)
    have eq: "held s = add_mset k (held (release h s))"
      using release_owned [OF assms(1) Some] by simp
    have "size (held (release h s)) \<le> size (held s)"
      and "\<And>j. count (held (release h s)) j \<le> count (held s) j"
      by (simp_all add: eq)
    with assms(2) show ?thesis
      unfolding within_def Release step.simps limit_release by (meson of_nat_mono order_trans)
  qed
qed

lemma within_run: "inv s \<Longrightarrow> within s \<Longrightarrow> within (fold step xs s)"
  by (induction xs arbitrary: s) (simp_all add: inv_step within_step)

text \<open>A slot stays with its owner until its own handle is released; then it is given back, once.\<close>

lemma owner_step: "inv s \<Longrightarrow> owner s h = Some k \<Longrightarrow> x \<noteq> Release h \<Longrightarrow> owner (step x s) h = Some k"
proof (cases x)
  case (Acquire j)
  assume s: "inv s" "owner s h = Some k"
  show ?thesis
  proof (cases "acquire j s")
    case (Pair s' ho)
    with s Acquire show ?thesis
      using acquire_refused [of j s] acquire_Some [of s j s'] by (cases ho) auto
  qed
next
  case (Release g)
  assume "inv s" "owner s h = Some k" "x \<noteq> Release h"
  with Release show ?thesis
    using release_owned [of s g] by (cases "owner s g") (auto simp: release_free)
qed

lemma owner_run:
  "inv s \<Longrightarrow> owner s h = Some k \<Longrightarrow> Release h \<notin> set xs \<Longrightarrow> owner (fold step xs s) h = Some k"
  by (induction xs arbitrary: s) (auto simp: inv_step owner_step)

lemma release_twice: "inv s \<Longrightarrow> release h (release h s) = release h s"
  using release_owned [of s h] by (cases "owner s h") (auto simp: release_free)

lemma acquire_release:
  assumes "inv s" "acquire k s = (s', Some h)"
  shows "held (release h s') = held s"
proof -
  have "inv s'" using inv_acquire [OF assms(1), of k] assms(2) by simp
  then show ?thesis
    using acquire_Some [OF assms] release_owned [of s' h "slot_key k"] by simp
qed

lemma handle_gives_back:
  assumes "inv s" "acquire k s = (s', Some h)" "Release h \<notin> set xs"
  shows "held (fold step xs s') = add_mset (slot_key k) (held (release h (fold step xs s')))"
proof -
  have s': "inv s'" using inv_acquire [OF assms(1), of k] assms(2) by simp
  have "owner (fold step xs s') h = Some (slot_key k)"
    by (rule owner_run [OF s' _ assms(3)]) (use acquire_Some [OF assms(1,2)] in simp)
  with s' show ?thesis using release_owned [OF inv_run] by blast
qed

end

subsection \<open>The limiter implements the contract\<close>

definition live_keys :: "(string \<times> bool) list \<Rightarrow> string multiset" where
  "live_keys hs = image_mset fst (filter_mset (\<lambda>h. \<not> snd h) (mset hs))"

definition held_keys :: "limiter \<Rightarrow> string multiset" where
  "held_keys l = live_keys (lim_handles l)"

definition slot_owner :: "limiter \<Rightarrow> nat \<Rightarrow> string option" where
  "slot_owner l h =
     (if h < length (lim_handles l) \<and> \<not> snd (lim_handles l ! h) then Some (fst (lim_handles l ! h)) else None)"

definition lim_inv :: "limiter \<Rightarrow> bool" where
  "lim_inv l \<longleftrightarrow> lim_total l = int (size (held_keys l))
     \<and> (\<forall>k. lim_perKey l k = (if k \<in># held_keys l then Some (int (count (held_keys l) k)) else None))"

lemma live_keys_append [simp]: "live_keys (hs @ [(k, False)]) = add_mset k (live_keys hs)"
  by (simp add: live_keys_def)

lemma live_keys_fire:
  assumes "h < length hs" "\<not> snd (hs ! h)"
  shows "live_keys hs = add_mset (fst (hs ! h)) (live_keys (hs[h := (k, True)]))"
proof -
  have "mset hs = add_mset (hs ! h) (mset hs - {#hs ! h#})"
    using assms(1) by simp
  then have "live_keys hs = image_mset fst (filter_mset (\<lambda>h. \<not> snd h) (add_mset (hs ! h) (mset hs - {#hs ! h#})))"
    by (simp add: live_keys_def)
  also have "\<dots> = add_mset (fst (hs ! h)) (image_mset fst (filter_mset (\<lambda>h. \<not> snd h) (mset hs - {#hs ! h#})))"
    using assms(2) by simp
  also have "image_mset fst (filter_mset (\<lambda>h. \<not> snd h) (mset hs - {#hs ! h#})) = live_keys (hs[h := (k, True)])"
    using assms(1) by (simp add: live_keys_def mset_update)
  finally show ?thesis .
qed

lemma lim_inv_new [simp]: "lim_inv (new_limiter a b)"
  by (simp add: lim_inv_def new_limiter_def held_keys_def live_keys_def)

lemma per_key_count: "lim_inv l \<Longrightarrow> per_key l k = int (count (held_keys l) k)"
  by (auto simp: lim_inv_def per_key_def not_in_iff)

lemma held_acquire:
  assumes "try_acquire k l = (l', Some h)"
  shows "held_keys l' = add_mset (slot_key k) (held_keys l)" "h = length (lim_handles l)"
    "slot_owner l' = (slot_owner l)(h \<mapsto> slot_key k)" "slot_owner l h = None"
  using assms
  by (auto simp: try_acquire_def held_keys_def slot_owner_def Let_def nth_append fun_eq_iff split: if_splits)

lemma lim_inv_acquire [inv_intros]: "lim_inv l \<Longrightarrow> lim_inv (fst (try_acquire k l))"
proof (cases "try_acquire k l")
  case (Pair l' ho)
  assume inv: "lim_inv l"
  show ?thesis
  proof (cases ho)
    case None
    with Pair inv show ?thesis by (auto simp: try_acquire_def Let_def split: if_splits)
  next
    case (Some h)
    note held = held_acquire(1) [OF Pair [unfolded Some]]
    from Pair Some have
      "lim_total l' = lim_total l + 1" "lim_perKey l' = (lim_perKey l)(slot_key k \<mapsto> per_key l (slot_key k) + 1)"
      by (auto simp: try_acquire_def Let_def split: if_splits)
    with inv held Pair show ?thesis
      using per_key_count [OF inv] by (auto simp: lim_inv_def)
  qed
qed

lemma held_release:
  assumes "slot_owner l h = Some k"
  shows "held_keys l = add_mset k (held_keys (release_slot h l))"
    "slot_owner (release_slot h l) = (slot_owner l)(h := None)"
  using assms live_keys_fire [of h "lim_handles l"]
  by (auto simp: slot_owner_def release_slot_def held_keys_def Let_def fun_eq_iff nth_list_update split: if_splits)

lemma release_slot_free: "slot_owner l h = None \<Longrightarrow> release_slot h l = l"
  by (auto simp: slot_owner_def release_slot_def split: if_splits)

lemma lim_inv_release [inv_intros]: "lim_inv l \<Longrightarrow> lim_inv (release_slot h l)"
proof (cases "slot_owner l h")
  case (Some k)
  assume inv: "lim_inv l"
  have held: "held_keys l = add_mset k (held_keys (release_slot h l))"
    by (rule held_release(1) [OF Some])
  have "lim_total (release_slot h l) = lim_total l - 1"
    "lim_perKey (release_slot h l) =
       (if per_key l k - 1 = 0 then (lim_perKey l)(k := None) else (lim_perKey l)(k \<mapsto> per_key l k - 1))"
    using Some by (auto simp: slot_owner_def release_slot_def Let_def split: if_splits)
  with inv per_key_count [OF inv, of k] show ?thesis
    unfolding lim_inv_def held by (auto simp: not_in_iff)
qed (simp add: release_slot_free)

lemma limits_frame [simp]:
  "lim_maxTotal (fst (try_acquire k l)) = lim_maxTotal l" "lim_maxPerKey (fst (try_acquire k l)) = lim_maxPerKey l"
  "lim_maxTotal (release_slot h l) = lim_maxTotal l" "lim_maxPerKey (release_slot h l) = lim_maxPerKey l"
  by (simp_all add: try_acquire_def release_slot_def Let_def)

lemma try_acquire_refused: "snd (try_acquire k l) = None \<Longrightarrow> fst (try_acquire k l) = l"
  by (auto simp: try_acquire_def Let_def split: if_splits)

interpretation lim: slot_limiter try_acquire release_slot held_keys slot_owner lim_maxTotal lim_maxPerKey lim_inv
proof unfold_locales
  show "lim_inv s \<Longrightarrow> snd (try_acquire k s) = None \<longleftrightarrow>
      lim_maxTotal s \<le> int (size (held_keys s)) \<or> lim_maxPerKey s \<le> int (count (held_keys s) (slot_key k))" for s k
    using per_key_count [of s] by (auto simp: try_acquire_def Let_def lim_inv_def)
  show "lim_inv s \<Longrightarrow> try_acquire k s = (s', Some h) \<Longrightarrow>
      held_keys s' = add_mset (slot_key k) (held_keys s) \<and> slot_owner s h = None
      \<and> slot_owner s' = (slot_owner s)(h \<mapsto> slot_key k)" for s k s' h
    using held_acquire by blast
  show "lim_inv s \<Longrightarrow> slot_owner s h = Some k \<Longrightarrow>
      held_keys s = add_mset k (held_keys (release_slot h s))
      \<and> slot_owner (release_slot h s) = (slot_owner s)(h := None)" for s h k
    using held_release by blast
qed (simp_all add: lim_inv_acquire lim_inv_release release_slot_free try_acquire_refused)

subsection \<open>The limited listener\<close>

definition address_host :: "string \<Rightarrow> string" where
  "address_host address = (case split_host_port address of Inr (host, _) \<Rightarrow> host | Inl _ \<Rightarrow> address)"

text \<open>
  \<open>Accept\<close> takes the results of the inner listener in order: a connection, named by its remote
  address, or an error. The result lists the connections it closed. With no result left the
  call has not returned: it is blocked in the inner \<open>Accept\<close>.
\<close>

datatype inner_accept = Incoming string | InnerError
datatype accept_result = Accepted string nat | AcceptError | AcceptBlocked

fun limited_accept :: "inner_accept list \<Rightarrow> limiter \<Rightarrow>
    limiter \<times> inner_accept list \<times> string list \<times> accept_result" where
  "limited_accept [] l = (l, [], [], AcceptBlocked)"
| "limited_accept (InnerError # q) l = (l, q, [], AcceptError)"
| "limited_accept (Incoming addr # q) l =
     (case try_acquire (address_host addr) l of
        (l', Some release) \<Rightarrow> (l', q, [], Accepted addr release)
      | (l', None) \<Rightarrow>
          (let (l2, q2, closed, res) = limited_accept q l' in (l2, q2, addr # closed, res)))"

record limited_connection =
  lc_release :: nat
  lc_once :: bool

definition close_limited :: "limited_connection \<Rightarrow> limiter \<Rightarrow> limited_connection \<times> limiter" where
  \<comment> \<open>\<open>limitedConnection.Close\<close>, the inner \<open>Close\<close> apart\<close>
  "close_limited c l =
     (if lc_once c then (c, l) else (c\<lparr>lc_once := True\<rparr>, release_slot (lc_release c) l))"

definition slot_free :: "limiter \<Rightarrow> string \<Rightarrow> bool" where
  "slot_free l addr \<longleftrightarrow> snd (try_acquire (address_host addr) l) \<noteq> None"

lemma limited_accept_split:
  assumes "limited_accept q l = (l', rest, closed, res)"
  shows "(\<forall>a \<in> set closed. \<not> slot_free l a) \<and>
    (case res of
       Accepted addr h \<Rightarrow> q = map Incoming closed @ Incoming addr # rest \<and> try_acquire (address_host addr) l = (l', Some h)
     | AcceptError \<Rightarrow> q = map Incoming closed @ InnerError # rest \<and> l' = l
     | AcceptBlocked \<Rightarrow> q = map Incoming closed \<and> rest = [] \<and> l' = l)"
  using assms
proof (induction q l arbitrary: l' rest closed res rule: limited_accept.induct)
  case (3 addr q l)
  show ?case
  proof (cases "try_acquire (address_host addr) l")
    case (Pair l1 ho)
    show ?thesis
    proof (cases ho)
      case None
      then have l1: "l1 = l" using try_acquire_refused [of "address_host addr" l] Pair by simp
      obtain closed' where rec: "limited_accept q l = (l', rest, closed', res)" "closed = addr # closed'"
        using "3.prems" Pair None l1 by (auto split: prod.splits)
      show ?thesis
        using "3.IH" [OF Pair [symmetric] None, unfolded l1, OF rec(1)] rec(2) Pair None
        by (auto simp: slot_free_def split: accept_result.splits)
    next
      case (Some h)
      with Pair "3.prems" show ?thesis by auto
    qed
  qed
qed auto

subsection \<open>Properties\<close>

primrec lim_step :: "slot_op \<Rightarrow> limiter \<Rightarrow> limiter" where
  "lim_step (Acquire k) l = fst (try_acquire k l)"
| "lim_step (Release h) l = release_slot h l"

lemma lim_step_eq: "lim.step = lim_step"
proof (intro ext)
  fix x l show "lim.step x l = lim_step x l" by (cases x) simp_all
qed

definition lim_run :: "int \<Rightarrow> int \<Rightarrow> slot_op list \<Rightarrow> limiter" where
  "lim_run maxTotal maxPerKey xs = fold lim_step xs (new_limiter maxTotal maxPerKey)"

lemma lim_run_inv [simp]: "lim_inv (lim_run mt mk xs)"
  using lim.inv_run [of "new_limiter mt mk" xs] by (simp add: lim_run_def lim_step_eq)

lemma lim_run_limits [simp]: "lim_maxTotal (lim_run mt mk xs) = mt" "lim_maxPerKey (lim_run mt mk xs) = mk"
  using lim.limit_run [where s = "new_limiter mt mk" and xs = xs]
  by (simp_all add: lim_run_def lim_step_eq new_limiter_def)

lemma release_slot_length [simp]: "length (lim_handles (release_slot h l)) = length (lim_handles l)"
  by (simp add: release_slot_def Let_def)

lemma owner_release_None: "slot_owner l g = None \<Longrightarrow> slot_owner (release_slot h l) g = None"
  using held_release(2) [of l h] release_slot_free [of l h] by (cases "slot_owner l h") auto

lemma release_all_owner: "g < n \<Longrightarrow> slot_owner (fold release_slot [0..<n] l) g = None"
proof (induction n)
  case (Suc n)
  let ?l = "fold release_slot [0..<n] l"
  show ?case
  proof (cases "g = n")
    case True
    then show ?thesis
      using held_release(2) [of ?l n] release_slot_free [of ?l n] by (cases "slot_owner ?l n") auto
  next
    case False
    with Suc show ?thesis by (simp add: owner_release_None)
  qed
qed simp

lemma release_all_length: "length (lim_handles (fold release_slot hs l)) = length (lim_handles l)"
  by (induction hs arbitrary: l) simp_all

lemma release_all_inv: "lim_inv l \<Longrightarrow> lim_inv (fold release_slot hs l)"
  by (induction hs arbitrary: l) (simp_all add: lim_inv_release)

lemma no_owner_no_keys: "\<forall>h < length (lim_handles l). slot_owner l h = None \<Longrightarrow> held_keys l = {#}"
proof -
  assume "\<forall>h < length (lim_handles l). slot_owner l h = None"
  then have "\<forall>x \<in> set (lim_handles l). snd x"
    by (metis in_set_conv_nth option.simps(3) slot_owner_def)
  then show ?thesis by (auto simp: held_keys_def live_keys_def)
qed

text \<open>C8. The limits hold: after any sequence of acquisitions and releases (early, late, repeated)
  the total stays between 0 and the global limit, every per-key count between 0 and the per-key
  limit, and the counters agree with the slots that are really held.\<close>

theorem limits_never_exceeded:
  assumes "0 \<le> mt" "0 \<le> mk"
  shows "0 \<le> lim_total (lim_run mt mk xs) \<and> lim_total (lim_run mt mk xs) \<le> mt
    \<and> (\<forall>k. 0 \<le> per_key (lim_run mt mk xs) k \<and> per_key (lim_run mt mk xs) k \<le> mk)
    \<and> lim_total (lim_run mt mk xs) = int (size (held_keys (lim_run mt mk xs)))"
proof -
  have "lim.within (new_limiter mt mk)"
    using assms by (simp add: lim.within_def held_keys_def live_keys_def new_limiter_def)
  then have "lim.within (lim_run mt mk xs)"
    using lim.within_run [of "new_limiter mt mk" xs] by (simp add: lim_run_def lim_step_eq)
  moreover have "lim_total (lim_run mt mk xs) = int (size (held_keys (lim_run mt mk xs)))"
    using lim_run_inv [of mt mk xs] unfolding lim_inv_def by blast
  ultimately show ?thesis
    using per_key_count [of "lim_run mt mk xs"] by (simp add: lim.within_def)
qed

theorem limits_never_exceeded_witness:
  "lim_total (lim_run 2 1 [Acquire ''a'', Acquire ''a'', Acquire ''b'', Acquire ''c'', Release 0, Release 0]) \<le> 2"
  using limits_never_exceeded [of 2 1 "[Acquire ''a'', Acquire ''a'', Acquire ''b'', Acquire ''c'', Release 0, Release 0]"]
  by simp

text \<open>The limiter refuses exactly when it must: in every reachable state \<open>tryAcquire(key)\<close>
  succeeds iff fewer slots than the global limit are held and fewer than the per-key limit by this
  key; a refusal changes nothing.\<close>

theorem acquire_exactly_below_limits:
  "try_acquire k (lim_run mt mk xs) = (lim_run mt mk xs, None) \<longleftrightarrow>
     \<not> (int (size (held_keys (lim_run mt mk xs))) < mt
        \<and> int (count (held_keys (lim_run mt mk xs)) (slot_key k)) < mk)"
proof -
  have "try_acquire k l = (l, None) \<longleftrightarrow> snd (try_acquire k l) = None" for l
    using try_acquire_refused [of k l] by (cases "try_acquire k l") auto
  then show ?thesis using lim.acquire_None [of "lim_run mt mk xs" k] by auto
qed

text \<open>A slot is given back exactly once: whatever happens between a successful \<open>tryAcquire\<close>
  and its release, the release returns one slot of the acquired key and nothing else, and calling
  the release closure again changes nothing.\<close>

theorem slot_released_once:
  assumes "try_acquire k (lim_run mt mk xs) = (l, Some h)" "Release h \<notin> set ys"
  shows "held_keys (fold lim_step ys l) = add_mset (slot_key k) (held_keys (release_slot h (fold lim_step ys l)))
    \<and> release_slot h (release_slot h (fold lim_step ys l)) = release_slot h (fold lim_step ys l)"
proof -
  have inv: "lim_inv (lim_run mt mk xs)" by simp
  then have "lim_inv l" using lim_inv_acquire [of _ k] assms(1) by (metis fst_conv)
  then have "lim_inv (fold lim_step ys l)" using lim.inv_run by (simp add: lim_step_eq)
  with lim.handle_gives_back [OF inv assms] show ?thesis
    by (simp add: lim_step_eq lim.release_twice)
qed

theorem slot_released_once_witness:
  "held_keys (fold lim_step [Acquire ''b''] (fst (try_acquire ''a'' (lim_run 3 2 [])))) =
     add_mset ''a'' (held_keys (release_slot 0 (fold lim_step [Acquire ''b''] (fst (try_acquire ''a'' (lim_run 3 2 []))))))"
proof -
  have "try_acquire ''a'' (lim_run 3 2 []) = (fst (try_acquire ''a'' (lim_run 3 2 [])), Some 0)"
    by (simp add: try_acquire_def lim_run_def new_limiter_def per_key_def Let_def)
  from slot_released_once [OF this, of "[Acquire ''b'']"] show ?thesis by (simp add: slot_key_def)
qed

text \<open>Nothing leaks: when every handle given out has been released, the total is 0 and the
  per-key map is empty again.\<close>

theorem limiter_drains:
  "lim_total (fold release_slot [0..<length (lim_handles (lim_run mt mk xs))] (lim_run mt mk xs)) = 0
   \<and> lim_perKey (fold release_slot [0..<length (lim_handles (lim_run mt mk xs))] (lim_run mt mk xs)) = Map.empty"
proof -
  let ?l = "lim_run mt mk xs"
  let ?d = "fold release_slot [0..<length (lim_handles ?l)] ?l"
  have "held_keys ?d = {#}"
    by (rule no_owner_no_keys) (simp add: release_all_length release_all_owner)
  moreover have "lim_inv ?d" by (rule release_all_inv) simp
  ultimately show ?thesis by (simp add: lim_inv_def fun_eq_iff)
qed

text \<open>\<open>Accept\<close> lets through the first connection that finds a free slot, closes every earlier
  one without giving it a slot, and passes on an error of the listener; the accepted connection
  holds one slot of its host, which its \<open>Close\<close> gives back however often it is called.\<close>

theorem limited_accept_admits:
  assumes "limited_accept q (lim_run mt mk xs) = (l, rest, closed, Accepted addr h)"
  shows "q = map Incoming closed @ Incoming addr # rest
    \<and> (\<forall>a \<in> set closed. \<not> slot_free (lim_run mt mk xs) a) \<and> slot_free (lim_run mt mk xs) addr
    \<and> held_keys l = add_mset (slot_key (address_host addr)) (held_keys (lim_run mt mk xs))
    \<and> held_keys (snd (close_limited \<lparr>lc_release = h, lc_once = False\<rparr> l)) = held_keys (lim_run mt mk xs)
    \<and> (case close_limited \<lparr>lc_release = h, lc_once = False\<rparr> l of (c, l') \<Rightarrow> close_limited c l' = (c, l'))"
proof -
  let ?l = "lim_run mt mk xs"
  have q: "q = map Incoming closed @ Incoming addr # rest" "\<forall>a \<in> set closed. \<not> slot_free ?l a"
    and acq: "try_acquire (address_host addr) ?l = (l, Some h)"
    using limited_accept_split [OF assms] by simp_all
  have "held_keys (release_slot h l) = held_keys ?l"
    by (rule lim.acquire_release [OF _ acq]) simp
  with q acq show ?thesis
    using held_acquire(1) [OF acq] by (simp add: slot_free_def close_limited_def)
qed

theorem limited_accept_admits_witness:
  "\<not> slot_free (lim_run 2 1 [Acquire ''10.0.0.1'']) ''10.0.0.1:5000''
   \<and> slot_free (lim_run 2 1 [Acquire ''10.0.0.1'']) ''10.0.0.2:5001''"
proof -
  let ?l = "lim_run 2 1 [Acquire ''10.0.0.1'']"
  have host: "address_host ''10.0.0.1:5000'' = ''10.0.0.1''" "address_host ''10.0.0.2:5001'' = ''10.0.0.2''"
    by (simp_all add: address_host_def split_host_port_def last_cut_def)
  have "?l = \<lparr>lim_maxTotal = 2, lim_maxPerKey = 1, lim_total = 1, lim_perKey = [''10.0.0.1'' \<mapsto> 1],
      lim_handles = [(''10.0.0.1'', False)]\<rparr>"
    by (simp add: lim_run_def try_acquire_def new_limiter_def per_key_def slot_key_def Let_def)
  then have "limited_accept [Incoming ''10.0.0.1:5000'', Incoming ''10.0.0.2:5001'', InnerError] ?l =
      (fst (try_acquire ''10.0.0.2'' ?l), [InnerError], [''10.0.0.1:5000''], Accepted ''10.0.0.2:5001'' 1)"
    by (simp add: host try_acquire_def per_key_def slot_key_def Let_def)
  from limited_accept_admits [OF this] show ?thesis by simp
qed

end
