(* ===== verification/AuthLimit.thy ===== *)
theory AuthLimit
  imports Validate "HOL-Library.Multiset"
begin

text \<open>
  \<open>internal/proxy/auth_limit.go\<close>: the limiter of failed logins. The code keeps a Go map from
  addresses to elements of a doubly linked list, whose elements point at the failure records;
  here the pointers are explicit. \<open>al_store\<close> is the store of records, an element is its
  address in the store, \<open>al_byIP\<close> the map (an association list, so its length is Go's \<open>len\<close>)
  and \<open>al_oldestFirst\<close> the list from front to back.

  \<open>tab_attempt\<close> is the abstract specification: one list of records, least recently used first.
  The refinement lemma says the pointer structure implements it; the properties are proved on
  the abstract table. The contract for the request handler is the locale \<open>login_throttle\<close>.
\<close>

subsection \<open>State and operations\<close>

record auth_failure =
  af_ip :: string
  af_count :: int
  af_windowStart :: time
  af_blockedUntil :: time

record auth_limiter =
  al_byIP :: "(string \<times> nat) list"
  al_oldestFirst :: "nat list"
  al_maxAttempts :: int
  al_window :: duration
  al_block :: duration
  al_maxIPs :: int
  al_store :: "nat \<Rightarrow> auth_failure"
  al_next :: nat

definition new_auth_limiter :: "auth_config \<Rightarrow> auth_limiter" where
  "new_auth_limiter cfg =
     \<lparr> al_byIP = [], al_oldestFirst = [], al_maxAttempts = auth_MaxFailedAttempts cfg,
       al_window = auth_FailureWindow cfg, al_block = auth_BlockDuration cfg,
       al_maxIPs = auth_MaxTrackedIPs cfg,
       al_store = (\<lambda>_. \<lparr>af_ip = [], af_count = 0, af_windowStart = 0, af_blockedUntil = 0\<rparr>),
       al_next = 0 \<rparr>"

definition ip_key :: "string \<Rightarrow> string" where
  "ip_key ip = (if ip = [] then ''unknown'' else ip)"

definition move_to_back :: "nat \<Rightarrow> auth_limiter \<Rightarrow> auth_limiter" where
  "move_to_back e l = l\<lparr>al_oldestFirst := remove1 e (al_oldestFirst l) @ [e]\<rparr>"

definition evict_oldest :: "auth_limiter \<Rightarrow> auth_limiter option" where
  \<comment> \<open>\<open>None\<close> is the nil dereference of \<open>Front()\<close> on an empty list\<close>
  "evict_oldest l =
     (if int (length (al_byIP l)) \<ge> al_maxIPs l then
        (case al_oldestFirst l of
           [] \<Rightarrow> None
         | oldest # rest \<Rightarrow>
             Some (l\<lparr> al_byIP := AList.delete (af_ip (al_store l oldest)) (al_byIP l),
                      al_oldestFirst := rest \<rparr>))
      else Some l)"

definition push_entry :: "string \<Rightarrow> time \<Rightarrow> auth_limiter \<Rightarrow> auth_limiter" where
  "push_entry ip now l =
     l\<lparr> al_store := (al_store l)(al_next l :=
          \<lparr>af_ip = ip, af_count = 0, af_windowStart = now, af_blockedUntil = zero_time\<rparr>),
        al_oldestFirst := al_oldestFirst l @ [al_next l],
        al_byIP := AList.update ip (al_next l) (al_byIP l),
        al_next := Suc (al_next l) \<rparr>"

definition restart_window :: "duration \<Rightarrow> time \<Rightarrow> auth_failure \<Rightarrow> auth_failure" where
  "restart_window window now entry =
     (if af_blockedUntil entry \<noteq> zero_time \<or> time_sub now (af_windowStart entry) \<ge> window
      then entry\<lparr>af_count := 0, af_windowStart := now, af_blockedUntil := zero_time\<rparr>
      else entry)"

definition count_failure :: "int \<Rightarrow> duration \<Rightarrow> time \<Rightarrow> auth_failure \<Rightarrow> auth_failure \<times> duration" where
  "count_failure maxAttempts block now entry =
     (let entry1 = entry\<lparr>af_count := af_count entry + 1\<rparr> in
      if af_count entry1 \<ge> maxAttempts
      then (entry1\<lparr>af_blockedUntil := time_add now block\<rparr>, block)
      else (entry1, 0))"

definition record_failure :: "nat \<Rightarrow> time \<Rightarrow> auth_limiter \<Rightarrow> auth_limiter \<times> duration" where
  "record_failure e now l =
     (let (entry, d) = count_failure (al_maxAttempts l) (al_block l) now (al_store l e)
      in (l\<lparr>al_store := (al_store l)(e := entry)\<rparr>, d))"

definition attempt :: "string \<Rightarrow> bool \<Rightarrow> time \<Rightarrow> auth_limiter \<Rightarrow> (auth_limiter \<times> duration) option" where
  "attempt ip0 valid now l =
     (let ip = ip_key ip0 in
      case map_of (al_byIP l) ip of
        Some element \<Rightarrow>
          (let l1 = move_to_back element l; entry = al_store l element in
           if time_before now (af_blockedUntil entry) then
             Some (l1, time_sub (af_blockedUntil entry) now)
           else if valid then
             Some (l1\<lparr> al_oldestFirst := remove1 element (al_oldestFirst l1),
                       al_byIP := AList.delete ip (al_byIP l1) \<rparr>, 0)
           else
             Some (record_failure element now
               (l1\<lparr>al_store := (al_store l1)(element := restart_window (al_window l1) now entry)\<rparr>)))
      | None \<Rightarrow>
          if valid then Some (l, 0)
          else map_option (\<lambda>l1. record_failure (al_next l1) now (push_entry ip now l1)) (evict_oldest l))"

subsection \<open>The abstract table\<close>

record policy =
  pol_attempts :: int
  pol_window :: duration
  pol_block :: duration
  pol_ips :: int

definition policy_of :: "auth_limiter \<Rightarrow> policy" where
  "policy_of l = \<lparr> pol_attempts = al_maxAttempts l, pol_window = al_window l,
                   pol_block = al_block l, pol_ips = al_maxIPs l \<rparr>"

definition policy_ok :: "policy \<Rightarrow> bool" where
  "policy_ok p \<longleftrightarrow> 1 \<le> pol_attempts p \<and> 0 < pol_window p \<and> 0 < pol_block p \<and> 1 \<le> pol_ips p"

definition others :: "string \<Rightarrow> auth_failure list \<Rightarrow> auth_failure list" where
  "others ip t = filter (\<lambda>e. af_ip e \<noteq> ip) t"

definition lookup_ip :: "string \<Rightarrow> auth_failure list \<Rightarrow> auth_failure option" where
  "lookup_ip ip t = List.find (\<lambda>e. af_ip e = ip) t"

definition tab_fail :: "policy \<Rightarrow> time \<Rightarrow> auth_failure \<Rightarrow> auth_failure \<times> duration" where
  "tab_fail p now e = count_failure (pol_attempts p) (pol_block p) now e"

definition tab_attempt :: "policy \<Rightarrow> string \<Rightarrow> bool \<Rightarrow> time \<Rightarrow> auth_failure list \<Rightarrow> auth_failure list \<times> duration" where
  "tab_attempt p ip valid now t =
     (case lookup_ip ip t of
        Some e \<Rightarrow>
          if now < af_blockedUntil e then (others ip t @ [e], time_sub (af_blockedUntil e) now)
          else if valid then (others ip t, 0)
          else (let (e', d) = tab_fail p now (restart_window (pol_window p) now e) in (others ip t @ [e'], d))
      | None \<Rightarrow>
          if valid then (t, 0)
          else
            (let room = (if int (length t) \<ge> pol_ips p then tl t else t);
                 (e', d) = tab_fail p now \<lparr>af_ip = ip, af_count = 0, af_windowStart = now, af_blockedUntil = 0\<rparr>
             in (room @ [e'], d)))"

definition table :: "auth_limiter \<Rightarrow> auth_failure list" where
  "table l = map (al_store l) (al_oldestFirst l)"

definition al_inv :: "auth_limiter \<Rightarrow> bool" where
  "al_inv l \<longleftrightarrow>
     mset (al_byIP l) = mset (map (\<lambda>e. (af_ip (al_store l e), e)) (al_oldestFirst l))
     \<and> distinct (map af_ip (table l)) \<and> (\<forall>e \<in> set (al_oldestFirst l). e < al_next l)"

lemma af_ip_simps [simp]:
  "af_ip (restart_window w now e) = af_ip e" "af_ip (fst (count_failure m b now e)) = af_ip e"
  "af_ip (fst (tab_fail p now e)) = af_ip e"
  by (simp_all add: restart_window_def count_failure_def tab_fail_def Let_def)

subsection \<open>The pointer structure implements the table\<close>

lemma al_inv_byIP_set: "al_inv l \<Longrightarrow> set (al_byIP l) = (\<lambda>e. (af_ip (al_store l e), e)) ` set (al_oldestFirst l)"
  unfolding al_inv_def by (metis list.set_map set_mset_mset)

lemma al_inv_length: "al_inv l \<Longrightarrow> length (al_byIP l) = length (al_oldestFirst l)"
  unfolding al_inv_def by (metis length_map size_mset)

lemma al_inv_distinct: "al_inv l \<Longrightarrow> distinct (al_oldestFirst l)"
  unfolding al_inv_def table_def by (metis distinct_map)

lemma al_inv_distinct_keys: "al_inv l \<Longrightarrow> distinct (map fst (al_byIP l))"
proof -
  assume inv: "al_inv l"
  have "mset (map fst (al_byIP l)) = image_mset fst (mset (al_byIP l))" by simp
  also have "\<dots> = image_mset fst (mset (map (\<lambda>e. (af_ip (al_store l e), e)) (al_oldestFirst l)))"
    using inv by (simp add: al_inv_def)
  also have "\<dots> = mset (map af_ip (table l))"
    by (simp add: table_def multiset.map_comp o_def)
  finally show ?thesis using inv unfolding al_inv_def by (metis mset_eq_imp_distinct_iff)
qed

lemma al_inv_same_ip:
  assumes "al_inv l" "e \<in> set (al_oldestFirst l)" "f \<in> set (al_oldestFirst l)"
  shows "af_ip (al_store l e) = af_ip (al_store l f) \<longleftrightarrow> e = f"
  using assms unfolding al_inv_def table_def by (auto simp: distinct_map inj_on_def)

lemma al_inv_map_of: "al_inv l \<Longrightarrow>
    map_of (al_byIP l) ip = Some e \<longleftrightarrow> e \<in> set (al_oldestFirst l) \<and> af_ip (al_store l e) = ip"
  using al_inv_byIP_set al_inv_distinct_keys by (auto simp: map_of_eq_Some_iff)

lemma al_inv_map_of_None: "al_inv l \<Longrightarrow>
    map_of (al_byIP l) ip = None \<longleftrightarrow> ip \<notin> af_ip ` al_store l ` set (al_oldestFirst l)"
  using al_inv_byIP_set by (force simp: map_of_eq_None_iff image_iff)

lemma lookup_ip_None: "lookup_ip ip t = None \<longleftrightarrow> ip \<notin> af_ip ` set t"
  by (auto simp: lookup_ip_def find_None_iff)

lemma lookup_ip_Some:
  "distinct (map af_ip t) \<Longrightarrow> lookup_ip ip t = Some e \<longleftrightarrow> e \<in> set t \<and> af_ip e = ip"
  by (induction t) (auto simp: lookup_ip_def)

lemma lookup_table_None: "al_inv l \<Longrightarrow> map_of (al_byIP l) ip = None \<Longrightarrow> lookup_ip ip (table l) = None"
  by (simp add: al_inv_map_of_None lookup_ip_None table_def)

lemma lookup_table_Some:
  assumes "al_inv l" "map_of (al_byIP l) ip = Some e"
  shows "lookup_ip ip (table l) = Some (al_store l e)"
  using assms al_inv_map_of [OF assms(1)] by (simp add: lookup_ip_Some al_inv_def table_def)

lemma others_table:
  assumes "al_inv l" "e \<in> set (al_oldestFirst l)"
  shows "others (af_ip (al_store l e)) (table l) = map (al_store l) (remove1 e (al_oldestFirst l))"
proof -
  have "filter (\<lambda>f. af_ip (al_store l f) \<noteq> af_ip (al_store l e)) (al_oldestFirst l)
        = filter (\<lambda>f. f \<noteq> e) (al_oldestFirst l)"
    using al_inv_same_ip [OF assms(1) _ assms(2)] by (intro filter_cong) auto
  also have "\<dots> = remove1 e (al_oldestFirst l)"
    using al_inv_distinct [OF assms(1)] by (simp add: distinct_remove1_removeAll removeAll_filter_not_eq) metis
  finally show ?thesis by (simp add: others_def table_def filter_map o_def)
qed

text \<open>Each pointer operation keeps the invariant and does to the table what the specification says.\<close>

lemma table_simps [simp]:
  "table (l\<lparr>al_oldestFirst := q\<rparr>) = map (al_store l) q"
  "table (l\<lparr>al_oldestFirst := q, al_byIP := m\<rparr>) = map (al_store l) q"
  "table (l\<lparr>al_byIP := m, al_oldestFirst := q\<rparr>) = map (al_store l) q"
  by (simp_all add: table_def)

lemma distinct_map_permute: "mset q = mset p \<Longrightarrow> distinct (map f q) \<longleftrightarrow> distinct (map f p)"
  by (rule mset_eq_imp_distinct_iff) simp

lemma al_inv_permute:
  assumes "al_inv l" "mset q = mset (al_oldestFirst l)"
  shows "al_inv (l\<lparr>al_oldestFirst := q\<rparr>)"
  using assms distinct_map_permute [OF assms(2), of "\<lambda>e. af_ip (al_store l e)"] mset_eq_setD [OF assms(2)]
  by (simp add: al_inv_def table_def o_def)

lemma move_to_back_table:
  assumes "al_inv l" "e \<in> set (al_oldestFirst l)"
  shows "al_inv (move_to_back e l)"
    "table (move_to_back e l) = others (af_ip (al_store l e)) (table l) @ [al_store l e]"
  using assms by (simp_all add: move_to_back_def others_table al_inv_permute)

lemma al_inv_drop:
  \<comment> \<open>taking one element out of the map and the list\<close>
  assumes "al_inv l" "e \<in> set (al_oldestFirst l)" "ip = af_ip (al_store l e)"
  shows "al_inv (l\<lparr>al_byIP := AList.delete ip (al_byIP l), al_oldestFirst := remove1 e (al_oldestFirst l)\<rparr>)"
proof -
  let ?p = "\<lambda>e. (af_ip (al_store l e), e)" and ?q = "al_oldestFirst l"
  have "mset (AList.delete ip (al_byIP l)) = filter_mset (\<lambda>(k, _). ip \<noteq> k) (mset (map ?p ?q))"
    using assms(1) by (simp add: AList.delete_eq al_inv_def)
  also have "\<dots> = mset (map ?p (filter (\<lambda>f. f \<noteq> e) ?q))"
    by (subst mset_filter [symmetric], rule arg_cong [of _ _ mset])
       (auto simp: filter_map o_def assms(3) al_inv_same_ip [OF assms(1,2)] intro!: arg_cong [of _ _ "map _"] filter_cong)
  also have "filter (\<lambda>f. f \<noteq> e) ?q = remove1 e ?q"
    using al_inv_distinct [OF assms(1)] by (simp add: distinct_remove1_removeAll removeAll_filter_not_eq) metis
  finally have "mset (AList.delete ip (al_byIP l)) = mset (map ?p (remove1 e ?q))" .
  moreover have "distinct (map af_ip (map (al_store l) (remove1 e ?q)))"
    using assms(1) by (auto simp: al_inv_def table_def distinct_map intro: inj_on_diff)
  ultimately show ?thesis
    using assms(1) set_remove1_subset [of e ?q] by (auto simp: al_inv_def)
qed

lemma al_inv_store:
  assumes "al_inv l" "af_ip x = af_ip (al_store l e)"
  shows "al_inv (l\<lparr>al_store := (al_store l)(e := x)\<rparr>)"
proof -
  have "af_ip (((al_store l)(e := x)) f) = af_ip (al_store l f)" for f
    using assms(2) by simp
  then show ?thesis using assms(1) by (simp add: al_inv_def table_def o_def del: fun_upd_apply)
qed

lemma record_failure_table:
  assumes "al_inv l" "e \<in> set (al_oldestFirst l)" "table l = t @ [al_store l e]"
  shows "al_inv (fst (record_failure e now l))"
    "table (fst (record_failure e now l)) = t @ [fst (tab_fail (policy_of l) now (al_store l e))]"
    "snd (record_failure e now l) = snd (tab_fail (policy_of l) now (al_store l e))"
proof -
  let ?x = "fst (tab_fail (policy_of l) now (al_store l e))"
  have r: "record_failure e now l = (l\<lparr>al_store := (al_store l)(e := ?x)\<rparr>, snd (tab_fail (policy_of l) now (al_store l e)))"
    by (simp add: record_failure_def tab_fail_def policy_of_def case_prod_beta)
  show "al_inv (fst (record_failure e now l))" using assms(1) by (simp add: r al_inv_store)
  show "snd (record_failure e now l) = snd (tab_fail (policy_of l) now (al_store l e))" by (simp add: r)
  obtain q f where q: "al_oldestFirst l = q @ [f]" "map (al_store l) q = t" "al_store l f = al_store l e"
    using assms(3) by (auto simp: table_def map_eq_append_conv)
  with al_inv_same_ip [OF assms(1,2), of f] have "f = e" by simp
  moreover from al_inv_distinct [OF assms(1)] q(1) this have "e \<notin> set q" by simp
  ultimately show "table (fst (record_failure e now l)) = t @ [?x]"
    using q by (simp add: r table_def)
qed

lemma push_entry_table:
  assumes "al_inv l" "ip \<notin> af_ip ` set (table l)"
  shows "al_inv (push_entry ip now l)" "al_next l \<in> set (al_oldestFirst (push_entry ip now l))"
    "table (push_entry ip now l) = table l @ [al_store (push_entry ip now l) (al_next l)]"
    "al_store (push_entry ip now l) (al_next l)
       = \<lparr>af_ip = ip, af_count = 0, af_windowStart = now, af_blockedUntil = 0\<rparr>"
    "policy_of (push_entry ip now l) = policy_of l"
proof -
  let ?x = "\<lparr>af_ip = ip, af_count = 0, af_windowStart = now, af_blockedUntil = 0\<rparr>"
  have old: "map ((al_store l)(al_next l := ?x)) (al_oldestFirst l) = map (al_store l) (al_oldestFirst l)"
    using assms(1) by (auto simp: al_inv_def)
  then show tab: "table (push_entry ip now l) = table l @ [al_store (push_entry ip now l) (al_next l)]"
    by (simp add: push_entry_def table_def)
  have "ip \<notin> fst ` set (al_byIP l)"
    using assms al_inv_byIP_set [OF assms(1)] by (auto simp: table_def)
  then have upd: "AList.update ip (al_next l) (al_byIP l) = al_byIP l @ [(ip, al_next l)]"
    by (rule alist_update_new)
  have inv: "mset (al_byIP l) = mset (map (\<lambda>e. (af_ip (al_store l e), e)) (al_oldestFirst l))"
    "distinct (map af_ip (table l))" "\<forall>e \<in> set (al_oldestFirst l). e < al_next l"
    using assms(1) by (simp_all add: al_inv_def)
  show "al_inv (push_entry ip now l)"
    unfolding al_inv_def
  proof (intro conjI)
    show "mset (al_byIP (push_entry ip now l)) =
        mset (map (\<lambda>e. (af_ip (al_store (push_entry ip now l) e), e)) (al_oldestFirst (push_entry ip now l)))"
      using inv(3) by (auto simp: push_entry_def upd inv(1) intro!: image_mset_cong)
    show "distinct (map af_ip (table (push_entry ip now l)))"
      unfolding tab using inv(2) assms(2) by (simp add: push_entry_def)
    show "\<forall>e \<in> set (al_oldestFirst (push_entry ip now l)). e < al_next (push_entry ip now l)"
      using inv(3) by (auto simp: push_entry_def)
  qed
qed (simp_all add: push_entry_def policy_of_def)

lemma policy_of_simps [simp]:
  "policy_of (move_to_back e l) = policy_of l" "policy_of (fst (record_failure e now l)) = policy_of l"
  "policy_of (l\<lparr>al_store := m\<rparr>) = policy_of l" "policy_of (l\<lparr>al_oldestFirst := q\<rparr>) = policy_of l"
  "policy_of (l\<lparr>al_byIP := bs\<rparr>) = policy_of l"
  by (simp_all add: policy_of_def move_to_back_def record_failure_def case_prod_beta)

lemma table_length: "al_inv l \<Longrightarrow> length (al_byIP l) = length (table l)"
  by (simp add: al_inv_length table_def)

lemma evict_table:
  assumes "al_inv l" "1 \<le> al_maxIPs l"
  obtains l1 where "evict_oldest l = Some l1" "al_inv l1" "policy_of l1 = policy_of l"
    "table l1 = (if int (length (table l)) \<ge> pol_ips (policy_of l) then tl (table l) else table l)"
proof (cases "int (length (al_byIP l)) \<ge> al_maxIPs l")
  case False
  then show ?thesis
    using that [of l] assms(1) table_length [OF assms(1)] by (simp add: evict_oldest_def policy_of_def)
next
  case True
  with assms obtain e q where q: "al_oldestFirst l = e # q"
    using al_inv_length [OF assms(1)] by (cases "al_oldestFirst l") auto
  let ?l = "l\<lparr>al_byIP := AList.delete (af_ip (al_store l e)) (al_byIP l), al_oldestFirst := q\<rparr>"
  have "al_inv ?l"
    using al_inv_drop [OF assms(1), of e] q by simp
  with True q show ?thesis
    using that [of ?l] table_length [OF assms(1)]
    by (simp add: evict_oldest_def) (simp add: table_def policy_of_def)
qed

lemma attempt_known:
  assumes inv: "al_inv l" and e: "map_of (al_byIP l) (ip_key ip) = Some e"
  shows "\<exists>l' d. attempt ip valid now l = Some (l', d) \<and> al_inv l' \<and> policy_of l' = policy_of l
    \<and> tab_attempt (policy_of l) (ip_key ip) valid now (table l) = (table l', d)"
proof -
  have mem: "e \<in> set (al_oldestFirst l)" and ip: "af_ip (al_store l e) = ip_key ip"
    using e al_inv_map_of [OF inv] by auto
  note look = lookup_table_Some [OF inv e]
  note moved = move_to_back_table [OF inv mem]
  let ?l1 = "move_to_back e l"
  have l1: "al_byIP ?l1 = al_byIP l" "al_store ?l1 = al_store l" "al_window ?l1 = al_window l"
    "e \<in> set (al_oldestFirst ?l1)" "remove1 e (al_oldestFirst ?l1) = remove1 e (al_oldestFirst l)"
    using al_inv_distinct [OF inv] by (auto simp: move_to_back_def remove1_append distinct_remove1_removeAll)
  consider (blocked) "now < af_blockedUntil (al_store l e)"
    | (ok) "\<not> now < af_blockedUntil (al_store l e)" "valid"
    | (bad) "\<not> now < af_blockedUntil (al_store l e)" "\<not> valid" by blast
  then show ?thesis
  proof cases
    case blocked
    with look moved e ip show ?thesis by (simp add: attempt_def tab_attempt_def time_before_def)
  next
    case ok
    have "al_inv (?l1\<lparr>al_byIP := AList.delete (ip_key ip) (al_byIP ?l1),
                       al_oldestFirst := remove1 e (al_oldestFirst ?l1)\<rparr>)"
      by (rule al_inv_drop) (simp_all add: moved l1 ip del: l1(5))
    then have "al_inv (?l1\<lparr>al_oldestFirst := remove1 e (al_oldestFirst ?l1),
                       al_byIP := AList.delete (ip_key ip) (al_byIP ?l1)\<rparr>)"
      by (simp add: al_inv_def table_def)
    with ok look e ip l1 others_table [OF inv mem] show ?thesis
      by (simp add: attempt_def tab_attempt_def time_before_def policy_of_def move_to_back_def)
  next
    case bad
    let ?x = "restart_window (al_window l) now (al_store l e)"
    let ?l2 = "?l1\<lparr>al_store := (al_store ?l1)(e := ?x)\<rparr>"
    have inv2: "al_inv ?l2" by (rule al_inv_store [OF moved(1)]) (simp add: l1)
    have "e \<notin> set (remove1 e (al_oldestFirst l))"
      using al_inv_distinct [OF inv] by simp
    then have tab2: "table ?l2 = others (ip_key ip) (table l) @ [al_store ?l2 e]"
      using others_table [OF inv mem] ip by (simp add: table_def move_to_back_def)
    have mem2: "e \<in> set (al_oldestFirst ?l2)" using l1(4) by simp
    note rec = record_failure_table [OF inv2 mem2 tab2, of now]
    obtain l' d where l': "record_failure e now ?l2 = (l', d)" by (cases "record_failure e now ?l2")
    have "policy_of l' = policy_of l" "al_window l = pol_window (policy_of l)"
      using policy_of_simps(2) [of e now ?l2] l' by (simp_all add: policy_of_def move_to_back_def)
    with bad look e ip l1 l' rec show ?thesis
      by (simp add: attempt_def tab_attempt_def time_before_def case_prod_beta)
  qed
qed

lemma attempt_unknown:
  assumes inv: "al_inv l" and ips: "1 \<le> al_maxIPs l" and e: "map_of (al_byIP l) (ip_key ip) = None"
  shows "\<exists>l' d. attempt ip valid now l = Some (l', d) \<and> al_inv l' \<and> policy_of l' = policy_of l
    \<and> tab_attempt (policy_of l) (ip_key ip) valid now (table l) = (table l', d)"
proof (cases valid)
  case True
  with inv e lookup_table_None [OF inv e] show ?thesis by (simp add: attempt_def tab_attempt_def)
next
  case False
  obtain l1 where ev: "evict_oldest l = Some l1" "al_inv l1" "policy_of l1 = policy_of l"
    "table l1 = (if int (length (table l)) \<ge> pol_ips (policy_of l) then tl (table l) else table l)"
    by (rule evict_table [OF inv ips])
  have "ip_key ip \<notin> af_ip ` set (table l)"
    using lookup_table_None [OF inv e] by (simp add: lookup_ip_None)
  moreover have "set (table l1) \<subseteq> set (table l)"
    using ev(4) by (cases "table l") auto
  ultimately have fresh: "ip_key ip \<notin> af_ip ` set (table l1)" by blast
  note push = push_entry_table [OF ev(2) fresh, of now]
  note rec = record_failure_table [OF push(1,2,3), of now]
  obtain l' d where l': "record_failure (al_next l1) now (push_entry (ip_key ip) now l1) = (l', d)"
    by (cases "record_failure (al_next l1) now (push_entry (ip_key ip) now l1)")
  have "policy_of l' = policy_of l"
    using policy_of_simps(2) [of "al_next l1" now "push_entry (ip_key ip) now l1"] l' push(5) ev(3) by simp
  with False e ev l' rec push lookup_table_None [OF inv e] show ?thesis
    by (simp add: attempt_def tab_attempt_def case_prod_beta Let_def)
qed

lemma attempt_refines:
  assumes "al_inv l" "1 \<le> al_maxIPs l"
  obtains l' d where "attempt ip valid now l = Some (l', d)" "al_inv l'" "policy_of l' = policy_of l"
    "tab_attempt (policy_of l) (ip_key ip) valid now (table l) = (table l', d)"
  using attempt_known [OF assms(1)] attempt_unknown [OF assms] by (cases "map_of (al_byIP l) (ip_key ip)") blast+

subsection \<open>Invariants of the table\<close>

text \<open>
  The number of records is bounded, a record that is not blocked has not used up its attempts,
  and no counter goes past the threshold.
\<close>

definition entry_ok :: "policy \<Rightarrow> auth_failure \<Rightarrow> bool" where
  "entry_ok p e \<longleftrightarrow> 0 \<le> af_count e \<and> af_count e \<le> pol_attempts p \<and> 0 \<le> af_blockedUntil e
     \<and> (af_blockedUntil e = 0 \<longrightarrow> af_count e < pol_attempts p)"

definition tab_ok :: "policy \<Rightarrow> auth_failure list \<Rightarrow> bool" where
  "tab_ok p t \<longleftrightarrow> distinct (map af_ip t) \<and> int (length t) \<le> pol_ips p \<and> (\<forall>e \<in> set t. entry_ok p e)"

lemma entry_ok_fail:
  assumes "policy_ok p" "0 \<le> now" "entry_ok p e"
  shows "entry_ok p (fst (tab_fail p now (restart_window (pol_window p) now e)))"
  using assms
  by (auto simp: entry_ok_def policy_ok_def tab_fail_def count_failure_def restart_window_def time_add_def Let_def)

lemma entry_ok_new:
  assumes "policy_ok p" "0 \<le> now"
  shows "entry_ok p (fst (tab_fail p now \<lparr>af_ip = ip, af_count = 0, af_windowStart = now, af_blockedUntil = 0\<rparr>))"
  using assms by (auto simp: entry_ok_def policy_ok_def tab_fail_def count_failure_def time_add_def Let_def)

lemma lookup_ip_mem: "lookup_ip ip t = Some e \<Longrightarrow> e \<in> set t \<and> af_ip e = ip"
  by (auto simp: lookup_ip_def find_Some_iff)

lemma others_distinct [simp]: "distinct (map af_ip t) \<Longrightarrow> distinct (map af_ip (others ip t))"
  by (simp add: others_def distinct_map_filter)

lemma others_set [simp]: "set (others ip t) = {e \<in> set t. af_ip e \<noteq> ip}"
  by (auto simp: others_def)

lemma others_length_less: "lookup_ip ip t = Some e \<Longrightarrow> length (others ip t) < length t"
  unfolding others_def by (rule length_filter_less [of e]) (use lookup_ip_mem in auto)

lemma tab_ok_replace:
  assumes "tab_ok p t" "lookup_ip ip t = Some e" "af_ip e' = ip" "entry_ok p e'"
  shows "tab_ok p (others ip t @ [e'])"
  using assms others_length_less [OF assms(2)] by (auto simp: tab_ok_def)

lemma tab_ok_drop: "tab_ok p t \<Longrightarrow> tab_ok p (others ip t)"
  using order_trans [OF of_nat_mono [OF length_filter_le [of "\<lambda>e. af_ip e \<noteq> ip" t]], of "pol_ips p"]
  by (auto simp: tab_ok_def others_def distinct_map_filter)

lemma tab_ok_add:
  assumes "tab_ok p t" "lookup_ip ip t = None" "af_ip e' = ip" "entry_ok p e'" "1 \<le> pol_ips p"
  shows "tab_ok p ((if int (length t) \<ge> pol_ips p then tl t else t) @ [e'])"
proof -
  have "ip \<notin> af_ip ` set t" using assms(2) by (simp add: lookup_ip_None)
  then show ?thesis
    using assms by (cases t) (auto simp: tab_ok_def)
qed

lemma tab_attempt_ok:
  assumes "policy_ok p" "tab_ok p t" "0 \<le> now"
  shows "tab_ok p (fst (tab_attempt p ip valid now t))"
proof (cases "lookup_ip ip t")
  case None
  then show ?thesis
    using assms tab_ok_add [OF assms(2) None _ entry_ok_new [OF assms(1,3)]]
    by (simp add: tab_attempt_def case_prod_beta Let_def policy_ok_def)
next
  case (Some e)
  have e: "entry_ok p e" "af_ip e = ip"
    using lookup_ip_mem [OF Some] assms(2) by (auto simp: tab_ok_def)
  then show ?thesis
    using tab_ok_replace [OF assms(2) Some] tab_ok_drop [OF assms(2)] entry_ok_fail [OF assms(1,3)]
    by (simp add: tab_attempt_def Some case_prod_beta)
qed

subsection \<open>Blocking\<close>

definition tab_until :: "auth_failure list \<Rightarrow> string \<Rightarrow> time" where
  "tab_until t ip = (case lookup_ip ip t of None \<Rightarrow> 0 | Some e \<Rightarrow> af_blockedUntil e)"

lemma find_append: "List.find P (xs @ ys) = (case List.find P xs of None \<Rightarrow> List.find P ys | Some x \<Rightarrow> Some x)"
  by (induction xs) auto

lemma find_filter_not: "List.find P (filter (\<lambda>x. \<not> P x) xs) = None"
  by (auto simp: find_None_iff)

lemma lookup_others [simp]: "lookup_ip ip (others ip t) = None"
  by (auto simp: lookup_ip_None)

lemma lookup_last:
  assumes "ip \<notin> af_ip ` set t" "af_ip e = ip"
  shows "lookup_ip ip (t @ [e]) = Some e"
proof -
  have "List.find (\<lambda>e. af_ip e = ip) t = None" using assms(1) by (auto simp: find_None_iff)
  with assms(2) show ?thesis by (simp add: lookup_ip_def find_append)
qed

lemma lookup_others_last [simp]: "af_ip e = ip \<Longrightarrow> lookup_ip ip (others ip t @ [e]) = Some e"
  by (rule lookup_last) auto

lemma tab_fail_result:
  assumes "policy_ok p"
  shows "snd (tab_fail p now e) = 0 \<and> af_blockedUntil (fst (tab_fail p now e)) = af_blockedUntil e
    \<or> snd (tab_fail p now e) = pol_block p \<and> af_blockedUntil (fst (tab_fail p now e)) = now + pol_block p"
  by (simp add: tab_fail_def count_failure_def Let_def time_add_def)

lemma tab_attempt_blocked:
  assumes "now < tab_until t ip" "0 \<le> now"
  shows "snd (tab_attempt p ip valid now t) = time_sub (tab_until t ip) now"
    "tab_until (fst (tab_attempt p ip valid now t)) ip = tab_until t ip"
proof -
  obtain e where e: "lookup_ip ip t = Some e" "now < af_blockedUntil e"
    using assms by (auto simp: tab_until_def split: option.splits)
  then have "tab_attempt p ip valid now t = (others ip t @ [e], time_sub (af_blockedUntil e) now)"
    by (simp add: tab_attempt_def)
  with e lookup_ip_mem [OF e(1)]
  show "snd (tab_attempt p ip valid now t) = time_sub (tab_until t ip) now"
    "tab_until (fst (tab_attempt p ip valid now t)) ip = tab_until t ip"
    by (simp_all add: tab_until_def)
qed

lemma tab_attempt_valid:
  assumes "\<not> now < tab_until t ip" "0 \<le> now"
  shows "snd (tab_attempt p ip True now t) = 0" "lookup_ip ip (fst (tab_attempt p ip True now t)) = None"
  using assms by (auto simp: tab_attempt_def tab_until_def split: option.splits)

lemma tab_attempt_failed:
  assumes "policy_ok p" "\<not> now < tab_until t ip" "0 \<le> now"
  shows "snd (tab_attempt p ip False now t) = 0 \<and> tab_until (fst (tab_attempt p ip False now t)) ip \<le> now
    \<or> snd (tab_attempt p ip False now t) = pol_block p
      \<and> tab_until (fst (tab_attempt p ip False now t)) ip = now + pol_block p"
proof (cases "lookup_ip ip t")
  case None
  let ?e = "\<lparr>af_ip = ip, af_count = 0, af_windowStart = now, af_blockedUntil = 0\<rparr>"
  let ?room = "if int (length t) \<ge> pol_ips p then tl t else t"
  have "ip \<notin> af_ip ` set ?room"
    using None by (cases t) (auto simp: lookup_ip_None)
  then have "lookup_ip ip (?room @ [fst (tab_fail p now ?e)]) = Some (fst (tab_fail p now ?e))"
    by (rule lookup_last) simp
  with None tab_fail_result [OF assms(1), of now ?e] assms(3) show ?thesis
    by (auto simp: tab_attempt_def tab_until_def case_prod_beta Let_def)
next
  case (Some e)
  with assms(2) have "\<not> now < af_blockedUntil e" by (simp add: tab_until_def)
  with Some lookup_ip_mem [OF Some] tab_fail_result [OF assms(1), of now "restart_window (pol_window p) now e"] assms(3)
  show ?thesis
    by (auto simp: tab_attempt_def tab_until_def case_prod_beta restart_window_def)
qed

text \<open>
  The least recently used record goes first: a record stays, unchanged, while fewer than
  \<open>maxIPs\<close> other addresses are seen after it.
\<close>

definition keeps :: "string set \<Rightarrow> auth_failure \<Rightarrow> auth_failure list \<Rightarrow> bool" where
  "keeps S e t \<longleftrightarrow> (\<exists>pre post. t = pre @ e # post \<and> af_ip ` set post \<subseteq> S)"

lemma keeps_lookup: "tab_ok p t \<Longrightarrow> keeps S e t \<Longrightarrow> lookup_ip (af_ip e) t = Some e"
  by (auto simp: keeps_def tab_ok_def lookup_ip_Some)

lemma keeps_others:
  assumes "keeps S e t" "ip \<noteq> af_ip e"
  shows "keeps S e (others ip t)"
proof -
  obtain pre post where "t = pre @ e # post" "af_ip ` set post \<subseteq> S"
    using assms(1) by (auto simp: keeps_def)
  with assms(2) have "others ip t = others ip pre @ e # others ip post" "af_ip ` set (others ip post) \<subseteq> S"
    by (auto simp: others_def)
  then show ?thesis unfolding keeps_def by blast
qed

lemma keeps_snoc: "keeps S e t \<Longrightarrow> af_ip x \<in> S \<Longrightarrow> keeps S e (t @ [x])"
proof -
  assume "keeps S e t" "af_ip x \<in> S"
  then obtain pre post where "t @ [x] = pre @ e # (post @ [x])" "af_ip ` set (post @ [x]) \<subseteq> S"
    by (auto simp: keeps_def)
  then show ?thesis unfolding keeps_def by blast
qed

lemma keeps_evict:
  assumes "tab_ok p t" "keeps S e t" "finite S" "int (card S) < pol_ips p" "ip \<in> S"
    and "lookup_ip ip t = None" "int (length t) \<ge> pol_ips p"
  shows "keeps S e (tl t)"
proof -
  obtain pre post where t: "t = pre @ e # post" "af_ip ` set post \<subseteq> S"
    using assms(2) by (auto simp: keeps_def)
  have "pre \<noteq> []"
  proof
    assume "pre = []"
    with t assms(1,6) have "distinct (map af_ip post)" "af_ip ` set post \<subseteq> S - {ip}"
      by (auto simp: tab_ok_def lookup_ip_None)
    then have "length post \<le> card (S - {ip})"
      using assms(3) card_mono [of "S - {ip}" "af_ip ` set post"] distinct_card [of "map af_ip post"] by simp
    moreover have "card S = Suc (card (S - {ip}))"
      using assms(3,5) by (metis card.remove)
    ultimately show False
      using assms(4,7) t(1) \<open>pre = []\<close> by simp
  qed
  then have "tl t = tl pre @ e # post" using t(1) by simp
  with t(2) show ?thesis unfolding keeps_def by blast
qed

lemma tab_attempt_keeps:
  assumes "tab_ok p t" "keeps S e t" "finite S" "int (card S) < pol_ips p" "ip \<in> S" "ip \<noteq> af_ip e"
  shows "keeps S e (fst (tab_attempt p ip valid now t))"
proof (cases "lookup_ip ip t")
  case None
  with assms keeps_evict [OF assms(1-5) None] show ?thesis
    by (auto simp: tab_attempt_def case_prod_beta Let_def intro!: keeps_snoc)
next
  case (Some f)
  then have "af_ip f = ip" using lookup_ip_mem by blast
  with Some assms keeps_others [OF assms(2,6)] show ?thesis
    by (auto simp: tab_attempt_def case_prod_beta intro!: keeps_snoc)
qed

subsection \<open>Runs\<close>

type_synonym login = "string \<times> bool \<times> time"

fun tab_run :: "policy \<Rightarrow> login list \<Rightarrow> auth_failure list \<Rightarrow> auth_failure list \<times> duration list" where
  "tab_run p [] t = (t, [])"
| "tab_run p ((ip, valid, now) # xs) t =
     (let (t1, d) = tab_attempt p (ip_key ip) valid now t; (t2, ds) = tab_run p xs t1 in (t2, d # ds))"

fun auth_run :: "login list \<Rightarrow> auth_limiter \<Rightarrow> (auth_limiter \<times> duration list) option" where
  "auth_run [] l = Some (l, [])"
| "auth_run ((ip, valid, now) # xs) l =
     (case attempt ip valid now l of
        None \<Rightarrow> None
      | Some (l1, d) \<Rightarrow> map_option (\<lambda>(l2, ds). (l2, d # ds)) (auth_run xs l1))"

definition login_time :: "login \<Rightarrow> time" where
  "login_time x = snd (snd x)"

definition throttle_ok :: "auth_limiter \<Rightarrow> bool" where
  "throttle_ok l \<longleftrightarrow> al_inv l \<and> policy_ok (policy_of l) \<and> tab_ok (policy_of l) (table l)"

lemma policy_ips: "policy_ok (policy_of l) \<Longrightarrow> 1 \<le> al_maxIPs l"
  by (simp add: policy_ok_def policy_of_def)

lemma auth_run_refines:
  assumes "al_inv l" "policy_ok (policy_of l)"
  obtains l' ds where "auth_run xs l = Some (l', ds)" "al_inv l'" "policy_of l' = policy_of l"
    "tab_run (policy_of l) xs (table l) = (table l', ds)"
  using assms
proof (induction xs arbitrary: l thesis)
  case (Cons x xs)
  obtain ip valid now where x: "x = (ip, valid, now)" by (cases x)
  obtain l1 d where one: "attempt ip valid now l = Some (l1, d)" "al_inv l1" "policy_of l1 = policy_of l"
    "tab_attempt (policy_of l) (ip_key ip) valid now (table l) = (table l1, d)"
    by (rule attempt_refines [OF Cons.prems(2) policy_ips [OF Cons.prems(3)]])
  obtain l2 ds where rest: "auth_run xs l1 = Some (l2, ds)" "al_inv l2" "policy_of l2 = policy_of l1"
    "tab_run (policy_of l1) xs (table l1) = (table l2, ds)"
    by (rule Cons.IH [of l1]) (use one Cons.prems in simp_all)
  show ?case
    by (rule Cons.prems(1) [of l2 "d # ds"]) (use one rest x in simp_all)
qed simp

lemma tab_run_ok:
  "policy_ok p \<Longrightarrow> tab_ok p t \<Longrightarrow> \<forall>x \<in> set xs. 0 \<le> login_time x \<Longrightarrow> tab_ok p (fst (tab_run p xs t))"
proof (induction xs arbitrary: t)
  case (Cons x xs)
  then show ?case
    by (cases x) (simp add: case_prod_beta Let_def login_time_def tab_attempt_ok)
qed simp

lemma tab_run_keeps:
  assumes "policy_ok p" "tab_ok p t" "keeps S e t" "finite S" "int (card S) < pol_ips p"
    and "\<forall>x \<in> set xs. 0 \<le> login_time x \<and> ip_key (fst x) \<in> S \<and> ip_key (fst x) \<noteq> af_ip e"
  shows "keeps S e (fst (tab_run p xs t))"
  using assms(2,3,6)
proof (induction xs arbitrary: t)
  case (Cons x xs)
  with assms(1,4,5) show ?case
    by (cases x) (simp add: case_prod_beta Let_def login_time_def tab_attempt_ok tab_attempt_keeps)
qed simp

lemma throttle_ok_new:
  "policy_ok (policy_of (new_auth_limiter cfg)) \<Longrightarrow> throttle_ok (new_auth_limiter cfg)"
  by (simp add: throttle_ok_def al_inv_def table_def new_auth_limiter_def tab_ok_def policy_ok_def policy_of_def)

lemma throttle_ok_attempt:
  assumes "throttle_ok l" "0 \<le> now"
  obtains l' d where "attempt ip valid now l = Some (l', d)" "throttle_ok l'" "policy_of l' = policy_of l"
    "tab_attempt (policy_of l) (ip_key ip) valid now (table l) = (table l', d)"
proof -
  have l: "al_inv l" "policy_ok (policy_of l)" "tab_ok (policy_of l) (table l)"
    using assms(1) by (simp_all add: throttle_ok_def)
  obtain l' d where l': "attempt ip valid now l = Some (l', d)" "al_inv l'" "policy_of l' = policy_of l"
    "tab_attempt (policy_of l) (ip_key ip) valid now (table l) = (table l', d)"
    by (rule attempt_refines [OF l(1) policy_ips [OF l(2)]])
  have "throttle_ok l'"
    using tab_attempt_ok [OF l(2,3) assms(2), of "ip_key ip" valid] l' l(2) by (simp add: throttle_ok_def)
  then show ?thesis by (rule that [OF l'(1) _ l'(3,4)])
qed

subsection \<open>The contract of the request handler\<close>

text \<open>
  What \<open>ServeHTTP\<close> relies on: the remaining block time it gets back is positive exactly when the
  address is blocked afterwards, and no login ends a block early.
\<close>

locale login_throttle =
  fixes try_login :: "string \<Rightarrow> bool \<Rightarrow> time \<Rightarrow> 's \<Rightarrow> ('s \<times> duration) option"
    and until :: "'s \<Rightarrow> string \<Rightarrow> time"
    and ok :: "'s \<Rightarrow> bool"
  assumes total: "ok s \<Longrightarrow> 0 \<le> now \<Longrightarrow> \<exists>s' d. try_login ip v now s = Some (s', d) \<and> ok s'"
    and refused: "ok s \<Longrightarrow> 0 \<le> now \<Longrightarrow> now < until s ip \<Longrightarrow> try_login ip v now s = Some (s', d) \<Longrightarrow>
        d = time_sub (until s ip) now \<and> until s' ip = until s ip"
    and accepted: "ok s \<Longrightarrow> 0 \<le> now \<Longrightarrow> \<not> now < until s ip \<Longrightarrow> try_login ip True now s = Some (s', d) \<Longrightarrow>
        d = 0 \<and> until s' ip = 0"
    and failed: "ok s \<Longrightarrow> 0 \<le> now \<Longrightarrow> \<not> now < until s ip \<Longrightarrow> try_login ip False now s = Some (s', d) \<Longrightarrow>
        d = 0 \<and> until s' ip \<le> now \<or> 0 < d \<and> until s' ip = now + d"
begin

lemma refused_iff_blocked:
  assumes "ok s" "0 \<le> now" "try_login ip v now s = Some (s', d)"
  shows "0 < d \<longleftrightarrow> now < until s' ip" "0 \<le> d"
proof -
  have "0 < d \<and> now < until s' ip \<or> d = 0 \<and> until s' ip \<le> now"
  proof (cases "now < until s ip")
    case True
    with refused [OF assms(1,2) True assms(3)] show ?thesis by (simp add: time_sub_pos)
  next
    case False
    with assms accepted [OF assms(1,2) False] failed [OF assms(1,2) False] show ?thesis
      by (cases v) fastforce+
  qed
  then show "0 < d \<longleftrightarrow> now < until s' ip" "0 \<le> d" by auto
qed

lemma remaining:
  assumes "ok s" "0 \<le> now" "try_login ip v now s = Some (s', d)" "0 < d" "until s' ip - now < 2 ^ 63"
  shows "d = until s' ip - now"
proof (cases "now < until s ip")
  case True
  with refused [OF assms(1,2) True assms(3)] assms(5) show ?thesis by (simp add: time_sub_exact in_int64_def)
next
  case False
  with assms accepted [OF assms(1,2) False] failed [OF assms(1,2) False] show ?thesis
    by (cases v) fastforce+
qed

lemma let_in:
  assumes "ok s" "0 \<le> now" "try_login ip v now s = Some (s', d)" "\<not> 0 < d"
  shows "\<not> now < until s ip" "v \<Longrightarrow> until s' ip = 0"
proof -
  show "\<not> now < until s ip"
    using refused [OF assms(1,2) _ assms(3)] refused_iff_blocked(1) [OF assms(1-3)] assms(4) by fastforce
  then show "v \<Longrightarrow> until s' ip = 0"
    using accepted [OF assms(1,2)] assms(3) by auto
qed

primrec hammer :: "string \<Rightarrow> (bool \<times> time) list \<Rightarrow> 's \<Rightarrow> ('s \<times> duration list) option" where
  "hammer ip [] s = Some (s, [])"
| "hammer ip (x # xs) s =
     (case try_login ip (fst x) (snd x) s of
        None \<Rightarrow> None
      | Some (s1, d) \<Rightarrow> map_option (\<lambda>(s2, ds). (s2, d # ds)) (hammer ip xs s1))"

lemma hammer_refused:
  assumes "ok s" "\<forall>x \<in> set xs. 0 \<le> snd x \<and> snd x < until s ip"
  shows "\<exists>s'. hammer ip xs s = Some (s', map (\<lambda>x. time_sub (until s ip) (snd x)) xs)
    \<and> ok s' \<and> until s' ip = until s ip"
  using assms
proof (induction xs arbitrary: s)
  case (Cons x xs)
  obtain s1 d where s1: "try_login ip (fst x) (snd x) s = Some (s1, d)" "ok s1"
    using total Cons.prems by fastforce
  have "d = time_sub (until s ip) (snd x) \<and> until s1 ip = until s ip"
    using refused [OF Cons.prems(1) _ _ s1(1)] Cons.prems(2) by simp
  with s1 Cons.IH [of s1] Cons.prems show ?case by fastforce
qed simp

end

definition blocked_until :: "auth_limiter \<Rightarrow> string \<Rightarrow> time" where
  "blocked_until l ip = tab_until (table l) (ip_key ip)"

lemma blocked_until_map:
  assumes "al_inv l"
  shows "blocked_until l ip =
    (case map_of (al_byIP l) (ip_key ip) of None \<Rightarrow> 0 | Some e \<Rightarrow> af_blockedUntil (al_store l e))"
  using lookup_table_None [OF assms] lookup_table_Some [OF assms]
  by (auto simp: blocked_until_def tab_until_def split: option.split)

interpretation throttle: login_throttle attempt blocked_until throttle_ok
proof
  fix l l' :: auth_limiter and now :: time and ip :: string and v :: bool and d :: duration
  assume l: "throttle_ok l" "0 \<le> now"
  obtain l1 d1 where l1: "attempt ip v now l = Some (l1, d1)" "throttle_ok l1"
    by (rule throttle_ok_attempt [OF l]) blast
  then show "\<exists>l' d. attempt ip v now l = Some (l', d) \<and> throttle_ok l'" by blast
next
  fix l l' :: auth_limiter and now :: time and ip :: string and v :: bool and d :: duration
  assume l: "throttle_ok l" "0 \<le> now" and b: "now < blocked_until l ip"
    and a: "attempt ip v now l = Some (l', d)"
  show "d = time_sub (blocked_until l ip) now \<and> blocked_until l' ip = blocked_until l ip"
    by (rule throttle_ok_attempt [OF l, of ip v])
       (use a b tab_attempt_blocked [OF b [unfolded blocked_until_def] l(2), where p = "policy_of l" and valid = v] in \<open>auto simp: blocked_until_def\<close>)
next
  fix l l' :: auth_limiter and now :: time and ip :: string and d :: duration
  assume l: "throttle_ok l" "0 \<le> now" and b: "\<not> now < blocked_until l ip"
    and a: "attempt ip True now l = Some (l', d)"
  note v = tab_attempt_valid [OF b [unfolded blocked_until_def] l(2), of "policy_of l"]
  show "d = 0 \<and> blocked_until l' ip = 0"
    by (rule throttle_ok_attempt [OF l, of ip True])
       (use a v in \<open>simp add: blocked_until_def tab_until_def\<close>)
next
  fix l l' :: auth_limiter and now :: time and ip :: string and d :: duration
  assume l: "throttle_ok l" "0 \<le> now" and b: "\<not> now < blocked_until l ip"
    and a: "attempt ip False now l = Some (l', d)"
  have p: "policy_ok (policy_of l)" using l(1) by (simp add: throttle_ok_def)
  note f = tab_attempt_failed [OF p b [unfolded blocked_until_def] l(2)]
  show "d = 0 \<and> blocked_until l' ip \<le> now \<or> 0 < d \<and> blocked_until l' ip = now + d"
    by (rule throttle_ok_attempt [OF l, of ip False])
       (use a f p in \<open>auto simp: blocked_until_def policy_ok_def\<close>)
qed

subsection \<open>Properties\<close>

lemma policy_ok_config:
  assumes "check_auth cfg = None"
  shows "policy_ok (policy_of (new_auth_limiter cfg))"
  using check_auth_None [OF assms] by (simp add: policy_ok_def policy_of_def new_auth_limiter_def)

lemma table_new [simp]: "table (new_auth_limiter cfg) = []"
  by (simp add: table_def new_auth_limiter_def)

lemma throttle_ok_run:
  assumes "throttle_ok l" "\<forall>x \<in> set xs. 0 \<le> login_time x"
  obtains l' ds where "auth_run xs l = Some (l', ds)" "throttle_ok l'" "policy_of l' = policy_of l"
    "tab_run (policy_of l) xs (table l) = (table l', ds)"
proof -
  have l: "al_inv l" "policy_ok (policy_of l)" "tab_ok (policy_of l) (table l)"
    using assms(1) by (simp_all add: throttle_ok_def)
  obtain l' ds where l': "auth_run xs l = Some (l', ds)" "al_inv l'" "policy_of l' = policy_of l"
    "tab_run (policy_of l) xs (table l) = (table l', ds)"
    by (rule auth_run_refines [OF l(1,2)])
  have "throttle_ok l'"
    using tab_run_ok [OF l(2,3) assms(2)] l' l(2) by (simp add: throttle_ok_def)
  then show ?thesis by (rule that [OF l'(1) _ l'(3,4)])
qed

text \<open>A sample configuration and logins for the witnesses: three failures in a minute block an
  address for five minutes, and two addresses are tracked.\<close>

definition sample_auth :: auth_config where
  "sample_auth = default_auth
     \<lparr> auth_Enabled := True, auth_Username := ''u'', auth_Password := ''p'',
       auth_MaxFailedAttempts := 3, auth_MaxTrackedIPs := 2 \<rparr>"

definition sample_limiter :: auth_limiter where
  "sample_limiter = new_auth_limiter sample_auth"

lemma check_sample_auth: "check_auth sample_auth = None"
  by (simp add: check_auth_def sample_auth_def default_auth_def contains_any_def)

lemma throttle_ok_sample: "throttle_ok sample_limiter"
  unfolding sample_limiter_def by (rule throttle_ok_new [OF policy_ok_config [OF check_sample_auth]])

text \<open>C16. Under a validated configuration the limiter never panics, whatever the sequence of
  logins: its pointer structure returns exactly the block times, and ends with exactly the records,
  of the abstract table of failed logins.\<close>
theorem auth_limiter_refines_table:
  assumes "check_auth cfg = None"
  shows "\<exists>l' ds. auth_run xs (new_auth_limiter cfg) = Some (l', ds)
    \<and> tab_run (policy_of (new_auth_limiter cfg)) xs [] = (table l', ds)"
proof -
  have inv: "al_inv (new_auth_limiter cfg)"
    using throttle_ok_new [OF policy_ok_config [OF assms]] by (simp add: throttle_ok_def)
  show ?thesis
    by (rule auth_run_refines [OF inv policy_ok_config [OF assms], of xs]) auto
qed

theorem auth_limiter_refines_table_witness:
  "\<exists>l' ds. auth_run [(''1.2.3.4'', False, 5), ([], True, 6)] sample_limiter = Some (l', ds)
    \<and> tab_run (policy_of sample_limiter) [(''1.2.3.4'', False, 5), ([], True, 6)] [] = (table l', ds)"
  unfolding sample_limiter_def by (rule auth_limiter_refines_table [OF check_sample_auth])

text \<open>Memory for failed logins is bounded: after any sequence of logins the map and the list
  both hold at most \<open>max_tracked_ips\<close> entries, one per address, and no counter exceeds
  \<open>max_failed_attempts\<close>.\<close>
theorem auth_limiter_bounded:
  assumes "check_auth cfg = None" "\<forall>x \<in> set xs. 0 \<le> login_time x"
    and "auth_run xs (new_auth_limiter cfg) = Some (l', ds)"
  shows "length (al_byIP l') = length (al_oldestFirst l')
    \<and> int (length (al_byIP l')) \<le> auth_MaxTrackedIPs cfg
    \<and> distinct (map fst (al_byIP l'))
    \<and> (\<forall>e \<in> set (al_oldestFirst l'). af_count (al_store l' e) \<le> auth_MaxFailedAttempts cfg)"
proof (rule throttle_ok_run [OF throttle_ok_new [OF policy_ok_config [OF assms(1)]] assms(2)])
  fix l1 ds1
  assume "auth_run xs (new_auth_limiter cfg) = Some (l1, ds1)" "throttle_ok l1"
    and p: "policy_of l1 = policy_of (new_auth_limiter cfg)"
  with assms(3) have l': "al_inv l'" "tab_ok (policy_of l') (table l')"
    by (simp_all add: throttle_ok_def)
  moreover have "pol_ips (policy_of l') = auth_MaxTrackedIPs cfg"
    "pol_attempts (policy_of l') = auth_MaxFailedAttempts cfg"
    using p assms(3) \<open>auth_run xs _ = Some (l1, ds1)\<close> by (simp_all add: policy_of_def new_auth_limiter_def)
  ultimately show ?thesis
    using al_inv_length [OF l'(1)] al_inv_distinct_keys [OF l'(1)]
    by (auto simp: tab_ok_def table_def entry_ok_def)
qed

theorem auth_limiter_bounded_witness:
  "let l = fst (the (auth_run [(''a'', False, 5), (''b'', False, 6), (''c'', False, 7)] sample_limiter))
   in int (length (al_byIP l)) \<le> 2 \<and> length (al_byIP l) = length (al_oldestFirst l)"
proof -
  let ?xs = "[(''a'', False, 5), (''b'', False, 6), (''c'', False, 7)]"
  have times: "\<forall>x \<in> set ?xs. 0 \<le> login_time x" by (simp add: login_time_def)
  obtain l' ds where run: "auth_run ?xs (new_auth_limiter sample_auth) = Some (l', ds)"
    by (rule throttle_ok_run [OF throttle_ok_sample times]) (simp add: sample_limiter_def)
  show ?thesis
    using auth_limiter_bounded [OF check_sample_auth times run]
    unfolding sample_limiter_def run by (simp add: sample_auth_def)
qed

text \<open>Consecutive failures within one window.\<close>

lemma count_failure_value:
  "count_failure m b now e =
     (if af_count e + 1 \<ge> m then (e\<lparr>af_count := af_count e + 1, af_blockedUntil := now + b\<rparr>, b)
      else (e\<lparr>af_count := af_count e + 1\<rparr>, 0))"
  by (simp add: count_failure_def Let_def time_add_def)

lemma time_sub_less: "0 \<le> t - u \<Longrightarrow> t - u < d \<Longrightarrow> time_sub t u < d"
  by (simp add: time_sub_def sat64_def)

lemma time_sub_ge: "u + d \<le> t \<Longrightarrow> d < 2 ^ 63 \<Longrightarrow> d \<le> time_sub t u"
  by (auto simp: time_sub_def sat64_def)

abbreviation failures :: "string \<Rightarrow> time list \<Rightarrow> login list" where
  "failures ip ts \<equiv> map (\<lambda>now. (ip, False, now)) ts"

definition counted :: "policy \<Rightarrow> int \<Rightarrow> time list \<Rightarrow> duration list" where
  \<comment> \<open>the answers to failures, given how many of the window are still let through\<close>
  "counted p left ts = (if ts \<noteq> [] \<and> int (length ts) = left then replicate (length ts - 1) 0 @ [pol_block p]
     else replicate (length ts) 0)"

lemma counted_Cons: "ts \<noteq> [] \<Longrightarrow> counted p left (now # ts) = 0 # counted p (left - 1) ts"
  by (cases ts) (auto simp: counted_def)

lemma tab_run_counting:
  assumes "lookup_ip (ip_key ip) t = Some e" "af_blockedUntil e = 0"
    and "\<forall>now \<in> set ts. 0 \<le> now \<and> af_windowStart e \<le> now \<and> now < af_windowStart e + pol_window p"
    and "int (length ts) \<le> pol_attempts p - af_count e"
  shows "\<exists>t' e'. tab_run p (failures ip ts) t = (t', counted p (pol_attempts p - af_count e) ts)
    \<and> lookup_ip (ip_key ip) t' = Some e'
    \<and> (if ts \<noteq> [] \<and> int (length ts) = pol_attempts p - af_count e then af_blockedUntil e' = last ts + pol_block p
       else af_blockedUntil e' = 0 \<and> af_windowStart e' = af_windowStart e)"
  using assms
proof (induction ts arbitrary: t e)
  case Nil
  then show ?case by (simp add: counted_def)
next
  case (Cons now ts)
  have ip: "af_ip e = ip_key ip" using lookup_ip_mem [OF Cons.prems(1)] by simp
  have same: "restart_window (pol_window p) now e = e"
    using Cons.prems(2,3) time_sub_less [of now "af_windowStart e" "pol_window p"]
    by (auto simp: restart_window_def)
  show ?case
  proof (cases "ts = []")
    case True
    with Cons.prems same ip show ?thesis
      by (auto simp: tab_attempt_def tab_fail_def count_failure_value case_prod_beta counted_def)
  next
    case False
    let ?e = "e\<lparr>af_count := af_count e + 1\<rparr>"
    have step: "tab_attempt p (ip_key ip) False now t = (others (ip_key ip) t @ [?e], 0)"
      using Cons.prems same False by (cases ts) (simp_all add: tab_attempt_def tab_fail_def count_failure_value)
    have "\<exists>t' e'. tab_run p (failures ip ts) (others (ip_key ip) t @ [?e]) = (t', counted p (pol_attempts p - af_count ?e) ts)
        \<and> lookup_ip (ip_key ip) t' = Some e'
        \<and> (if ts \<noteq> [] \<and> int (length ts) = pol_attempts p - af_count ?e then af_blockedUntil e' = last ts + pol_block p
           else af_blockedUntil e' = 0 \<and> af_windowStart e' = af_windowStart ?e)"
      by (rule Cons.IH) (use Cons.prems ip in auto)
    with step False show ?thesis by (auto simp: counted_Cons algebra_simps split: if_splits)
  qed
qed

text \<open>A failure that starts a window: without a record, or with one that is over.\<close>

definition window_over :: "policy \<Rightarrow> string \<Rightarrow> auth_failure list \<Rightarrow> time \<Rightarrow> bool" where
  "window_over p ip t now \<longleftrightarrow>
     (case lookup_ip ip t of
        None \<Rightarrow> True
      | Some e \<Rightarrow> af_blockedUntil e \<le> now \<and> (af_blockedUntil e = 0 \<longrightarrow> pol_window p \<le> time_sub now (af_windowStart e)))"

lemma tab_attempt_starts:
  assumes "window_over p ip t now"
  shows "\<exists>t0. tab_attempt p ip False now t =
      (t0 @ [fst (tab_fail p now \<lparr>af_ip = ip, af_count = 0, af_windowStart = now, af_blockedUntil = 0\<rparr>)],
       snd (tab_fail p now \<lparr>af_ip = ip, af_count = 0, af_windowStart = now, af_blockedUntil = 0\<rparr>))
    \<and> ip \<notin> af_ip ` set t0"
proof (cases "lookup_ip ip t")
  case None
  let ?room = "if int (length t) \<ge> pol_ips p then tl t else t"
  have "ip \<notin> af_ip ` set ?room" using None by (cases t) (auto simp: lookup_ip_None)
  with None show ?thesis by (intro exI [of _ ?room]) (simp add: tab_attempt_def case_prod_beta Let_def)
next
  case (Some e)
  with assms lookup_ip_mem [OF Some]
  have "restart_window (pol_window p) now e = \<lparr>af_ip = ip, af_count = 0, af_windowStart = now, af_blockedUntil = 0\<rparr>"
    "\<not> now < af_blockedUntil e"
    by (auto simp: window_over_def restart_window_def)
  with Some show ?thesis by (intro exI [of _ "others ip t"]) (auto simp: tab_attempt_def case_prod_beta)
qed

definition one_window :: "policy \<Rightarrow> time list \<Rightarrow> bool" where
  \<comment> \<open>failures in one window, not more than the threshold\<close>
  "one_window p ts \<longleftrightarrow> ts \<noteq> [] \<and> int (length ts) \<le> pol_attempts p \<and> 0 \<le> hd ts
     \<and> (\<forall>now \<in> set ts. hd ts \<le> now \<and> now < hd ts + pol_window p)"

definition window_end :: "policy \<Rightarrow> time list \<Rightarrow> time" where
  \<comment> \<open>the end of the block, or of the window if there is none\<close>
  "window_end p ts = (if int (length ts) = pol_attempts p then last ts + pol_block p else hd ts + pol_window p)"

fun windows :: "policy \<Rightarrow> time list list \<Rightarrow> bool" where
  "windows p [] = True"
| "windows p [ts] = one_window p ts"
| "windows p (ts # us # rest) = (one_window p ts \<and> window_end p ts \<le> hd us \<and> windows p (us # rest))"

lemma tab_run_append:
  "tab_run p (xs @ ys) t = (let (t1, ds) = tab_run p xs t; (t2, es) = tab_run p ys t1 in (t2, ds @ es))"
proof (induction xs arbitrary: t)
  case (Cons x xs)
  then show ?case by (cases x) (simp add: case_prod_beta Let_def)
qed simp

lemma tab_run_window:
  assumes "policy_ok p" "window_over p (ip_key ip) t (hd ts)" "one_window p ts" "pol_window p < 2 ^ 63"
  shows "\<exists>t'. tab_run p (failures ip ts) t = (t', counted p (pol_attempts p) ts)
    \<and> (\<forall>now \<ge> window_end p ts. window_over p (ip_key ip) t' now)"
proof -
  obtain now us where ts: "ts = now # us" using assms(3) by (cases ts) (simp_all add: one_window_def)
  let ?new = "\<lparr>af_ip = ip_key ip, af_count = 0, af_windowStart = now, af_blockedUntil = 0\<rparr>"
  obtain t0 where t0: "tab_attempt p (ip_key ip) False now t = (t0 @ [fst (tab_fail p now ?new)], snd (tab_fail p now ?new))"
    "ip_key ip \<notin> af_ip ` set t0"
    using tab_attempt_starts [of p "ip_key ip" t now] assms(2) ts by auto
  have look: "af_ip e = ip_key ip \<Longrightarrow> lookup_ip (ip_key ip) (t0 @ [e]) = Some e" for e
    by (rule lookup_last [OF t0(2)])
  have pos: "0 < pol_block p" "0 < pol_window p" "0 \<le> now" "0 \<le> last ts"
    using assms(1,3) ts by (auto simp: policy_ok_def one_window_def split: if_splits dest!: last_in_set)
  show ?thesis
  proof (cases "us = []")
    case True
    with ts t0(1) look pos assms(3,4) show ?thesis
      by (auto simp: tab_fail_def count_failure_value counted_def one_window_def window_over_def window_end_def
          intro!: time_sub_ge)
  next
    case False
    let ?e = "?new\<lparr>af_count := 1\<rparr>"
    have one: "tab_attempt p (ip_key ip) False now t = (t0 @ [?e], 0)"
      using t0(1) False assms(3) ts by (cases us) (auto simp: tab_fail_def count_failure_value one_window_def)
    obtain t' e' where r: "tab_run p (failures ip us) (t0 @ [?e]) = (t', counted p (pol_attempts p - 1) us)"
        "lookup_ip (ip_key ip) t' = Some e'"
        "if us \<noteq> [] \<and> int (length us) = pol_attempts p - 1 then af_blockedUntil e' = last us + pol_block p
         else af_blockedUntil e' = 0 \<and> af_windowStart e' = now"
    proof -
      have "\<forall>u \<in> set us. 0 \<le> u \<and> now \<le> u \<and> u < now + pol_window p" "int (length us) \<le> pol_attempts p - 1"
        using assms(3) ts by (auto simp: one_window_def)
      with tab_run_counting [OF look [of ?e], of us p] that show ?thesis by auto
    qed
    have "window_over p (ip_key ip) t' u" if "window_end p ts \<le> u" for u
      using that r(2,3) False ts pos assms(4)
      by (auto simp: window_over_def window_end_def intro!: time_sub_ge split: if_splits)
    with one r(1) ts False show ?thesis by (auto simp: counted_Cons)
  qed
qed

lemma tab_run_windows:
  assumes "policy_ok p" "pol_window p < 2 ^ 63" "windows p wss" "wss \<noteq> [] \<Longrightarrow> window_over p (ip_key ip) t (hd (hd wss))"
  shows "snd (tab_run p (failures ip (concat wss)) t) = concat (map (counted p (pol_attempts p)) wss)"
  using assms(3,4)
proof (induction wss arbitrary: t)
  case (Cons ts wss)
  have w: "one_window p ts" "windows p wss" using Cons.prems(1) by (cases wss; simp)+
  obtain t' where t': "tab_run p (failures ip ts) t = (t', counted p (pol_attempts p) ts)"
    "\<forall>now \<ge> window_end p ts. window_over p (ip_key ip) t' now"
    using tab_run_window [OF assms(1) _ w(1) assms(2), of ip t] Cons.prems(2) by auto
  have "snd (tab_run p (failures ip (concat wss)) t') = concat (map (counted p (pol_attempts p)) wss)"
    by (rule Cons.IH [OF w(2)]) (use t'(2) Cons.prems(1) in \<open>cases wss; simp\<close>)
  with t'(1) show ?case by (simp add: tab_run_append case_prod_beta Let_def)
qed simp

text \<open>C18. The threshold is exact, over any number of windows. The failures of an address that has no
  record are grouped into windows: \<open>failure_window\<close> from the first failure of a window on, with at
  most \<open>max_failed_attempts\<close> failures in it; the next window begins after that time, or, when the
  threshold was reached, after the block. Then every failure is let through except the
  \<open>max_failed_attempts\<close>-th of a window, which starts a block of exactly \<open>block_duration\<close>: failures
  never add up over two windows, and after a block the count begins anew.\<close>
theorem auth_threshold_exact:
  assumes "throttle_ok l" "map_of (al_byIP l) (ip_key ip) = None"
    and "windows (policy_of l) wss" "al_window l < 2 ^ 63"
  shows "map_option snd (auth_run (map (\<lambda>now. (ip, False, now)) (concat wss)) l)
    = Some (concat (map (\<lambda>ts.
        if int (length ts) = al_maxAttempts l then replicate (length ts - 1) 0 @ [al_block l] else replicate (length ts) 0)
        wss))"
proof -
  have l: "al_inv l" "policy_ok (policy_of l)" using assms(1) by (simp_all add: throttle_ok_def)
  have window: "ts \<noteq> []" if "ts \<in> set wss" for ts
    using assms(3) that by (induction "policy_of l" wss rule: windows.induct) (auto simp: one_window_def)
  have "window_over (policy_of l) (ip_key ip) (table l) now" for now
    using lookup_table_None [OF l(1) assms(2)] by (simp add: window_over_def)
  then have "snd (tab_run (policy_of l) (failures ip (concat wss)) (table l))
      = concat (map (counted (policy_of l) (al_maxAttempts l)) wss)"
    using tab_run_windows [OF l(2) _ assms(3)] assms(4) by (simp add: policy_of_def)
  moreover have "map (counted (policy_of l) (al_maxAttempts l)) wss = map (\<lambda>ts.
        if int (length ts) = al_maxAttempts l then replicate (length ts - 1) 0 @ [al_block l] else replicate (length ts) 0) wss"
    using window by (auto simp: counted_def policy_of_def)
  ultimately show ?thesis
    by (rule_tac auth_run_refines [OF l, of "failures ip (concat wss)"]) simp
qed

theorem auth_threshold_exact_witness:
  \<comment> \<open>two failures, and after the window three more, which block\<close>
  "map_option snd (auth_run (map (\<lambda>now. (''1.2.3.4'', False, now)) [100, 110, 300000000100, 300000000110, 300000000120]) sample_limiter)
    = Some ([0, 0, 0, 0, 300000000000])"
proof -
  have "windows (policy_of sample_limiter) [[100, 110], [300000000100, 300000000110, 300000000120]]"
    by (simp add: sample_limiter_def new_auth_limiter_def sample_auth_def default_auth_def policy_of_def
        one_window_def window_end_def)
  from auth_threshold_exact [OF throttle_ok_sample [folded sample_limiter_def] _ this, of "''1.2.3.4''"] show ?thesis
    by (simp add: sample_limiter_def new_auth_limiter_def sample_auth_def default_auth_def)
qed

lemma throttle_hammer_run:
  "throttle.hammer ip xs l = auth_run (map (\<lambda>x. (ip, fst x, snd x)) xs) l"
  by (induction xs arbitrary: l) (auto split: option.split)

text \<open>Even valid credentials are refused during a block: every attempt of a blocked address
  returns exactly the time that remains, and none of them, however many, moves the end of the
  block.\<close>
theorem blocked_address_refused:
  assumes "throttle_ok l" "\<forall>x \<in> set xs. 0 \<le> snd x \<and> snd x < blocked_until l ip"
  shows "\<exists>l'. auth_run (map (\<lambda>x. (ip, fst x, snd x)) xs) l
      = Some (l', map (\<lambda>x. time_sub (blocked_until l ip) (snd x)) xs)
    \<and> blocked_until l' ip = blocked_until l ip"
  using throttle.hammer_refused [OF assms] by (auto simp: throttle_hammer_run)

definition blocked_limiter :: auth_limiter where
  "blocked_limiter = fst (the (auth_run (map (\<lambda>now. (''1.2.3.4'', False, now)) [100, 110, 120]) sample_limiter))"

lemma throttle_ok_blocked: "throttle_ok blocked_limiter"
  unfolding blocked_limiter_def
  by (rule throttle_ok_run [OF throttle_ok_sample, of "map (\<lambda>now. (''1.2.3.4'', False, now)) [100, 110, 120]"])
     (auto simp: login_time_def)

lemma blocked_until_sample: "blocked_until blocked_limiter ''1.2.3.4'' = 300000000120"
  by code_simp

theorem blocked_address_refused_witness:
  "\<exists>l'. auth_run [(''1.2.3.4'', True, 130), (''1.2.3.4'', False, 140)] blocked_limiter
    = Some (l', [299999999990, 299999999980])"
  using blocked_address_refused [of blocked_limiter "[(True, 130), (False, 140)]" "''1.2.3.4''",
      OF throttle_ok_blocked]
  by (auto simp: blocked_until_sample time_sub_def sat64_def)

lemma tab_attempt_last:
  assumes "0 < snd (tab_attempt p ip valid now t)"
  obtains t0 e where "fst (tab_attempt p ip valid now t) = t0 @ [e]" "af_ip e = ip"
proof -
  have "\<exists>t0 e. fst (tab_attempt p ip valid now t) = t0 @ [e] \<and> af_ip e = ip"
    using assms lookup_ip_mem [of ip t]
    by (auto simp: tab_attempt_def case_prod_beta Let_def split: option.splits if_splits)
  then show ?thesis using that by blast
qed

text \<open>C17. A block survives eviction: after an attempt that left its address blocked, logins of
  fewer than \<open>max_tracked_ips\<close> other addresses, in any number and order, cannot evict the record,
  and the address is still refused until the block's own end.\<close>
theorem block_survives_eviction:
  assumes "throttle_ok l" "0 \<le> now" "attempt ip v now l = Some (l1, d)" "0 < d"
    and "\<forall>x \<in> set xs. 0 \<le> login_time x \<and> ip_key (fst x) \<noteq> ip_key ip"
    and "int (card (set (map (\<lambda>x. ip_key (fst x)) xs))) < al_maxIPs l"
    and "0 \<le> now'" "now' < blocked_until l1 ip"
  shows "\<exists>l2 ds l3. auth_run xs l1 = Some (l2, ds)
    \<and> attempt ip v' now' l2 = Some (l3, time_sub (blocked_until l1 ip) now')"
proof -
  let ?S = "set (map (\<lambda>x. ip_key (fst x)) xs)"
  have l1: "throttle_ok l1" "policy_of l1 = policy_of l"
    "tab_attempt (policy_of l) (ip_key ip) v now (table l) = (table l1, d)"
    by (rule throttle_ok_attempt [OF assms(1,2), of ip v]; use assms(3) in simp)+
  obtain t0 e where e: "table l1 = t0 @ [e]" "af_ip e = ip_key ip"
    using tab_attempt_last [of "policy_of l" "ip_key ip" v now "table l"] l1(3) assms(4) by auto
  then have keep: "keeps ?S e (table l1)" unfolding keeps_def by force
  have pol: "policy_ok (policy_of l1)" "tab_ok (policy_of l1) (table l1)" "pol_ips (policy_of l1) = al_maxIPs l"
    using l1 by (simp_all add: throttle_ok_def) (simp add: policy_of_def)
  obtain l2 ds where l2: "auth_run xs l1 = Some (l2, ds)" "throttle_ok l2" "policy_of l2 = policy_of l1"
    "tab_run (policy_of l1) xs (table l1) = (table l2, ds)"
    by (rule throttle_ok_run [OF l1(1), of xs]) (use assms(5) in blast)
  have "keeps ?S e (table l2)"
    using tab_run_keeps [OF pol(1,2) keep, of xs] assms(5,6) pol(3) e(2) l2(4) by simp
  then have "lookup_ip (ip_key ip) (table l2) = Some e"
    using keeps_lookup [of "policy_of l2" "table l2" ?S e] l2(2) e(2) by (simp add: throttle_ok_def)
  moreover have "lookup_ip (ip_key ip) (table l1) = Some e"
    using keeps_lookup [OF pol(2) keep] e(2) by simp
  ultimately have same: "blocked_until l2 ip = blocked_until l1 ip"
    by (simp add: blocked_until_def tab_until_def)
  obtain l3 d3 where "attempt ip v' now' l2 = Some (l3, d3)"
    using throttle.total [OF l2(2) assms(7)] by blast
  with l2 same throttle.refused [OF l2(2) assms(7) _ this] assms(8) show ?thesis by simp
qed

theorem block_survives_eviction_witness:
  "\<exists>l2 ds l3. auth_run [(''5.6.7.8'', False, 130), (''5.6.7.8'', True, 140)]
      (fst (the (attempt ''1.2.3.4'' True 125 blocked_limiter))) = Some (l2, ds)
    \<and> attempt ''1.2.3.4'' True 150 l2 = Some (l3, 299999999970)"
proof -
  let ?l1 = "fst (the (attempt ''1.2.3.4'' True 125 blocked_limiter))"
  have "attempt ''1.2.3.4'' True 125 blocked_limiter = Some (?l1, 299999999995)
      \<and> blocked_until ?l1 ''1.2.3.4'' = 300000000120"
    using throttle.total [OF throttle_ok_blocked, of 125 "''1.2.3.4''" True]
      throttle.refused [OF throttle_ok_blocked, of 125 "''1.2.3.4''" True]
    by (auto simp: blocked_until_sample time_sub_def sat64_def)
  moreover have "al_maxIPs blocked_limiter = 2" by code_simp
  ultimately show ?thesis
    using block_survives_eviction [OF throttle_ok_blocked, of 125 "''1.2.3.4''" True ?l1 299999999995
        "[(''5.6.7.8'', False, 130), (''5.6.7.8'', True, 140)]" 150 True]
    by (simp add: login_time_def ip_key_def time_sub_def sat64_def)
qed

lemma lookup_filter_other: "ip \<noteq> ip' \<Longrightarrow> lookup_ip ip' (others ip t) = lookup_ip ip' t"
  by (induction t) (auto simp: lookup_ip_def others_def)

text \<open>Good credentials outside a block clear the address: no time is imposed, its record and
  with it all earlier failures are gone, and no other address is affected.\<close>
theorem valid_login_clears:
  assumes "throttle_ok l" "0 \<le> now" "\<not> now < blocked_until l ip"
  shows "\<exists>l'. attempt ip True now l = Some (l', 0) \<and> throttle_ok l'
    \<and> map_of (al_byIP l') (ip_key ip) = None
    \<and> (\<forall>ip'. ip_key ip' \<noteq> ip_key ip \<longrightarrow> lookup_ip (ip_key ip') (table l') = lookup_ip (ip_key ip') (table l))"
proof -
  obtain l' d where l': "attempt ip True now l = Some (l', d)" "throttle_ok l'"
    "tab_attempt (policy_of l) (ip_key ip) True now (table l) = (table l', d)"
    by (rule throttle_ok_attempt [OF assms(1,2), of ip True])
  have d: "d = 0 \<and> lookup_ip (ip_key ip) (table l') = None"
    using tab_attempt_valid [OF assms(3) [unfolded blocked_until_def] assms(2), of "policy_of l"] l'(3) by simp
  then have "map_of (al_byIP l') (ip_key ip) = None"
    using l'(2) lookup_table_Some [of l' "ip_key ip"]
    by (cases "map_of (al_byIP l') (ip_key ip)") (auto simp: throttle_ok_def)
  moreover have "table l' = (if lookup_ip (ip_key ip) (table l) = None then table l else others (ip_key ip) (table l))"
    using l'(3) assms(3) by (auto simp: tab_attempt_def blocked_until_def tab_until_def split: option.splits)
  ultimately show ?thesis using l' d by (auto simp: lookup_filter_other)
qed

theorem valid_login_clears_witness:
  "\<exists>l'. attempt ''1.2.3.4'' True 300000000120 blocked_limiter = Some (l', 0)
    \<and> map_of (al_byIP l') ''1.2.3.4'' = None"
  using valid_login_clears [OF throttle_ok_blocked, of 300000000120 "''1.2.3.4''"]
  by (auto simp: blocked_until_sample ip_key_def)

end
