(* ===== verification/Headers.thy ===== *)
theory Headers
  imports GoCodec
begin

text \<open>
  \<open>net/http.Header\<close> as the program uses it, and \<open>internal/proxy/headers.go\<close>: the removal of
  hop-by-hop headers before a message is forwarded. A header is a map from canonical names to
  value lists; \<open>header.Values\<close> hands out the list, which \<open>Del\<close> does not change.
\<close>

type_synonym header = "string \<rightharpoonup> string list"

definition header_values :: "header \<Rightarrow> string \<Rightarrow> string list" where
  "header_values h key = (case h (canonical_key key) of None \<Rightarrow> [] | Some vs \<Rightarrow> vs)"

definition header_get :: "header \<Rightarrow> string \<Rightarrow> string" where
  "header_get h key = (case header_values h key of [] \<Rightarrow> [] | v # _ \<Rightarrow> v)"

definition header_set :: "string \<Rightarrow> string \<Rightarrow> header \<Rightarrow> header" where
  "header_set key v h = h(canonical_key key \<mapsto> [v])"

definition header_add :: "string \<Rightarrow> string \<Rightarrow> header \<Rightarrow> header" where
  "header_add key v h = h(canonical_key key \<mapsto> header_values h key @ [v])"

definition header_del :: "string \<Rightarrow> header \<Rightarrow> header" where
  "header_del key h = h(canonical_key key := None)"

subsection \<open>Hop-by-hop headers\<close>

definition hop_headers :: "string list" where
  "hop_headers =
     [''Connection'', ''Keep-Alive'', ''Proxy-Authenticate'', ''Proxy-Authorization'',
      ''Proxy-Connection'', ''TE'', ''Trailer'', ''Transfer-Encoding'', ''Upgrade'']"

definition field_tokens :: "header \<Rightarrow> string \<Rightarrow> string list" where
  \<comment> \<open>the names the values of a field list, in the order the loops visit them\<close>
  "field_tokens h field =
     filter (\<lambda>name. name \<noteq> [])
       (map trim_space (concat (map (split_on CHR '','') (header_values h field))))"

definition remove_field_tokens :: "string \<Rightarrow> header \<Rightarrow> header" where
  "remove_field_tokens field h = fold header_del (field_tokens h field) h"

definition remove_hop_headers :: "header \<Rightarrow> header" where
  "remove_hop_headers h =
     fold header_del hop_headers
       (fold remove_field_tokens [''Connection'', ''Proxy-Connection''] h)"

subsection \<open>Lemmas\<close>

lemma header_get_set [simp]: "header_get (header_set k v h) k = v"
  by (simp add: header_get_def header_values_def header_set_def)

lemma header_values_set [simp]: "header_values (header_set k v h) k = [v]"
  by (simp add: header_values_def header_set_def)

lemma header_values_set_other [simp]:
  "canonical_key k \<noteq> canonical_key k' \<Longrightarrow> header_values (header_set k v h) k' = header_values h k'"
  by (simp add: header_values_def header_set_def)

lemma header_get_set_other [simp]:
  "canonical_key k \<noteq> canonical_key k' \<Longrightarrow> header_get (header_set k v h) k' = header_get h k'"
  by (simp add: header_get_def)

lemma fold_header_del:
  "fold header_del names h k = (if k \<in> canonical_key ` set names then None else h k)"
  by (induction names arbitrary: h) (auto simp: header_del_def)

lemma canonical_Connection [simp]:
  "canonical_key ''Connection'' = ''Connection''" "canonical_key ''Proxy-Connection'' = ''Proxy-Connection''"
  by code_simp+

text \<open>The names a message nominates for removal.\<close>

definition nominated :: "header \<Rightarrow> string \<Rightarrow> string set" where
  "nominated h field = canonical_key ` set (field_tokens h field)"

lemma remove_field_tokens_apply:
  "remove_field_tokens field h k = (if k \<in> nominated h field then None else h k)"
  by (simp add: remove_field_tokens_def fold_header_del nominated_def)

lemma nominated_cong: "header_values h field = header_values h' field \<Longrightarrow> nominated h field = nominated h' field"
  by (simp add: nominated_def field_tokens_def)

lemma nominated_missing: "header_values h field = [] \<Longrightarrow> nominated h field = {}"
  by (simp add: nominated_def field_tokens_def)

lemma nominated_removed:
  "nominated (remove_field_tokens ''Connection'' h) ''Proxy-Connection'' =
     (if ''Proxy-Connection'' \<in> nominated h ''Connection'' then {} else nominated h ''Proxy-Connection'')"
proof (cases "''Proxy-Connection'' \<in> nominated h ''Connection''")
  case True
  then show ?thesis by (simp add: nominated_missing header_values_def remove_field_tokens_apply)
next
  case False
  then have "header_values (remove_field_tokens ''Connection'' h) ''Proxy-Connection'' = header_values h ''Proxy-Connection''"
    by (simp add: header_values_def remove_field_tokens_apply)
  then have "nominated (remove_field_tokens ''Connection'' h) ''Proxy-Connection'' = nominated h ''Proxy-Connection''"
    by (rule nominated_cong)
  with False show ?thesis by simp
qed

lemma remove_hop_headers_apply:
  "remove_hop_headers h k =
     (if k \<in> canonical_key ` set hop_headers \<or> k \<in> nominated h ''Connection''
         \<or> (''Proxy-Connection'' \<notin> nominated h ''Connection'' \<and> k \<in> nominated h ''Proxy-Connection'')
      then None else h k)"
  by (auto simp: remove_hop_headers_def fold_header_del remove_field_tokens_apply nominated_removed)

subsection \<open>Properties\<close>

definition names_field :: "header \<Rightarrow> string \<Rightarrow> string \<Rightarrow> bool" where
  \<comment> \<open>a value of \<open>field\<close> has, between commas and up to white space around it, a name of the field \<open>k\<close>\<close>
  "names_field h field k \<longleftrightarrow>
     (\<exists>v \<in> set (header_values h field). \<exists>a part b. v = a @ part @ b
        \<and> (a = [] \<or> last a = CHR '','') \<and> (b = [] \<or> hd b = CHR '','') \<and> CHR '','' \<notin> set part
        \<and> trim_space part \<noteq> [] \<and> canonical_key (trim_space part) = k)"

lemma nominated_names_field: "k \<in> nominated h field \<longleftrightarrow> names_field h field k"
proof -
  have "k \<in> nominated h field \<longleftrightarrow>
      (\<exists>v \<in> set (header_values h field). \<exists>part \<in> set (split_on CHR '','' v).
         trim_space part \<noteq> [] \<and> canonical_key (trim_space part) = k)"
    unfolding nominated_def field_tokens_def by force
  then show ?thesis unfolding names_field_def Bex_def split_on_mem by blast
qed

lemma hop_header_keys:
  "canonical_key ` set hop_headers =
     {''Connection'', ''Keep-Alive'', ''Proxy-Authenticate'', ''Proxy-Authorization'', ''Proxy-Connection'',
      ''Te'', ''Trailer'', ''Transfer-Encoding'', ''Upgrade''}"
proof -
  have "map canonical_key hop_headers =
     [''Connection'', ''Keep-Alive'', ''Proxy-Authenticate'', ''Proxy-Authorization'', ''Proxy-Connection'',
      ''Te'', ''Trailer'', ''Transfer-Encoding'', ''Upgrade'']" by code_simp
  then show ?thesis unfolding set_map [symmetric] by simp
qed

text \<open>C29. The removal of hop-by-hop headers is exact: a field is dropped iff it is one of the nine
  hop-by-hop fields, or is named, between commas and with any white space around, by a value of
  \<open>Connection\<close>, or is so named by \<open>Proxy-Connection\<close> and \<open>Connection\<close> does not name
  \<open>Proxy-Connection\<close> itself: then that field is gone before it is looked at, and what it names is
  kept. Every other field keeps its values.\<close>
theorem remove_hop_headers_exact:
  "remove_hop_headers h k =
     (if k \<in> {''Connection'', ''Keep-Alive'', ''Proxy-Authenticate'', ''Proxy-Authorization'', ''Proxy-Connection'',
              ''Te'', ''Trailer'', ''Transfer-Encoding'', ''Upgrade''}
         \<or> names_field h ''Connection'' k
         \<or> (names_field h ''Proxy-Connection'' k \<and> \<not> names_field h ''Connection'' ''Proxy-Connection'')
      then None else h k)"
  unfolding remove_hop_headers_apply hop_header_keys nominated_names_field by (rule if_cong) auto

text \<open>Nothing connection-specific is forwarded: afterwards no hop-by-hop field is left, in
  particular no proxy credentials, and a second removal changes nothing.\<close>
theorem no_hop_header_left:
  "list_all (\<lambda>name. header_values (remove_hop_headers h) name = []) hop_headers
   \<and> header_get (remove_hop_headers h) ''Proxy-Authorization'' = []
   \<and> remove_hop_headers (remove_hop_headers h) = remove_hop_headers h"
proof (intro conjI)
  have gone: "k \<in> canonical_key ` set hop_headers \<Longrightarrow> remove_hop_headers h k = None" for k
    by (simp add: remove_hop_headers_def fold_header_del)
  then show "list_all (\<lambda>name. header_values (remove_hop_headers h) name = []) hop_headers"
    by (auto simp: header_values_def list_all_iff)
  show "header_get (remove_hop_headers h) ''Proxy-Authorization'' = []"
    using gone [of "canonical_key ''Proxy-Authorization''"]
    by (simp add: header_get_def header_values_def hop_headers_def)
  have "remove_hop_headers h ''Connection'' = None" "remove_hop_headers h ''Proxy-Connection'' = None"
    using gone [of "canonical_key ''Connection''"] gone [of "canonical_key ''Proxy-Connection''"]
    by (simp_all add: hop_headers_def)
  then have "nominated (remove_hop_headers h) ''Connection'' = {}"
    "nominated (remove_hop_headers h) ''Proxy-Connection'' = {}"
    by (simp_all add: nominated_missing header_values_def)
  with gone show "remove_hop_headers (remove_hop_headers h) = remove_hop_headers h"
    by (intro ext) (auto simp: remove_hop_headers_def fold_header_del remove_field_tokens_apply nominated_removed)
qed

end
