(* ===== verification/Auth.thy ===== *)
theory Auth
  imports Headers GoSha256 Validate
begin

text \<open>
  \<open>internal/proxy/auth.go\<close>: \<open>isAuthorized\<close>, the check of the \<open>Proxy-Authorization\<close> header of a
  request against the configured user name and password.
\<close>

definition is_authorized :: "auth_config \<Rightarrow> header \<Rightarrow> bool" where
  "is_authorized auth h =
     (let header = header_get h ''Proxy-Authorization'' in
      if length header < 6 \<or> \<not> equal_fold (take 6 header) ''Basic '' then False
      else case base64_decode (drop 6 header) of
        None \<Rightarrow> False
      | Some decoded \<Rightarrow>
          (case cut CHR '':'' decoded of
             None \<Rightarrow> False
           | Some (username, password) \<Rightarrow>
               (let userOK = constant_time_compare (sha256 (auth_Username auth)) (sha256 username);
                    passwordOK = constant_time_compare (sha256 (auth_Password auth)) (sha256 password)
                in userOK = 1 \<and> passwordOK = 1)))"

definition basic_credentials :: "string \<Rightarrow> string \<Rightarrow> string" where
  \<comment> \<open>what a client sends: RFC 7617\<close>
  "basic_credentials user pass = ''Basic '' @ base64_encode (user @ CHR '':'' # pass)"

lemma equal_fold_Basic [simp]: "equal_fold ''Basic '' ''Basic ''"
  by (rule equal_fold_refl_ascii) simp

lemma is_authorized_basic:
  assumes "header_get h ''Proxy-Authorization'' = basic_credentials u p" "CHR '':'' \<notin> set u"
  shows "is_authorized auth h \<longleftrightarrow>
     sha256 u = sha256 (auth_Username auth) \<and> sha256 p = sha256 (auth_Password auth)"
  using assms
  by (auto simp: is_authorized_def basic_credentials_def constant_time_compare_def Let_def)

text \<open>C30. Under a validated configuration a client that presents \<open>user:password\<close> in a
  \<open>Basic\<close> header is let in exactly when both digests match the configured ones; the configured
  credentials are always let in.\<close>
theorem basic_login_exact:
  assumes "check_auth auth = None" "auth_Enabled auth" "CHR '':'' \<notin> set u"
    and "header_get h ''Proxy-Authorization'' = basic_credentials u p"
  shows "(is_authorized auth h \<longleftrightarrow>
      sha256 u = sha256 (auth_Username auth) \<and> sha256 p = sha256 (auth_Password auth))
    \<and> is_authorized auth (header_set ''Proxy-Authorization''
        (basic_credentials (auth_Username auth) (auth_Password auth)) h)"
proof -
  have "CHR '':'' \<notin> set (auth_Username auth)"
    using check_auth_None(7) [OF assms(1,2)] by simp
  then show ?thesis
    using is_authorized_basic [OF assms(4,3)] by (simp add: is_authorized_basic)
qed

theorem basic_login_exact_witness:
  "is_authorized (default_auth\<lparr>auth_Enabled := True, auth_Username := ''u'', auth_Password := ''p''\<rparr>)
     (header_set ''Proxy-Authorization'' ''Basic dTpw'' Map.empty)"
proof -
  let ?a = "default_auth\<lparr>auth_Enabled := True, auth_Username := ''u'', auth_Password := ''p''\<rparr>"
  have "basic_credentials ''u'' ''p'' = ''Basic dTpw''" by code_simp
  moreover have "check_auth ?a = None" by (simp add: check_auth_def default_auth_def contains_any_def)
  ultimately show ?thesis
    using basic_login_exact [of ?a "''u''" "header_set ''Proxy-Authorization'' ''Basic dTpw'' Map.empty" "''p''"]
    by simp
qed

text \<open>Nobody is let in without the credentials: an authorized request carries, after the
  scheme \<open>Basic\<close> in any case and one space, base64 text that decodes to a user name, a colon and a
  password whose digests are the configured ones.\<close>
theorem authorized_only_with_credentials:
  assumes "is_authorized auth h"
  shows "\<exists>scheme cred u p. header_get h ''Proxy-Authorization'' = scheme @ cred
    \<and> equal_fold scheme ''Basic '' \<and> length scheme = 6
    \<and> base64_decode cred = Some (u @ CHR '':'' # p) \<and> CHR '':'' \<notin> set u
    \<and> sha256 u = sha256 (auth_Username auth) \<and> sha256 p = sha256 (auth_Password auth)"
proof -
  let ?header = "header_get h ''Proxy-Authorization''"
  obtain u p where *: "equal_fold (take 6 ?header) ''Basic ''" "6 \<le> length ?header"
    "base64_decode (drop 6 ?header) = Some (u @ CHR '':'' # p)" "CHR '':'' \<notin> set u"
    "sha256 u = sha256 (auth_Username auth)" "sha256 p = sha256 (auth_Password auth)"
    using assms
    by (auto simp: is_authorized_def Let_def constant_time_compare_def cut_Some_iff
        split: if_splits option.splits)
  show ?thesis
    by (rule exI [of _ "take 6 ?header"], rule exI [of _ "drop 6 ?header"], rule exI [of _ u], rule exI [of _ p])
       (use * in simp)
qed

theorem authorized_only_with_credentials_witness:
  "\<exists>scheme cred u p. ''bAsIc dTpw'' = scheme @ cred \<and> equal_fold scheme ''Basic '' \<and> length scheme = 6
    \<and> base64_decode cred = Some (u @ CHR '':'' # p) \<and> CHR '':'' \<notin> set u \<and> sha256 u = sha256 ''u'' \<and> sha256 p = sha256 ''p''"
proof -
  let ?h = "header_set ''Proxy-Authorization'' ''bAsIc dTpw'' Map.empty"
  let ?a = "default_auth\<lparr>auth_Username := ''u'', auth_Password := ''p''\<rparr>"
  have "base64_decode ''dTpw'' = Some ''u:p''" "equal_fold ''bAsIc '' ''Basic ''" by code_simp+
  then have "is_authorized ?a ?h"
    by (simp add: is_authorized_def constant_time_compare_def Let_def)
  from authorized_only_with_credentials [OF this] show ?thesis by simp
qed

end
