(* ===== verification/Socks.thy ===== *)
theory Socks
  imports Validate
begin

text \<open>
  \<open>internal/socks/socks.go\<close>: the SOCKS4/SOCKS4a and SOCKS5 client. A connection is a record of
  the bytes its peer will send, the error that follows them, the bytes written so far, and a
  script of the results of the coming \<open>Write\<close> calls (past its end every write is complete). The
  operations thread the connection through an error and state monad, \<open>bind_io\<close>; every early
  return of the source is a \<open>fail_io\<close> branch.

  The specification is the proxy's side of the protocols: \<open>socks4_server\<close> and \<open>socks5_server\<close>
  parse what the client has written.
\<close>

subsection \<open>Connections\<close>

datatype io_error = EOF | UnexpectedEOF | NetError
datatype ctx_error = Canceled | DeadlineExceeded

datatype socks_error =
    BadScheme | BadTimeout | BadNetwork | BadDestination | BadDestinationPort
  | UnsupportedDestination | UserIDPassword | DialFailed | DeadlineFailed | CtxDone ctx_error
  | BadUserID | Rejected4 byte
  | BadSocksCredentials | MethodRejected | AuthRejected | BadReply | BadReplyAddress | Rejected5 byte
  | ReadFailed io_error | WriteFailed | ShortWrite

datatype write_result = Wrote nat | WriteError nat

record conn =
  cn_input :: "byte list"
  cn_end :: io_error
  cn_output :: "byte list"
  cn_writes :: "write_result list"
  cn_deadline :: "time option"
  cn_closed :: bool

type_synonym 'a io = "conn \<Rightarrow> (socks_error + 'a) \<times> conn"

definition return_io :: "'a \<Rightarrow> 'a io" where
  "return_io x c = (Inr x, c)"

definition fail_io :: "socks_error \<Rightarrow> 'a io" where
  "fail_io e c = (Inl e, c)"

definition bind_io :: "'a io \<Rightarrow> ('a \<Rightarrow> 'b io) \<Rightarrow> 'b io" where
  "bind_io m k c = (case m c of (Inl e, c1) \<Rightarrow> (Inl e, c1) | (Inr x, c1) \<Rightarrow> k x c1)"

definition read_full :: "nat \<Rightarrow> byte list io" where
  \<comment> \<open>\<open>io.ReadFull\<close> into a buffer of \<open>n\<close> bytes\<close>
  "read_full n c =
     (let got = take n (cn_input c); c1 = c\<lparr>cn_input := drop n (cn_input c)\<rparr> in
      if length got = n then (Inr got, c1)
      else (Inl (ReadFailed (if got \<noteq> [] \<and> cn_end c = EOF then UnexpectedEOF else cn_end c)), c1))"

definition discard_n :: "nat \<Rightarrow> unit io" where
  \<comment> \<open>\<open>io.CopyN(io.Discard, connection, n)\<close>\<close>
  "discard_n n c =
     (let c1 = c\<lparr>cn_input := drop n (cn_input c)\<rparr> in
      if n \<le> length (cn_input c) then (Inr (), c1) else (Inl (ReadFailed (cn_end c)), c1))"

function write_all :: "byte list \<Rightarrow> unit io" where
  "write_all data c =
     (if data = [] then (Inr (), c)
      else case cn_writes c of
        [] \<Rightarrow> (Inr (), c\<lparr>cn_output := cn_output c @ data\<rparr>)
      | WriteError n # ws \<Rightarrow>
          (Inl WriteFailed, c\<lparr>cn_output := cn_output c @ take n data, cn_writes := ws\<rparr>)
      | Wrote n # ws \<Rightarrow>
          (if n = 0 then (Inl ShortWrite, c\<lparr>cn_writes := ws\<rparr>)
           else write_all (drop n data) (c\<lparr>cn_output := cn_output c @ take n data, cn_writes := ws\<rparr>)))"
  by pat_completeness auto
termination
  by (relation "measure (\<lambda>(data, _). length data)") auto

declare write_all.simps [simp del]

subsection \<open>The SOCKS4 and SOCKS5 conversations\<close>

record credentials =
  cr_Enabled :: bool
  cr_Username :: string
  cr_Password :: string

definition port_bytes :: "16 word \<Rightarrow> byte list" where
  \<comment> \<open>\<open>byte(port >> 8), byte(port)\<close>\<close>
  "port_bytes port = [ucast (drop_bit 8 port), ucast port]"

definition ip_is_ipv6 :: "string \<Rightarrow> bool" where
  "ip_is_ipv6 host = (case parse_ip host of None \<Rightarrow> False | Some a \<Rightarrow> to4 a = None)"

definition address4 :: "string \<Rightarrow> socks_error + byte list" where
  \<comment> \<open>\<open>request[4:8]\<close>; the default marks a SOCKS4a host name\<close>
  "address4 host =
     (case parse_ip host of
        Some a \<Rightarrow>
          (case to4 a of
             None \<Rightarrow> Inl UnsupportedDestination
           | Some ipv4 \<Rightarrow>
               if ipv4 ! 0 = 0 \<and> ipv4 ! 1 = 0 \<and> ipv4 ! 2 = 0 \<and> ipv4 ! 3 \<noteq> 0
               then Inl UnsupportedDestination else Inr ipv4)
      | None \<Rightarrow>
          if host = [] \<or> length host > 255 then Inl UnsupportedDestination else Inr [0, 0, 0, 1])"

definition request4 :: "byte list \<Rightarrow> string \<Rightarrow> 16 word \<Rightarrow> string \<Rightarrow> byte list" where
  "request4 address host port username =
     [4, 1] @ port_bytes port @ address @ map byte_of username @ [0]
     @ (if parse_ip host = None then map byte_of host @ [0] else [])"

definition connect4 :: "string \<Rightarrow> 16 word \<Rightarrow> string \<Rightarrow> unit io" where
  "connect4 host port username =
     (if length username > 255 \<or> CHR 0x00 \<in> set username then fail_io BadUserID
      else case address4 host of
        Inl e \<Rightarrow> fail_io e
      | Inr address \<Rightarrow>
          bind_io (write_all (request4 address host port username)) (\<lambda>_.
          bind_io (read_full 8) (\<lambda>reply.
          if reply ! 0 \<noteq> 0 \<or> reply ! 1 \<noteq> 0x5a then fail_io (Rejected4 (reply ! 1)) else return_io ())))"

definition login5 :: "credentials \<Rightarrow> byte list" where
  "login5 cr =
     (if cr_Enabled cr then
        [1, word_of_nat (length (cr_Username cr))] @ map byte_of (cr_Username cr)
        @ [word_of_nat (length (cr_Password cr))] @ map byte_of (cr_Password cr)
      else [])"

definition authenticate5 :: "credentials \<Rightarrow> unit io" where
  "authenticate5 cr =
     (if cr_Enabled cr then
        bind_io (write_all (login5 cr)) (\<lambda>_.
        bind_io (read_full 2) (\<lambda>response.
        if response \<noteq> [1, 0] then fail_io AuthRejected else return_io ()))
      else return_io ())"

definition request5 :: "string \<Rightarrow> 16 word \<Rightarrow> byte list" where
  "request5 host port =
     [5, 1, 0]
     @ (case parse_ip host of
          Some address \<Rightarrow>
            (case to4 address of
               Some ipv4 \<Rightarrow> [1] @ ipv4
             | None \<Rightarrow> [4] @ address)
        | None \<Rightarrow> [3, word_of_nat (length host)] @ map byte_of host)
     @ port_bytes port"

definition reply_address_length :: "byte \<Rightarrow> nat io" where
  "reply_address_length kind =
     (if kind = 1 then return_io 4
      else if kind = 4 then return_io 16
      else if kind = 3 then bind_io (read_full 1) (\<lambda>length. return_io (unat (length ! 0)))
      else fail_io BadReplyAddress)"

definition read_reply5 :: "unit io" where
  "read_reply5 =
     bind_io (read_full 4) (\<lambda>reply.
     if reply ! 0 \<noteq> 5 \<or> reply ! 2 \<noteq> 0 then fail_io BadReply
     else
       bind_io (reply_address_length (reply ! 3)) (\<lambda>addressLength.
       bind_io (discard_n (addressLength + 2)) (\<lambda>_.
       if reply ! 1 \<noteq> 0 then fail_io (Rejected5 (reply ! 1)) else return_io ())))"

definition bad_credentials5 :: "credentials \<Rightarrow> bool" where
  "bad_credentials5 cr \<longleftrightarrow> cr_Enabled cr \<and>
     (cr_Username cr = [] \<or> length (cr_Username cr) > 255 \<or> cr_Password cr = [] \<or> length (cr_Password cr) > 255)"

definition method5 :: "credentials \<Rightarrow> byte" where
  "method5 cr = (if cr_Enabled cr then 2 else 0)"

definition connect5 :: "string \<Rightarrow> 16 word \<Rightarrow> credentials \<Rightarrow> unit io" where
  "connect5 host port cr =
     (if bad_credentials5 cr then fail_io BadSocksCredentials
      else
        bind_io (write_all [5, 1, method5 cr]) (\<lambda>_.
        bind_io (read_full 2) (\<lambda>selected.
        if selected ! 0 \<noteq> 5 \<or> selected ! 1 \<noteq> method5 cr then fail_io MethodRejected
        else
          bind_io (authenticate5 cr) (\<lambda>_.
          bind_io (write_all (request5 host port)) (\<lambda>_. read_reply5)))))"

subsection \<open>Dialing\<close>

record dial_options =
  do_Network :: string
  do_Timeout :: duration
  do_KeepAlive :: duration

text \<open>
  The outside of one call of \<open>DialContext\<close>: what dialing a network address gives (a fresh
  connection or an error), whether the two \<open>SetDeadline\<close> calls succeed, the clock, and the context:
  its deadline and its error as read after a failed and after a successful conversation. A context
  that ends while the conversation runs closes the connection: the reads and writes then fail by
  \<open>cn_end\<close> and \<open>cn_writes\<close>.
\<close>

record dial_env =
  de_dial :: "string \<Rightarrow> string \<Rightarrow> conn option"
  de_now :: time
  de_ctx_deadline :: "time option"
  de_set_ok :: bool
  de_clear_ok :: bool
  de_ctx_failed :: "ctx_error option"
  de_ctx_done :: "ctx_error option"

definition close_conn :: "conn \<Rightarrow> conn" where
  "close_conn c = c\<lparr>cn_closed := True\<rparr>"

definition dial_deadline :: "dial_env \<Rightarrow> duration \<Rightarrow> time" where
  "dial_deadline env timeout =
     (let deadline = time_add (de_now env) timeout in
      case de_ctx_deadline env of
        Some d \<Rightarrow> if time_before d deadline then d else deadline
      | None \<Rightarrow> deadline)"

definition socks_target :: "string \<Rightarrow> string \<Rightarrow> credentials \<Rightarrow> dial_options \<Rightarrow> socks_error + (string \<times> int)" where
  \<comment> \<open>the checks before the dial\<close>
  "socks_target scheme target cr opts =
     (if scheme \<noteq> ''socks4'' \<and> scheme \<noteq> ''socks5'' then Inl BadScheme
      else if do_Timeout opts \<le> 0 then Inl BadTimeout
      else if do_Network opts \<noteq> ''tcp'' \<and> do_Network opts \<noteq> ''tcp4'' \<and> do_Network opts \<noteq> ''tcp6'' then Inl BadNetwork
      else case split_host_port target of
        Inl _ \<Rightarrow> Inl BadDestination
      | Inr (host, portText) \<Rightarrow>
          if host = [] then Inl BadDestination
          else case atoi portText of
            None \<Rightarrow> Inl BadDestinationPort
          | Some port \<Rightarrow>
              if port < 1 \<or> port > 65535 then Inl BadDestinationPort
              else if CHR 0x00 \<in> set host \<or> (parse_ip host = None \<and> length host > 255) then Inl UnsupportedDestination
              else if scheme = ''socks4'' \<and> ip_is_ipv6 host then Inl UnsupportedDestination
              else if scheme = ''socks4'' \<and> cr_Enabled cr \<and> cr_Password cr \<noteq> [] then Inl UserIDPassword
              else Inr (host, port))"

definition converse_with :: "string \<Rightarrow> string \<Rightarrow> 16 word \<Rightarrow> credentials \<Rightarrow> unit io" where
  "converse_with scheme host port cr =
     (if scheme = ''socks4'' then connect4 host port (if cr_Enabled cr then cr_Username cr else [])
      else connect5 host port cr)"

definition dial_context ::
    "string \<Rightarrow> string \<Rightarrow> string \<Rightarrow> credentials \<Rightarrow> dial_options \<Rightarrow> dial_env \<Rightarrow> (socks_error + conn) \<times> conn option" where
  \<comment> \<open>the result, and the connection the call has opened, as it leaves it\<close>
  "dial_context scheme proxyAddress target cr opts env =
     (case socks_target scheme target cr opts of
        Inl e \<Rightarrow> (Inl e, None)
      | Inr (host, port) \<Rightarrow>
          (case de_dial env (do_Network opts) proxyAddress of
             None \<Rightarrow> (Inl DialFailed, None)
           | Some c0 \<Rightarrow>
               if \<not> de_set_ok env then (Inl DeadlineFailed, Some (close_conn c0))
               else
                 (case converse_with scheme host (word_of_int port) cr
                         (c0\<lparr>cn_deadline := Some (dial_deadline env (do_Timeout opts))\<rparr>) of
                    (Inl e, c1) \<Rightarrow>
                      (Inl (case de_ctx_failed env of Some x \<Rightarrow> CtxDone x | None \<Rightarrow> e), Some (close_conn c1))
                  | (Inr _, c1) \<Rightarrow>
                      if \<not> de_clear_ok env then (Inl DeadlineFailed, Some (close_conn c1))
                      else
                        (let c2 = c1\<lparr>cn_deadline := None\<rparr> in
                         case de_ctx_done env of
                           Some x \<Rightarrow> (Inl (CtxDone x), Some (close_conn c2))
                         | None \<Rightarrow> (Inr c2, Some c2)))))"

subsection \<open>What the operations on a connection do\<close>

lemma bind_io_Inr: "bind_io m k c = (Inr y, c2) \<longleftrightarrow> (\<exists>x c1. m c = (Inr x, c1) \<and> k x c1 = (Inr y, c2))"
  by (auto simp: bind_io_def split: prod.splits sum.splits)

lemma bind_io_Inl:
  "bind_io m k c = (Inl e, c2) \<longleftrightarrow> m c = (Inl e, c2) \<or> (\<exists>x c1. m c = (Inr x, c1) \<and> k x c1 = (Inl e, c2))"
  by (auto simp: bind_io_def split: prod.splits sum.splits)

lemma bind_io_step: "m c = (Inr x, c1) \<Longrightarrow> bind_io m k c = k x c1"
  by (simp add: bind_io_def)

lemma fail_io_Inr [simp]: "fail_io e c \<noteq> (Inr x, c1)"
  by (simp add: fail_io_def)

lemma return_io_Inr [simp]: "return_io x c = (Inr y, c1) \<longleftrightarrow> x = y \<and> c = c1"
  by (auto simp: return_io_def)

lemma write_all_Inr:
  "write_all data c = (Inr u, c1) \<Longrightarrow> c1 = c\<lparr>cn_output := cn_output c @ data, cn_writes := cn_writes c1\<rparr>"
proof (induction data c rule: write_all.induct)
  case (1 data c)
  show ?case
  proof (cases "cn_writes c")
    case Nil
    with "1.prems" show ?thesis by (auto simp: write_all.simps [of data] split: if_splits)
  next
    case (Cons w ws)
    show ?thesis
    proof (cases w)
      case (Wrote n)
      show ?thesis
      proof (cases "data = [] \<or> n = 0")
        case True
        with "1.prems" Cons Wrote show ?thesis
          by (auto simp: write_all.simps [of data] split: if_splits)
      next
        case False
        with "1.prems" Cons Wrote
        have "write_all (drop n data) (c\<lparr>cn_output := cn_output c @ take n data, cn_writes := ws\<rparr>) = (Inr u, c1)"
          by (simp add: write_all.simps [of data])
        from "1.IH" [OF _ Cons Wrote _ this] False show ?thesis by simp
      qed
    next
      case (WriteError n)
      with "1.prems" Cons show ?thesis by (auto simp: write_all.simps [of data] split: if_splits)
    qed
  qed
qed

lemma write_all_prefix:
  "\<exists>n. cn_output (snd (write_all data c)) = cn_output c @ take n data
    \<and> cn_input (snd (write_all data c)) = cn_input c"
proof (induction data c rule: write_all.induct)
  case (1 data c)
  show ?case
  proof (cases "data = [] \<or> cn_writes c = []")
    case True
    then show ?thesis by (auto simp: write_all.simps [of data] intro: exI [of _ "length data"])
  next
    case False
    then obtain w ws where w: "cn_writes c = w # ws" by (cases "cn_writes c") auto
    show ?thesis
    proof (cases w)
      case (WriteError n)
      with False w show ?thesis by (auto simp: write_all.simps [of data])
    next
      case (Wrote n)
      show ?thesis
      proof (cases "n = 0")
        case True
        with False w Wrote show ?thesis by (auto simp: write_all.simps [of data] intro: exI [of _ 0])
      next
        case n: False
        let ?c = "c\<lparr>cn_output := cn_output c @ take n data, cn_writes := ws\<rparr>"
        obtain m where "cn_output (snd (write_all (drop n data) ?c)) = cn_output ?c @ take m (drop n data)"
          "cn_input (snd (write_all (drop n data) ?c)) = cn_input ?c"
          using "1.IH" [OF _ w Wrote n] False by auto
        moreover have "take n data @ take m (drop n data) = take (n + m) data"
          by (simp add: take_add)
        ultimately show ?thesis
          using False w Wrote n by (auto simp: write_all.simps [of data])
      qed
    qed
  qed
qed

lemma write_all_ok: "cn_writes c = [] \<Longrightarrow> write_all data c = (Inr (), c\<lparr>cn_output := cn_output c @ data\<rparr>)"
  by (simp add: write_all.simps [of data])

lemma read_full_Inr:
  "read_full n c = (Inr got, c1) \<longleftrightarrow>
     length got = n \<and> cn_input c = got @ cn_input c1 \<and> c1 = c\<lparr>cn_input := cn_input c1\<rparr>"
proof
  assume "read_full n c = (Inr got, c1)"
  then show "length got = n \<and> cn_input c = got @ cn_input c1 \<and> c1 = c\<lparr>cn_input := cn_input c1\<rparr>"
    by (auto simp: read_full_def Let_def split: if_splits)
next
  assume r: "length got = n \<and> cn_input c = got @ cn_input c1 \<and> c1 = c\<lparr>cn_input := cn_input c1\<rparr>"
  then have "c\<lparr>cn_input := drop n (cn_input c)\<rparr> = c1" by auto
  with r show "read_full n c = (Inr got, c1)"
    by (auto simp: read_full_def Let_def)
qed

lemma read_full_ok:
  "length got = n \<Longrightarrow> cn_input c = got @ rest \<Longrightarrow> read_full n c = (Inr got, c\<lparr>cn_input := rest\<rparr>)"
  by (auto simp: read_full_def)

lemma discard_n_Inr:
  "discard_n n c = (Inr u, c1) \<longleftrightarrow> n \<le> length (cn_input c) \<and> c1 = c\<lparr>cn_input := drop n (cn_input c)\<rparr>"
  by (auto simp: discard_n_def Let_def)

subsection \<open>The proxy's side\<close>

datatype destination = V4 "byte list" | V6 "byte list" | DomainName "byte list"

definition destination_of :: "string \<Rightarrow> destination" where
  "destination_of host =
     (case parse_ip host of
        Some a \<Rightarrow> (case to4 a of Some v4 \<Rightarrow> V4 v4 | None \<Rightarrow> V6 a)
      | None \<Rightarrow> DomainName (map byte_of host))"

definition port_number :: "byte list \<Rightarrow> nat" where
  "port_number bs = 256 * unat (bs ! 0) + unat (bs ! 1)"

fun read_string0 :: "byte list \<Rightarrow> (byte list \<times> byte list) option" where
  "read_string0 [] = None"
| "read_string0 (b # bs) = (if b = 0 then Some ([], bs) else map_option (\<lambda>(s, r). (b # s, r)) (read_string0 bs))"

definition socks4_server :: "byte list \<Rightarrow> (destination \<times> nat \<times> byte list) option" where
  \<comment> \<open>the destination, the port and the USERID of a SOCKS4 or SOCKS4a CONNECT request\<close>
  "socks4_server bs =
     (if length bs < 8 \<or> take 2 bs \<noteq> [4, 1] then None
      else
        (let port = port_number (take 2 (drop 2 bs)); ip = take 4 (drop 4 bs) in
         case read_string0 (drop 8 bs) of
           None \<Rightarrow> None
         | Some (user, rest) \<Rightarrow>
             if take 3 ip = [0, 0, 0] \<and> ip ! 3 \<noteq> 0 then
               (case read_string0 rest of
                  Some (name, []) \<Rightarrow> Some (DomainName name, port, user)
                | _ \<Rightarrow> None)
             else if rest = [] then Some (V4 ip, port, user) else None))"

fun socks5_request :: "byte list \<Rightarrow> (destination \<times> nat) option" where
  "socks5_request (v # cmd # rsv # kind # r) =
     (if [v, cmd, rsv] \<noteq> [5, 1, 0] then None
      else if kind = 1 \<and> length r = 6 then Some (V4 (take 4 r), port_number (drop 4 r))
      else if kind = 4 \<and> length r = 18 then Some (V6 (take 16 r), port_number (drop 16 r))
      else if kind = 3 \<and> r \<noteq> [] \<and> length r = unat (hd r) + 3 then
        Some (DomainName (take (unat (hd r)) (tl r)), port_number (drop (unat (hd r)) (tl r)))
      else None)"
| "socks5_request _ = None"

fun socks5_login :: "byte list \<Rightarrow> ((byte list \<times> byte list) \<times> byte list) option" where
  \<comment> \<open>RFC 1929\<close>
  "socks5_login (v # ulen # r) =
     (let user = take (unat ulen) r; r1 = drop (unat ulen) r in
      if v \<noteq> 1 \<or> length user < unat ulen \<or> r1 = [] \<or> length (tl r1) < unat (hd r1) then None
      else Some ((user, take (unat (hd r1)) (tl r1)), drop (unat (hd r1)) (tl r1)))"
| "socks5_login _ = None"

fun socks5_server :: "byte list \<Rightarrow> ((byte list \<times> byte list) option \<times> destination \<times> nat) option" where
  \<comment> \<open>the login, the destination and the port of a client that offers one method\<close>
  "socks5_server (v # n # method # r) =
     (if [v, n] \<noteq> [5, 1] then None
      else if method = 0 then map_option (\<lambda>x. (None, x)) (socks5_request r)
      else if method = 2 then
        (case socks5_login r of
           None \<Rightarrow> None
         | Some (login, r1) \<Rightarrow> map_option (\<lambda>x. (Some login, x)) (socks5_request r1))
      else None)"
| "socks5_server _ = None"

lemma port_number_bytes [simp]: "port_number (port_bytes port) = unat port"
proof -
  have "unat (ucast (drop_bit 8 port) :: byte) = unat port div 256"
  proof -
    have "unat port < 2 ^ 16" using unsigned_less [of port] by simp
    then have "unat port div 256 < 256" by simp
    then show ?thesis
      by (simp add: unsigned_ucast_eq drop_bit_eq_div take_bit_eq_mod unat_div)
  qed
  moreover have "unat (ucast port :: byte) = unat port mod 256"
    by (simp add: unsigned_ucast_eq take_bit_eq_mod)
  ultimately show ?thesis by (simp add: port_number_def port_bytes_def)
qed

lemma port_bytes_length [simp]: "length (port_bytes port) = 2"
  by (simp add: port_bytes_def)

lemma read_string0_append [simp]: "0 \<notin> set s \<Longrightarrow> read_string0 (s @ 0 # r) = Some (s, r)"
  by (induction s) auto

lemma unat_length_byte: "length (s :: 'a list) \<le> 255 \<Longrightarrow> unat (word_of_nat (length s) :: byte) = length s"
  by (simp add: unat_of_nat)

subsection \<open>What the conversations send and consume\<close>

lemma no_nul_bytes: "CHR 0x00 \<notin> set s \<Longrightarrow> 0 \<notin> set (map byte_of s)"
  by (metis byte_of_0 image_iff list.set_map)

lemma to4_Some: "parse_ip host = Some a \<Longrightarrow> to4 a = Some v4 \<Longrightarrow> length v4 = 4"
  using parse_ip_length to4_length by blast

lemma length4E: "length xs = 4 \<Longrightarrow> (\<And>a b c d. xs = [a, b, c, d] \<Longrightarrow> P) \<Longrightarrow> P"
  by (auto simp: numeral_eq_Suc length_Suc_conv)

lemma socks4_server_fixed:
  "socks4_server (4 # 1 # p # q # w # x # y # z # r) =
     (case read_string0 r of
        None \<Rightarrow> None
      | Some (user, rest) \<Rightarrow>
          if w = 0 \<and> x = 0 \<and> y = 0 \<and> z \<noteq> 0 then
            (case read_string0 rest of
               Some (name, []) \<Rightarrow> Some (DomainName name, port_number [p, q], user)
             | _ \<Rightarrow> None)
          else if rest = [] then Some (V4 [w, x, y, z], port_number [p, q], user) else None)"
  by (auto simp: socks4_server_def Let_def split: option.split list.split)

lemma request4_fixed:
  assumes "address = [w, x, y, z]"
  obtains p q where "port_number [p, q] = unat port"
    "request4 address host port username = 4 # 1 # p # q # w # x # y # z # map byte_of username
       @ 0 # (if parse_ip host = None then map byte_of host @ [0] else [])"
  by (rule that [OF port_number_bytes [of port, unfolded port_bytes_def]])
     (simp add: request4_def port_bytes_def assms)

lemma socks4_server_request:
  assumes "address4 host = Inr address" "CHR 0x00 \<notin> set username" "CHR 0x00 \<notin> set host"
  shows "socks4_server (request4 address host port username) =
    Some (destination_of host, unat port, map byte_of username)"
proof (cases "parse_ip host")
  case None
  then have a: "address = [0, 0, 0, 1]" using assms(1) by (auto simp: address4_def split: if_splits)
  show ?thesis
    by (rule request4_fixed [OF a, of port host username])
       (use None no_nul_bytes [OF assms(2)] no_nul_bytes [OF assms(3)]
         in \<open>simp add: socks4_server_fixed destination_of_def del: set_map\<close>)
next
  case (Some a)
  then obtain v4 where v4: "to4 a = Some v4" "address = v4"
    "\<not> (v4 ! 0 = 0 \<and> v4 ! 1 = 0 \<and> v4 ! 2 = 0 \<and> v4 ! 3 \<noteq> 0)"
    using assms(1) by (auto simp: address4_def split: option.splits if_splits)
  obtain w x y z where wxyz: "v4 = [w, x, y, z]"
    by (rule length4E [OF to4_Some [OF Some v4(1)]])
  have z: "\<not> (w = 0 \<and> x = 0 \<and> y = 0 \<and> z \<noteq> 0)"
    using v4(3) wxyz by (simp add: numeral_eq_Suc)
  show ?thesis
    by (rule request4_fixed [OF v4(2) [unfolded wxyz], of port host username])
       (use Some v4(1,2) wxyz z no_nul_bytes [OF assms(2)]
         in \<open>simp add: socks4_server_fixed destination_of_def del: set_map\<close>)
qed

text \<open>\<open>exchanged c out inp c'\<close>: from \<open>c\<close> to \<open>c'\<close> exactly \<open>out\<close> was written and exactly \<open>inp\<close> was read.\<close>

definition exchanged :: "conn \<Rightarrow> byte list \<Rightarrow> byte list \<Rightarrow> conn \<Rightarrow> bool" where
  "exchanged c out inp c' \<longleftrightarrow>
     cn_output c' = cn_output c @ out \<and> cn_input c = inp @ cn_input c'
     \<and> cn_closed c' = cn_closed c \<and> cn_end c' = cn_end c \<and> cn_deadline c' = cn_deadline c"

lemma exchanged_refl [simp]: "exchanged c [] [] c"
  by (simp add: exchanged_def)

lemma exchanged_trans:
  "exchanged c o1 i1 c1 \<Longrightarrow> exchanged c1 o2 i2 c2 \<Longrightarrow> exchanged c (o1 @ o2) (i1 @ i2) c2"
  by (simp add: exchanged_def)

lemma exchanged_write: "write_all data c = (Inr u, c1) \<Longrightarrow> exchanged c data [] c1"
  by (subst write_all_Inr, assumption) (simp add: exchanged_def)

lemma exchanged_read: "read_full n c = (Inr got, c1) \<Longrightarrow> exchanged c [] got c1 \<and> length got = n"
  by (auto simp: read_full_def Let_def exchanged_def split: if_splits)

lemma exchanged_discard:
  "discard_n n c = (Inr u, c1) \<Longrightarrow> \<exists>got. exchanged c [] got c1 \<and> length got = n"
  by (rule exI [of _ "take n (cn_input c)"]) (auto simp: discard_n_Inr exchanged_def)

lemmas exchanged_step = exchanged_write exchanged_read [THEN conjunct1]

lemma connect4_Inr:
  assumes "connect4 host port username c = (Inr u, c')"
  obtains address reply where "address4 host = Inr address"
    "length username \<le> 255" "CHR 0x00 \<notin> set username"
    "exchanged c (request4 address host port username) reply c'"
    "length reply = 8" "reply ! 0 = 0" "reply ! 1 = 0x5a"
proof -
  obtain address where a: "address4 host = Inr address" "length username \<le> 255" "CHR 0x00 \<notin> set username"
    using assms by (auto simp: connect4_def split: if_splits sum.splits)
  with assms obtain c1 reply where
    w: "write_all (request4 address host port username) c = (Inr (), c1)"
    and r: "read_full 8 c1 = (Inr reply, c')" and d: "reply ! 0 = 0" "reply ! 1 = 0x5a"
    by (auto simp: connect4_def bind_io_Inr split: if_splits)
  show ?thesis
    using that [OF a _ _ d] exchanged_trans [OF exchanged_write [OF w]] exchanged_read [OF r] by fastforce
qed

lemma authenticate5_Inr:
  "authenticate5 cr c = (Inr u, c') \<Longrightarrow> exchanged c (login5 cr) (if cr_Enabled cr then [1, 0] else []) c'"
proof (cases "cr_Enabled cr")
  case True
  assume "authenticate5 cr c = (Inr u, c')"
  with True obtain c1 where "write_all (login5 cr) c = (Inr (), c1)" "read_full 2 c1 = (Inr [1, 0], c')"
    by (auto simp: authenticate5_def bind_io_Inr split: if_splits)
  then show ?thesis
    using True exchanged_trans [OF exchanged_write] exchanged_read by fastforce
qed (simp add: authenticate5_def login5_def)

definition bound_address :: "byte list \<Rightarrow> bool" where
  \<comment> \<open>the end of a SOCKS5 reply: address type, address, port\<close>
  "bound_address bs \<longleftrightarrow>
     (case bs of [] \<Rightarrow> False
      | kind # r \<Rightarrow>
          kind = 1 \<and> length r = 6 \<or> kind = 4 \<and> length r = 18
          \<or> kind = 3 \<and> r \<noteq> [] \<and> length r = unat (hd r) + 3)"

lemma length4_nth:
  "length xs = 4 \<Longrightarrow> xs = [xs ! 0, xs ! 1, xs ! 2, xs ! 3]"
  by (erule length4E) (simp add: numeral_eq_Suc)

lemma read_reply5_Inr:
  assumes "read_reply5 c = (Inr u, c')"
  obtains bound where "exchanged c [] ([5, 0, 0] @ bound) c'" "bound_address bound"
proof -
  obtain reply c1 n c2 where r: "read_full 4 c = (Inr reply, c1)"
    and n: "reply_address_length (reply ! 3) c1 = (Inr n, c2)"
    and d: "discard_n (n + 2) c2 = (Inr (), c')"
    and ok: "reply ! 0 = 5" "reply ! 2 = 0" "reply ! 1 = 0"
    using assms by (auto simp: read_reply5_def bind_io_Inr split: if_splits)
  have reply: "reply = [5, 0, 0, reply ! 3]"
    using length4_nth [of reply] exchanged_read [OF r] ok by simp
  obtain tail where t: "exchanged c2 [] tail c'" "length tail = n + 2"
    using exchanged_discard [OF d] by blast
  obtain len where l: "exchanged c1 [] len c2"
    "reply ! 3 = 1 \<and> len = [] \<and> n = 4 \<or> reply ! 3 = 4 \<and> len = [] \<and> n = 16
     \<or> reply ! 3 = 3 \<and> len = [hd len] \<and> n = unat (hd len)"
  proof (cases "reply ! 3 = 3")
    case True
    then obtain len where len: "read_full 1 c1 = (Inr len, c2)" "n = unat (len ! 0)"
      using n by (auto simp: reply_address_length_def bind_io_Inr)
    moreover from this have "len = [hd len]" using exchanged_read [OF len(1)] by (cases len) auto
    moreover from this have "len ! 0 = hd len" by (metis nth_Cons_0)
    ultimately show ?thesis using that [of len] exchanged_read [OF len(1)] True by simp
  next
    case False
    with n have "c1 = c2" "reply ! 3 = 1 \<and> n = 4 \<or> reply ! 3 = 4 \<and> n = 16"
      by (auto simp: reply_address_length_def split: if_splits)
    then show ?thesis using that [of "[]"] by simp
  qed
  have "exchanged c [] ([5, 0, 0] @ (reply ! 3 # len @ tail)) c'"
    using exchanged_trans [OF exchanged_trans [OF conjunct1 [OF exchanged_read [OF r]] l(1)] t(1)] reply
    by (metis append_Cons append_Nil append_assoc)
  moreover have "bound_address (reply ! 3 # len @ tail)"
    using l(2) t(2) by (cases len) (auto simp: bound_address_def)
  ultimately show ?thesis by (rule that)
qed

lemma connect5_Inr:
  assumes "connect5 host port cr c = (Inr u, c')"
  obtains bound where "\<not> bad_credentials5 cr" "bound_address bound"
    "exchanged c ([5, 1, method5 cr] @ login5 cr @ request5 host port)
       ([5, method5 cr] @ (if cr_Enabled cr then [1, 0] else []) @ [5, 0, 0] @ bound) c'"
proof -
  obtain c1 sel c2 c3 c4 where ok: "\<not> bad_credentials5 cr"
    and steps: "write_all [5, 1, method5 cr] c = (Inr (), c1)" "read_full 2 c1 = (Inr sel, c2)"
      "authenticate5 cr c2 = (Inr (), c3)" "write_all (request5 host port) c3 = (Inr (), c4)"
      "read_reply5 c4 = (Inr u, c')"
    and sel: "sel ! 0 = 5" "sel ! 1 = method5 cr"
    using assms by (auto simp: connect5_def bind_io_Inr split: if_splits)
  have "sel = [5, method5 cr]"
    using exchanged_read [OF steps(2)] sel by (cases sel; cases "tl sel") auto
  then have "exchanged c ([5, 1, method5 cr] @ login5 cr @ request5 host port)
      ([5, method5 cr] @ (if cr_Enabled cr then [1, 0] else [])) c4"
    using exchanged_trans [OF exchanged_trans [OF exchanged_trans [OF exchanged_write [OF steps(1)]
      conjunct1 [OF exchanged_read [OF steps(2)]]] authenticate5_Inr [OF steps(3)]] exchanged_write [OF steps(4)]]
    by simp
  moreover obtain bound where b: "exchanged c4 [] ([5, 0, 0] @ bound) c'" "bound_address bound"
    by (rule read_reply5_Inr [OF steps(5)])
  ultimately have "exchanged c ([5, 1, method5 cr] @ login5 cr @ request5 host port)
      ([5, method5 cr] @ (if cr_Enabled cr then [1, 0] else []) @ [5, 0, 0] @ bound) c'"
    using exchanged_trans by fastforce
  with ok b(2) show ?thesis by (rule that)
qed

lemma socks5_request_sent:
  assumes "CHR 0x00 \<notin> set host" "parse_ip host = None \<longrightarrow> length host \<le> 255"
  shows "socks5_request (request5 host port) = Some (destination_of host, unat port)"
proof (cases "parse_ip host")
  case None
  with assms(2) show ?thesis
    by (simp add: request5_def destination_of_def unat_length_byte)
next
  case (Some a)
  show ?thesis
  proof (cases "to4 a")
    case None
    with Some parse_ip_length [OF Some] show ?thesis
      by (simp add: request5_def destination_of_def)
  next
    case v4: (Some v4)
    with Some to4_Some [OF Some v4] show ?thesis
      by (simp add: request5_def destination_of_def)
  qed
qed

lemma socks5_login_sent:
  assumes "cr_Enabled cr" "\<not> bad_credentials5 cr"
  shows "socks5_login (login5 cr @ r) = Some ((map byte_of (cr_Username cr), map byte_of (cr_Password cr)), r)"
  using assms by (simp add: login5_def bad_credentials5_def unat_length_byte not_less)

lemma socks5_server_sent:
  assumes "\<not> bad_credentials5 cr" "CHR 0x00 \<notin> set host" "parse_ip host = None \<longrightarrow> length host \<le> 255"
  shows "socks5_server ([5, 1, method5 cr] @ login5 cr @ request5 host port) =
    Some (if cr_Enabled cr then Some (map byte_of (cr_Username cr), map byte_of (cr_Password cr)) else None,
          destination_of host, unat port)"
proof (cases "cr_Enabled cr")
  case True
  with socks5_login_sent [OF True assms(1)] socks5_request_sent [OF assms(2,3)] show ?thesis
    by (simp add: method5_def)
next
  case False
  with socks5_request_sent [OF assms(2,3)] show ?thesis
    by (simp add: method5_def login5_def)
qed

subsection \<open>A proxy that accepts is believed\<close>

definition socks_replies :: "string \<Rightarrow> credentials \<Rightarrow> byte list \<Rightarrow> byte list" where
  \<comment> \<open>the replies of a proxy that accepts: the rest of a SOCKS4 reply, or a SOCKS5 bound address\<close>
  "socks_replies scheme cr tail =
     (if scheme = ''socks4'' then [0, 0x5a] @ tail
      else [5, method5 cr] @ (if cr_Enabled cr then [1, 0] else []) @ [5, 0, 0] @ tail)"

definition reply_tail :: "string \<Rightarrow> byte list \<Rightarrow> bool" where
  "reply_tail scheme tail \<longleftrightarrow> (if scheme = ''socks4'' then length tail = 6 else bound_address tail)"

lemma connect4_complete:
  assumes "address4 host = Inr address" "length username \<le> 255" "CHR 0x00 \<notin> set username"
    and "cn_writes c = []" "cn_input c = [0, 0x5a] @ tail @ rest" "length tail = 6"
  shows "connect4 host port username c =
    (Inr (), c\<lparr>cn_output := cn_output c @ request4 address host port username, cn_input := rest\<rparr>)"
proof -
  have "read_full 8 (c\<lparr>cn_output := out\<rparr>) = (Inr ([0, 0x5a] @ tail), c\<lparr>cn_output := out, cn_input := rest\<rparr>)" for out
    by (rule read_full_ok) (use assms(5,6) in simp_all)
  with assms show ?thesis
    by (simp add: connect4_def bind_io_def write_all_ok return_io_def)
qed

lemma authenticate5_complete:
  assumes "cn_writes c = []" "cn_input c = (if cr_Enabled cr then [1, 0] else []) @ rest"
  shows "authenticate5 cr c = (Inr (), c\<lparr>cn_output := cn_output c @ login5 cr, cn_input := rest\<rparr>)"
proof (cases "cr_Enabled cr")
  case True
  have "read_full 2 (c\<lparr>cn_output := out\<rparr>) = (Inr [1, 0], c\<lparr>cn_output := out, cn_input := rest\<rparr>)" for out
    by (rule read_full_ok) (use assms(2) True in simp_all)
  with True assms(1) show ?thesis
    by (simp add: authenticate5_def bind_io_def write_all_ok return_io_def)
qed (use assms in \<open>simp add: authenticate5_def return_io_def login5_def\<close>)

lemma read_reply5_complete:
  assumes "cn_input c = [5, 0, 0] @ bound @ rest" "bound_address bound"
  shows "read_reply5 c = (Inr (), c\<lparr>cn_input := rest\<rparr>)"
proof -
  obtain kind r where bound: "bound = kind # r"
    "kind = 1 \<and> length r = 6 \<or> kind = 4 \<and> length r = 18 \<or> kind = 3 \<and> r \<noteq> [] \<and> length r = unat (hd r) + 3"
    using assms(2) by (auto simp: bound_address_def split: list.splits)
  have head: "read_full 4 c = (Inr [5, 0, 0, kind], c\<lparr>cn_input := r @ rest\<rparr>)"
    by (rule read_full_ok) (use assms(1) bound(1) in simp_all)
  have "\<exists>n. reply_address_length kind (c\<lparr>cn_input := r @ rest\<rparr>) =
      (Inr n, c\<lparr>cn_input := drop (length r - (n + 2)) r @ rest\<rparr>) \<and> n + 2 \<le> length r"
  proof (cases "kind = 3")
    case True
    with bound obtain n r' where r: "r = n # r'" "length r' = unat n + 2" by (cases r) auto
    have "read_full 1 (c\<lparr>cn_input := r @ rest\<rparr>) = (Inr [n], c\<lparr>cn_input := r' @ rest\<rparr>)"
      using read_full_ok [of "[n]" 1 "c\<lparr>cn_input := r @ rest\<rparr>" "r' @ rest"] r(1) by simp
    with True r show ?thesis
      by (simp add: reply_address_length_def bind_io_def return_io_def)
  next
    case False
    with bound(2) show ?thesis by (auto simp: reply_address_length_def return_io_def)
  qed
  then obtain n where n: "reply_address_length kind (c\<lparr>cn_input := r @ rest\<rparr>) =
      (Inr n, c\<lparr>cn_input := drop (length r - (n + 2)) r @ rest\<rparr>)" "n + 2 \<le> length r" by blast
  have "discard_n (n + 2) (c\<lparr>cn_input := drop (length r - (n + 2)) r @ rest\<rparr>) = (Inr (), c\<lparr>cn_input := rest\<rparr>)"
    using n(2) by (simp add: discard_n_def Let_def)
  with head n(1) show ?thesis
    by (simp add: read_reply5_def bind_io_def return_io_def)
qed

lemma connect5_complete:
  assumes "\<not> bad_credentials5 cr" "cn_writes c = []" "bound_address bound"
    and "cn_input c = [5, method5 cr] @ (if cr_Enabled cr then [1, 0] else []) @ [5, 0, 0] @ bound @ rest"
  shows "connect5 host port cr c =
    (Inr (), c\<lparr>cn_output := cn_output c @ [5, 1, method5 cr] @ login5 cr @ request5 host port, cn_input := rest\<rparr>)"
proof -
  let ?mid = "(if cr_Enabled cr then [1, 0] else []) @ [5, 0, 0] @ bound @ rest"
  let ?out = "cn_output c @ [5, 1, method5 cr]"
  have r1: "read_full 2 (c\<lparr>cn_output := out\<rparr>) = (Inr [5, method5 cr], c\<lparr>cn_output := out, cn_input := ?mid\<rparr>)" for out
    by (rule read_full_ok) (use assms(4) in simp_all)
  have r2: "authenticate5 cr (c\<lparr>cn_output := ?out, cn_input := ?mid\<rparr>) =
      (Inr (), c\<lparr>cn_output := ?out @ login5 cr, cn_input := [5, 0, 0] @ bound @ rest\<rparr>)"
    using authenticate5_complete [of "c\<lparr>cn_output := ?out, cn_input := ?mid\<rparr>" cr "[5, 0, 0] @ bound @ rest"] assms(2)
    by simp
  have r3: "read_reply5 (c\<lparr>cn_input := [5, 0, 0] @ bound @ rest, cn_output := out\<rparr>) =
      (Inr (), c\<lparr>cn_output := out, cn_input := rest\<rparr>)" for out
    using read_reply5_complete [of "c\<lparr>cn_input := [5, 0, 0] @ bound @ rest, cn_output := out\<rparr>" bound rest] assms(3)
    by simp
  show ?thesis
    using assms(1,2) r1 r2 r3 by (simp add: connect5_def bind_io_step write_all_ok)
qed

lemma dial_context_complete:
  assumes t: "socks_target scheme target cr opts = Inr (host, port)"
    and d: "de_dial env (do_Network opts) pa = Some c0" "cn_writes c0 = []"
      "cn_input c0 = socks_replies scheme cr tail @ rest" "reply_tail scheme tail"
    and e: "de_set_ok env" "de_clear_ok env" "de_ctx_done env = None"
    and c4: "scheme = ''socks4'' \<Longrightarrow> (\<exists>a. address4 host = Inr a)
      \<and> (cr_Enabled cr \<longrightarrow> length (cr_Username cr) \<le> 255 \<and> CHR 0x00 \<notin> set (cr_Username cr))"
    and c5: "scheme = ''socks5'' \<Longrightarrow> \<not> bad_credentials5 cr"
  shows "\<exists>c. dial_context scheme pa target cr opts env = (Inr c, Some c) \<and> cn_input c = rest
    \<and> cn_deadline c = None \<and> cn_closed c = cn_closed c0"
proof -
  let ?c = "c0\<lparr>cn_deadline := Some (dial_deadline env (do_Timeout opts))\<rparr>"
  have "scheme = ''socks4'' \<or> scheme = ''socks5''"
    using t by (simp add: socks_target_def split: if_splits)
  then obtain out where "converse_with scheme host (word_of_int port) cr ?c =
      (Inr (), ?c\<lparr>cn_output := out, cn_input := rest\<rparr>)"
  proof
    assume s: "scheme = ''socks4''"
    let ?user = "if cr_Enabled cr then cr_Username cr else []"
    from s obtain a where a: "address4 host = Inr a" "length ?user \<le> 255" "CHR 0x00 \<notin> set ?user"
      using c4 by auto
    from connect4_complete [OF a, of ?c tail rest] s d that
    show thesis by (simp add: converse_with_def socks_replies_def reply_tail_def)
  next
    assume s: "scheme = ''socks5''"
    with connect5_complete [OF c5, of ?c tail rest host] d that
    show thesis by (simp add: converse_with_def socks_replies_def reply_tail_def)
  qed
  with t d(1) e show ?thesis by (simp add: dial_context_def Let_def)
qed

subsection \<open>Properties of dialing\<close>

lemma socks_target_Inr:
  assumes "socks_target scheme target cr opts = Inr (host, port)"
  obtains portText where "split_host_port target = Inr (host, portText)" "atoi portText = Some port"
    "host \<noteq> []" "1 \<le> port" "port \<le> 65535" "CHR 0x00 \<notin> set host" "parse_ip host = None \<longrightarrow> length host \<le> 255"
  using assms by (auto simp: socks_target_def split: if_splits sum.splits option.splits)

lemma dial_context_Inr:
  assumes "dial_context scheme pa target cr opts env = (Inr c, oc)"
  obtains host port c0 c1 where "socks_target scheme target cr opts = Inr (host, port)"
    "de_dial env (do_Network opts) pa = Some c0"
    "converse_with scheme host (word_of_int port) cr
       (c0\<lparr>cn_deadline := Some (dial_deadline env (do_Timeout opts))\<rparr>) = (Inr (), c1)"
    "c = c1\<lparr>cn_deadline := None\<rparr>" "oc = Some c"
  using assms
  by (auto simp: dial_context_def Let_def split: sum.splits option.splits prod.splits if_splits)

lemma port_word: "1 \<le> port \<Longrightarrow> port \<le> 65535 \<Longrightarrow> unat (word_of_int port :: 16 word) = nat port"
  by (simp add: unat_eq_nat_uint uint_word_of_int_eq take_bit_eq_mod)

text \<open>A connection to a proxy that has sent \<open>bytes\<close>, and an untroubled call on it.\<close>

definition fresh_conn :: "byte list \<Rightarrow> conn" where
  "fresh_conn bytes = \<lparr>cn_input = bytes, cn_end = EOF, cn_output = [], cn_writes = [], cn_deadline = None, cn_closed = False\<rparr>"

definition calm_env :: "byte list \<Rightarrow> dial_env" where
  "calm_env bytes = \<lparr> de_dial = (\<lambda>_ _. Some (fresh_conn bytes)), de_now = 0, de_ctx_deadline = None,
     de_set_ok = True, de_clear_ok = True, de_ctx_failed = None, de_ctx_done = None \<rparr>"

definition tcp_options :: dial_options where
  "tcp_options = \<lparr> do_Network = ''tcp'', do_Timeout = 10 * second, do_KeepAlive = 30 * second \<rparr>"

text \<open>A SOCKS4 tunnel leads where the client asked: when \<open>DialContext\<close> returns a connection,
  the proxy has been sent one request that decodes to the target's address or host name, its port
  and the configured USERID; it has granted it; and exactly its eight reply bytes have been
  consumed, so the first byte the caller reads is the first of the tunnel.\<close>
theorem socks4_tunnel_exact:
  assumes "dial_context ''socks4'' pa target cr opts env = (Inr c, oc)"
  shows "\<exists>c0 req reply host portText port. de_dial env (do_Network opts) pa = Some c0
    \<and> split_host_port target = Inr (host, portText) \<and> atoi portText = Some port
    \<and> cn_output c = cn_output c0 @ req \<and> cn_input c0 = reply @ cn_input c
    \<and> socks4_server req = Some (destination_of host, nat port,
        map byte_of (if cr_Enabled cr then cr_Username cr else []))
    \<and> length reply = 8 \<and> reply ! 0 = 0 \<and> reply ! 1 = 0x5a"
proof -
  let ?user = "if cr_Enabled cr then cr_Username cr else []"
  obtain host port c0 c1 where t: "socks_target ''socks4'' target cr opts = Inr (host, port)"
    and d: "de_dial env (do_Network opts) pa = Some c0" "c = c1\<lparr>cn_deadline := None\<rparr>"
    and run: "converse_with ''socks4'' host (word_of_int port) cr
       (c0\<lparr>cn_deadline := Some (dial_deadline env (do_Timeout opts))\<rparr>) = (Inr (), c1)"
    using dial_context_Inr [OF assms] by metis
  obtain portText where p: "split_host_port target = Inr (host, portText)" "atoi portText = Some port"
    "1 \<le> port" "port \<le> 65535" "CHR 0x00 \<notin> set host"
    by (rule socks_target_Inr [OF t])
  obtain address reply where r: "address4 host = Inr address" "CHR 0x00 \<notin> set ?user"
    "exchanged (c0\<lparr>cn_deadline := Some (dial_deadline env (do_Timeout opts))\<rparr>)
       (request4 address host (word_of_int port) ?user) reply c1"
    "length reply = 8" "reply ! 0 = 0" "reply ! 1 = 0x5a"
    by (rule connect4_Inr [OF run [unfolded converse_with_def, simplified]]) auto
  have "socks4_server (request4 address host (word_of_int port) ?user) =
      Some (destination_of host, nat port, map byte_of ?user)"
    using socks4_server_request [OF r(1,2) p(5)] port_word [OF p(3,4)] by simp
  then show ?thesis
    using d p(1,2) r(3-) unfolding exchanged_def by fastforce
qed

theorem socks4_tunnel_exact_witness:
  "\<exists>req reply. fst (dial_context ''socks4'' ''proxy:1080'' ''example.org:443''
        \<lparr>cr_Enabled = True, cr_Username = ''me'', cr_Password = []\<rparr> tcp_options
        (calm_env [0, 0x5a, 0, 0, 0, 0, 0, 0, 7, 7]))
      = Inr \<lparr>cn_input = [7, 7], cn_end = EOF, cn_output = req, cn_writes = [], cn_deadline = None, cn_closed = False\<rparr>
    \<and> socks4_server req = Some (DomainName (map byte_of ''example.org''), 443, map byte_of ''me'')"
proof -
  let ?d = "dial_context ''socks4'' ''proxy:1080'' ''example.org:443''
        \<lparr>cr_Enabled = True, cr_Username = ''me'', cr_Password = []\<rparr> tcp_options
        (calm_env [0, 0x5a, 0, 0, 0, 0, 0, 0, 7, 7])"
  have eval: "fst ?d = Inr \<lparr>cn_input = [7, 7], cn_end = EOF, cn_output = request4 [0, 0, 0, 1] ''example.org'' 443 ''me'',
      cn_writes = [], cn_deadline = None, cn_closed = False\<rparr>"
    by code_simp
  have parts: "split_host_port ''example.org:443'' = Inr (''example.org'', ''443'')" "atoi ''443'' = Some 443"
    "destination_of ''example.org'' = DomainName (map byte_of ''example.org'')"
    by code_simp+
  from eval obtain oc where "?d = (Inr \<lparr>cn_input = [7, 7], cn_end = EOF,
      cn_output = request4 [0, 0, 0, 1] ''example.org'' 443 ''me'',
      cn_writes = [], cn_deadline = None, cn_closed = False\<rparr>, oc)"
    by (cases ?d) auto
  from socks4_tunnel_exact [OF this] eval show ?thesis
    by (auto simp: parts calm_env_def fresh_conn_def)
qed

text \<open>C14. A SOCKS5 tunnel leads where the client asked: the bytes sent decode, on the proxy's side,
  to the configured login (or none) and a CONNECT to the target's address or host name and port;
  the proxy has accepted the method and the login and granted the request; and exactly its
  replies, whatever bound address they carry, have been consumed.\<close>
theorem socks5_tunnel_exact:
  assumes "dial_context ''socks5'' pa target cr opts env = (Inr c, oc)"
  shows "\<exists>c0 req bound host portText port. de_dial env (do_Network opts) pa = Some c0
    \<and> split_host_port target = Inr (host, portText) \<and> atoi portText = Some port
    \<and> cn_output c = cn_output c0 @ req
    \<and> cn_input c0 = [5, method5 cr] @ (if cr_Enabled cr then [1, 0] else []) @ [5, 0, 0] @ bound @ cn_input c
    \<and> bound_address bound
    \<and> socks5_server req =
        Some (if cr_Enabled cr then Some (map byte_of (cr_Username cr), map byte_of (cr_Password cr)) else None,
              destination_of host, nat port)"
proof -
  obtain host port c0 c1 where t: "socks_target ''socks5'' target cr opts = Inr (host, port)"
    and d: "de_dial env (do_Network opts) pa = Some c0" "c = c1\<lparr>cn_deadline := None\<rparr>"
    and run: "converse_with ''socks5'' host (word_of_int port) cr
       (c0\<lparr>cn_deadline := Some (dial_deadline env (do_Timeout opts))\<rparr>) = (Inr (), c1)"
    using dial_context_Inr [OF assms] by metis
  obtain portText where p: "split_host_port target = Inr (host, portText)" "atoi portText = Some port"
    "1 \<le> port" "port \<le> 65535" "CHR 0x00 \<notin> set host" "parse_ip host = None \<longrightarrow> length host \<le> 255"
    by (rule socks_target_Inr [OF t])
  let ?req = "[5, 1, method5 cr] @ login5 cr @ request5 host (word_of_int port)"
  obtain bound where r: "\<not> bad_credentials5 cr" "bound_address bound"
    "exchanged (c0\<lparr>cn_deadline := Some (dial_deadline env (do_Timeout opts))\<rparr>) ?req
       ([5, method5 cr] @ (if cr_Enabled cr then [1, 0] else []) @ [5, 0, 0] @ bound) c1"
    by (rule connect5_Inr [OF run [unfolded converse_with_def, simplified]])
  show ?thesis
    by (rule exI [of _ c0], rule exI [of _ ?req], rule exI [of _ bound], rule exI [of _ host],
        rule exI [of _ portText], rule exI [of _ port])
       (use d p(1,2) r(2,3) socks5_server_sent [OF r(1) p(5,6), of "word_of_int port"] port_word [OF p(3,4)]
         in \<open>simp add: exchanged_def\<close>)
qed

theorem socks5_tunnel_exact_witness:
  "\<exists>req bound. fst (dial_context ''socks5'' ''proxy:1080'' ''192.0.2.1:443''
        \<lparr>cr_Enabled = True, cr_Username = ''u'', cr_Password = ''p''\<rparr> tcp_options
        (calm_env [5, 2, 1, 0, 5, 0, 0, 3, 1, 120, 0, 80, 7, 7]))
      = Inr \<lparr>cn_input = [7, 7], cn_end = EOF, cn_output = req, cn_writes = [], cn_deadline = None, cn_closed = False\<rparr>
    \<and> socks5_server req = Some (Some ([117], [112]), V4 [192, 0, 2, 1], 443)
    \<and> bound_address bound \<and> bound = [3, 1, 120, 0, 80]"
proof -
  let ?cr = "\<lparr>cr_Enabled = True, cr_Username = ''u'', cr_Password = ''p''\<rparr>"
  let ?d = "dial_context ''socks5'' ''proxy:1080'' ''192.0.2.1:443'' ?cr tcp_options
        (calm_env [5, 2, 1, 0, 5, 0, 0, 3, 1, 120, 0, 80, 7, 7])"
  let ?req = "[5, 1, 2] @ login5 ?cr @ request5 ''192.0.2.1'' 443"
  have eval: "fst ?d = Inr \<lparr>cn_input = [7, 7], cn_end = EOF, cn_output = ?req,
      cn_writes = [], cn_deadline = None, cn_closed = False\<rparr>"
    by code_simp
  have parts: "split_host_port ''192.0.2.1:443'' = Inr (''192.0.2.1'', ''443'')" "atoi ''443'' = Some 443"
    "destination_of ''192.0.2.1'' = V4 [192, 0, 2, 1]"
    "byte_of CHR ''u'' = 117" "byte_of CHR ''p'' = 112"
    by code_simp+
  from eval obtain oc where "?d = (Inr \<lparr>cn_input = [7, 7], cn_end = EOF, cn_output = ?req,
      cn_writes = [], cn_deadline = None, cn_closed = False\<rparr>, oc)"
    by (cases ?d) auto
  from socks5_tunnel_exact [OF this] eval show ?thesis
    by (auto simp: parts calm_env_def fresh_conn_def method5_def)
qed

lemma no_unsupported_io:
  "write_all data c \<noteq> (Inl UnsupportedDestination, c1)"
  "read_full n c \<noteq> (Inl UnsupportedDestination, c1)"
  "discard_n n c \<noteq> (Inl UnsupportedDestination, c1)"
proof -
  show "write_all data c \<noteq> (Inl UnsupportedDestination, c1)"
    by (induction data c rule: write_all.induct)
       (subst write_all.simps, auto split: list.split write_result.split)
qed (auto simp: read_full_def discard_n_def Let_def)

lemma connect5_no_unsupported: "connect5 host port cr c \<noteq> (Inl UnsupportedDestination, c1)"
  by (auto simp: connect5_def authenticate5_def read_reply5_def reply_address_length_def bind_io_Inl
      no_unsupported_io fail_io_def return_io_def split: if_splits)

text \<open>C37. A destination the protocol cannot express never reaches the proxy: when \<open>DialContext\<close>
  reports \<open>ErrUnsupportedDestination\<close>, nothing has been written or read on any connection, so the
  caller is right not to count it against the upstream.\<close>
theorem unsupported_sends_nothing:
  assumes "dial_context scheme pa target cr opts env = (Inl UnsupportedDestination, Some c)"
  shows "\<exists>c0. de_dial env (do_Network opts) pa = Some c0 \<and> cn_output c = cn_output c0
    \<and> cn_input c = cn_input c0 \<and> cn_closed c"
proof -
  obtain host port c0 c1 where "de_dial env (do_Network opts) pa = Some c0" "c = close_conn c1"
    and run: "converse_with scheme host (word_of_int port) cr
       (c0\<lparr>cn_deadline := Some (dial_deadline env (do_Timeout opts))\<rparr>) = (Inl UnsupportedDestination, c1)"
    using assms by (auto simp: dial_context_def Let_def split: sum.splits option.splits prod.splits if_splits)
  moreover from run have "c1 = c0\<lparr>cn_deadline := Some (dial_deadline env (do_Timeout opts))\<rparr>"
    by (auto simp: converse_with_def connect5_no_unsupported connect4_def fail_io_def return_io_def bind_io_Inl
        no_unsupported_io address4_def split: if_splits option.splits)
  ultimately show ?thesis by (simp add: close_conn_def)
qed

theorem unsupported_sends_nothing_witness:
  "\<exists>c. dial_context ''socks4'' ''proxy:1080'' ''0.0.0.7:80'' \<lparr>cr_Enabled = False, cr_Username = [], cr_Password = []\<rparr>
      tcp_options (calm_env [1, 2, 3]) = (Inl UnsupportedDestination, Some c)
    \<and> cn_output c = [] \<and> cn_input c = [1, 2, 3]"
proof -
  let ?d = "dial_context ''socks4'' ''proxy:1080'' ''0.0.0.7:80'' \<lparr>cr_Enabled = False, cr_Username = [], cr_Password = []\<rparr>
      tcp_options (calm_env [1, 2, 3])"
  have "fst ?d = Inl UnsupportedDestination" "snd ?d \<noteq> None" by code_simp+
  then obtain c where c: "?d = (Inl UnsupportedDestination, Some c)" by (cases ?d) auto
  from unsupported_sends_nothing [OF c] c show ?thesis by (auto simp: calm_env_def fresh_conn_def)
qed

end
