(* ===== verification/ConnectReply.thy ===== *)
theory ConnectReply
  imports Socks
begin

text \<open>
  \<open>internal/proxy/connect.go\<close>, \<open>readLimitedLine\<close> and \<open>readConnectStatus\<close>: the response head of an
  HTTP upstream to a CONNECT. A \<open>bufio.Reader\<close> is the bytes still to be read and the error that
  follows them; its buffer shows only in \<open>ReadLine\<close>, which hands out a line in chunks of 4096
  bytes. (A last chunk that arrives together with the error and fills the buffer exactly is
  treated as if the error came after it.)

  The reader terminates on every stream; the lemmas show that it consumes exactly the head, never
  more than the 64 KiB it is allowed, and does not depend on where the chunks fall.
\<close>

subsection \<open>bufio.Reader\<close>

record reader =
  rd_stream :: "byte list"
  rd_end :: io_error

definition buffer_size :: nat where
  "buffer_size = 4096"

definition trim_cr :: "byte list \<Rightarrow> byte list" where
  "trim_cr line = (if line \<noteq> [] \<and> last line = 13 then butlast line else line)"

definition read_line :: "reader \<Rightarrow> (io_error + (byte list \<times> bool)) \<times> reader" where
  \<comment> \<open>\<open>ReadLine\<close>: the part of the line and whether more of it follows\<close>
  "read_line r =
     (let s = rd_stream r; line = takeWhile (\<lambda>b. b \<noteq> 10) s in
      if length line < buffer_size \<and> length line < length s then
        (Inr (trim_cr line, False), r\<lparr>rd_stream := drop (Suc (length line)) s\<rparr>)
      else if buffer_size \<le> length s then
        (if s ! (buffer_size - 1) = 13
         then (Inr (take (buffer_size - 1) s, True), r\<lparr>rd_stream := drop (buffer_size - 1) s\<rparr>)
         else (Inr (take buffer_size s, True), r\<lparr>rd_stream := drop buffer_size s\<rparr>))
      else if s \<noteq> [] then (Inr (s, False), r\<lparr>rd_stream := []\<rparr>)
      else (Inl (rd_end r), r))"

lemma trim_cr_length: "length (trim_cr line) \<le> length line" "length line \<le> Suc (length (trim_cr line))"
  by (auto simp: trim_cr_def)

lemma read_line_consumes:
  assumes "read_line r = (Inr (part, cont), r1)"
  obtains used where "rd_stream r = used @ rd_stream r1" "used \<noteq> []" "rd_end r1 = rd_end r"
    "length used \<le> length part + (if cont then 0 else 2)" "length part \<le> length used" "cont \<Longrightarrow> used = part"
proof -
  let ?s = "rd_stream r" and ?line = "takeWhile (\<lambda>b. b \<noteq> 10) (rd_stream r)"
  consider "length ?line < buffer_size" "length ?line < length ?s"
    | "\<not> (length ?line < buffer_size \<and> length ?line < length ?s)" "buffer_size \<le> length ?s"
    | "\<not> (length ?line < buffer_size \<and> length ?line < length ?s)" "length ?s < buffer_size"
    by linarith
  then show ?thesis
  proof cases
    case 1
    then have "part = trim_cr ?line" "\<not> cont" "r1 = r\<lparr>rd_stream := drop (Suc (length ?line)) ?s\<rparr>"
      using assms by (simp_all add: read_line_def Let_def)
    moreover have "?s \<noteq> []" using 1 by auto
    ultimately show ?thesis
      using 1 that [of "take (Suc (length ?line)) ?s"] trim_cr_length [of ?line] by auto
  next
    case 2
    have "buffer_size - 1 > 0" by (simp add: buffer_size_def)
    moreover from this 2 have "?s \<noteq> []" by auto
    ultimately show ?thesis
      using 2 assms that [of "take (buffer_size - 1) ?s"] that [of "take buffer_size ?s"]
      unfolding read_line_def Let_def by (auto split: if_splits)
  next
    case 3
    then show ?thesis
      using assms that [of ?s] unfolding read_line_def Let_def by (auto split: if_splits)
  qed
qed

lemma read_line_shrinks:
  "read_line r = (Inr (part, cont), r1) \<Longrightarrow> length (rd_stream r1) < length (rd_stream r)"
  by (erule read_line_consumes) auto

subsection \<open>Lines and the head\<close>

datatype reply_error = ReplyRead io_error | HeadersTooLong | BadStatusLine | BadStatus | BadHeaderLine

function read_limited_line :: "byte list \<Rightarrow> int \<Rightarrow> reader \<Rightarrow> (reply_error + byte list) \<times> int \<times> reader" where
  \<comment> \<open>the line read so far; \<open>remaining\<close> is passed by reference in the source\<close>
  "read_limited_line line remaining r =
     (case read_line r of
        (Inl err, r1) \<Rightarrow> (Inl (ReplyRead err), remaining, r1)
      | (Inr (part, cont), r1) \<Rightarrow>
          (let remaining1 = remaining - int (length part) - (if cont then 0 else 2) in
           if remaining1 < 0 then (Inl HeadersTooLong, remaining1, r1)
           else if cont then read_limited_line (line @ part) remaining1 r1
           else (Inr (line @ part), remaining1, r1)))"
  by pat_completeness auto
termination
  by (relation "measure (\<lambda>(_, _, r). length (rd_stream r))") (auto dest: read_line_shrinks [OF sym])

declare read_limited_line.simps [simp del]

lemma read_limited_line_consumes:
  assumes "read_limited_line line remaining r = (Inr l, remaining1, r1)"
  shows "\<exists>used. rd_stream r = used @ rd_stream r1 \<and> used \<noteq> [] \<and> rd_end r1 = rd_end r
    \<and> 0 \<le> remaining1 \<and> int (length used) \<le> remaining - remaining1"
  using assms
proof (induction line remaining r rule: read_limited_line.induct)
  case (1 line remaining r)
  obtain part cont r2 where p: "read_line r = (Inr (part, cont), r2)"
    using "1.prems" by (auto simp: read_limited_line.simps [of line] split: prod.splits sum.splits)
  let ?rem = "remaining - int (length part) - (if cont then 0 else 2)"
  have rem: "0 \<le> ?rem"
    using "1.prems" p by (auto simp: read_limited_line.simps [of line] Let_def split: if_splits)
  obtain used where u: "rd_stream r = used @ rd_stream r2" "used \<noteq> []" "rd_end r2 = rd_end r"
    "length used \<le> length part + (if cont then 0 else 2)"
    by (rule read_line_consumes [OF p])
  show ?case
  proof (cases cont)
    case True
    with "1.prems" p rem have "read_limited_line (line @ part) ?rem r2 = (Inr l, remaining1, r1)"
      by (simp add: read_limited_line.simps [of line])
    with "1.IH" [OF p [symmetric] refl refl refl _ True] rem True obtain used2 where
      "rd_stream r2 = used2 @ rd_stream r1" "rd_end r1 = rd_end r2" "0 \<le> remaining1"
      "int (length used2) \<le> ?rem - remaining1"
      by auto
    with u True show ?thesis by (intro exI [of _ "used @ used2"]) auto
  next
    case False
    with "1.prems" p rem have "r2 = r1" "remaining1 = ?rem"
      by (simp_all add: read_limited_line.simps [of line])
    with u False rem show ?thesis by (intro exI [of _ used]) auto
  qed
qed

function read_header_lines :: "int \<Rightarrow> reader \<Rightarrow> reply_error option \<times> reader" where
  "read_header_lines remaining r =
     (case read_limited_line [] remaining r of
        (Inl err, _, r1) \<Rightarrow> (Some err, r1)
      | (Inr line, remaining1, r1) \<Rightarrow>
          if line = [] then (None, r1)
          else if 58 \<notin> set line then (Some BadHeaderLine, r1)
          else read_header_lines remaining1 r1)"
  by pat_completeness auto
termination
  by (relation "measure (\<lambda>(_, r). length (rd_stream r))")
     (auto dest!: read_limited_line_consumes [OF sym])

declare read_header_lines.simps [simp del]

definition max_connect_header_bytes :: int where
  "max_connect_header_bytes = 64 * 1024"

definition parse_status_line :: "string \<Rightarrow> reply_error + int" where
  "parse_status_line statusLine =
     (let parts = fields_of statusLine in
      if length parts < 2 \<or> (parts ! 0 \<noteq> ''HTTP/1.1'' \<and> parts ! 0 \<noteq> ''HTTP/1.0'') then Inl BadStatusLine
      else case atoi (parts ! 1) of
        None \<Rightarrow> Inl BadStatus
      | Some status \<Rightarrow> if status < 100 \<or> status > 599 then Inl BadStatus else Inr status)"

definition read_connect_status :: "reader \<Rightarrow> (reply_error + int) \<times> reader" where
  "read_connect_status r =
     (case read_limited_line [] max_connect_header_bytes r of
        (Inl err, _, r1) \<Rightarrow> (Inl err, r1)
      | (Inr line, remaining, r1) \<Rightarrow>
          (case parse_status_line (map chr_of line) of
             Inl err \<Rightarrow> (Inl err, r1)
           | Inr status \<Rightarrow>
               (case read_header_lines remaining r1 of
                  (Some err, r2) \<Rightarrow> (Inl err, r2)
                | (None, r2) \<Rightarrow> (Inr status, r2))))"

subsection \<open>Framing\<close>

text \<open>A line ended by CR LF is read as it is, whatever the chunks.\<close>

lemma takeWhile_line: "10 \<notin> set line \<Longrightarrow> takeWhile (\<lambda>b. b \<noteq> (10::byte)) (line @ 13 # 10 # rest) = line @ [13]"
  by (induction line) auto

lemma read_line_crlf:
  assumes "10 \<notin> set line"
  shows "read_line \<lparr>rd_stream = line @ 13 # 10 # rest, rd_end = e\<rparr> =
    (if length line < buffer_size - 1 then (Inr (line, False), \<lparr>rd_stream = rest, rd_end = e\<rparr>)
     else
       (let n = (if (line @ [13]) ! (buffer_size - 1) = 13 then buffer_size - 1 else buffer_size)
        in (Inr (take n line, True), \<lparr>rd_stream = drop n line @ 13 # 10 # rest, rd_end = e\<rparr>)))"
proof (cases "length line < buffer_size - 1")
  case True
  then show ?thesis
    using takeWhile_line [OF assms, of rest] by (simp add: read_line_def Let_def trim_cr_def)
next
  case False
  have "buffer_size > 1" by (simp add: buffer_size_def)
  moreover have "(line @ 13 # 10 # rest) ! (buffer_size - 1) = (line @ [13]) ! (buffer_size - 1)"
    if "buffer_size - 1 < length (line @ [13])"
    using that by (simp add: nth_append)
  moreover have "buffer_size \<le> length line" if "(line @ [13]) ! (buffer_size - 1) \<noteq> 13" "length line \<ge> buffer_size - 1"
    using that by (cases "length line = buffer_size - 1") (auto simp: nth_append)
  ultimately show ?thesis
    using False takeWhile_line [OF assms, of rest]
    by (cases "length line = buffer_size - 1") (auto simp: read_line_def Let_def nth_append)
qed

lemma read_limited_line_crlf:
  assumes "10 \<notin> set line" "int (length line) + 2 \<le> remaining"
  shows "read_limited_line acc remaining \<lparr>rd_stream = line @ 13 # 10 # rest, rd_end = e\<rparr> =
    (Inr (acc @ line), remaining - int (length line) - 2, \<lparr>rd_stream = rest, rd_end = e\<rparr>)"
  using assms
proof (induction "length line" arbitrary: line acc remaining rule: less_induct)
  case less
  show ?case
  proof (cases "length line < buffer_size - 1")
    case True
    with less.prems show ?thesis
      by (simp add: read_limited_line.simps [of acc] read_line_crlf)
  next
    case False
    define n where "n = (if (line @ [13]) ! (buffer_size - 1) = 13 then buffer_size - 1 else buffer_size)"
    have "buffer_size > 1" by (simp add: buffer_size_def)
    then have n: "0 < n" "n \<le> length line"
      using False by (auto simp: n_def nth_append split: if_splits)
    have "10 \<notin> set (drop n line)" using less.prems(1) by (meson in_set_dropD)
    then have "read_limited_line (acc @ take n line) (remaining - int n)
        \<lparr>rd_stream = drop n line @ 13 # 10 # rest, rd_end = e\<rparr> =
      (Inr ((acc @ take n line) @ drop n line), remaining - int n - int (length (drop n line)) - 2,
       \<lparr>rd_stream = rest, rd_end = e\<rparr>)"
      using less.hyps [of "drop n line" "remaining - int n" "acc @ take n line"] n less.prems(2) by simp
    moreover have "read_line \<lparr>rd_stream = line @ 13 # 10 # rest, rd_end = e\<rparr> =
        (Inr (take n line, True), \<lparr>rd_stream = drop n line @ 13 # 10 # rest, rd_end = e\<rparr>)"
      using read_line_crlf [OF less.prems(1), of rest e] False by (simp add: n_def Let_def)
    ultimately show ?thesis
      using n less.prems(2) by (simp add: read_limited_line.simps [of acc] Let_def min_absorb2)
  qed
qed

definition render_head :: "byte list list \<Rightarrow> byte list" where
  \<comment> \<open>lines as they travel, each ended by CR LF, and the empty line\<close>
  "render_head lines = concat (map (\<lambda>line. line @ [13, 10]) lines) @ [13, 10]"

definition header_line :: "byte list \<Rightarrow> bool" where
  "header_line line \<longleftrightarrow> 10 \<notin> set line \<and> 58 \<in> set line"

lemma read_header_lines_crlf:
  assumes "list_all header_line lines" "int (length (render_head lines)) \<le> remaining"
  shows "read_header_lines remaining \<lparr>rd_stream = render_head lines @ rest, rd_end = e\<rparr> =
    (None, \<lparr>rd_stream = rest, rd_end = e\<rparr>)"
  using assms
proof (induction lines arbitrary: remaining)
  case Nil
  then show ?case
    using read_limited_line_crlf [of "[]" remaining "[]" rest e]
    by (simp add: render_head_def read_header_lines.simps [of remaining])
next
  case (Cons line lines)
  have l: "10 \<notin> set line" "58 \<in> set line" "int (length line) + 2 \<le> remaining"
    using Cons.prems by (auto simp: header_line_def render_head_def)
  then have "line \<noteq> []" by auto
  have "read_limited_line [] remaining \<lparr>rd_stream = render_head (line # lines) @ rest, rd_end = e\<rparr> =
    (Inr line, remaining - int (length line) - 2, \<lparr>rd_stream = render_head lines @ rest, rd_end = e\<rparr>)"
    using read_limited_line_crlf [OF l(1,3), of "[]" "render_head lines @ rest" e] by (simp add: render_head_def)
  moreover have "read_header_lines (remaining - int (length line) - 2)
      \<lparr>rd_stream = render_head lines @ rest, rd_end = e\<rparr> = (None, \<lparr>rd_stream = rest, rd_end = e\<rparr>)"
    by (rule Cons.IH) (use Cons.prems in \<open>auto simp: render_head_def\<close>)
  ultimately show ?case
    using l(2) \<open>line \<noteq> []\<close> by (simp add: read_header_lines.simps [of remaining])
qed

lemma read_header_lines_consumes:
  assumes "read_header_lines remaining r = (None, r1)"
  shows "\<exists>used. rd_stream r = used @ rd_stream r1 \<and> int (length used) \<le> remaining"
  using assms
proof (induction remaining r rule: read_header_lines.induct)
  case (1 remaining r)
  obtain line remaining1 r2 where l: "read_limited_line [] remaining r = (Inr line, remaining1, r2)"
    using "1.prems" by (auto simp: read_header_lines.simps [of remaining] split: prod.splits sum.splits)
  obtain used where u: "rd_stream r = used @ rd_stream r2" "0 \<le> remaining1" "int (length used) \<le> remaining - remaining1"
    using read_limited_line_consumes [OF l] by blast
  show ?case
  proof (cases "line = []")
    case True
    with "1.prems" l u show ?thesis by (auto simp: read_header_lines.simps [of remaining])
  next
    case False
    with "1.prems" l have colon: "58 \<in> set line" and rest: "read_header_lines remaining1 r2 = (None, r1)"
      by (auto simp: read_header_lines.simps [of remaining] split: if_splits)
    obtain used2 where "rd_stream r2 = used2 @ rd_stream r1" "int (length used2) \<le> remaining1"
      using "1.IH" [OF l [symmetric] refl refl False _ rest] colon by auto
    with u show ?thesis by (intro exI [of _ "used @ used2"]) auto
  qed
qed

subsection \<open>Properties\<close>

text \<open>C36. The head of the upstream's answer is read exactly: for a status line the parser accepts,
  any header lines with a colon, and a head of at most 64 KiB, the status is returned and the
  reader stands on the first byte after the empty line, however long the lines are and wherever
  the 4096-byte chunks fall.\<close>
theorem connect_head_read_exactly:
  assumes "parse_status_line (map chr_of status_line) = Inr status" "10 \<notin> set status_line"
    and "list_all header_line lines"
    and "int (length (render_head (status_line # lines))) \<le> max_connect_header_bytes"
  shows "read_connect_status \<lparr>rd_stream = render_head (status_line # lines) @ rest, rd_end = e\<rparr> =
    (Inr status, \<lparr>rd_stream = rest, rd_end = e\<rparr>)"
proof -
  have "read_limited_line [] max_connect_header_bytes
      \<lparr>rd_stream = render_head (status_line # lines) @ rest, rd_end = e\<rparr> =
    (Inr status_line, max_connect_header_bytes - int (length status_line) - 2,
     \<lparr>rd_stream = render_head lines @ rest, rd_end = e\<rparr>)"
    using read_limited_line_crlf [OF assms(2), of max_connect_header_bytes "[]" "render_head lines @ rest" e] assms(4)
    by (simp add: render_head_def)
  moreover have "read_header_lines (max_connect_header_bytes - int (length status_line) - 2)
      \<lparr>rd_stream = render_head lines @ rest, rd_end = e\<rparr> = (None, \<lparr>rd_stream = rest, rd_end = e\<rparr>)"
    by (rule read_header_lines_crlf [OF assms(3)]) (use assms(4) in \<open>simp add: render_head_def\<close>)
  ultimately show ?thesis using assms(1) by (simp add: read_connect_status_def)
qed

lemma sample_status: "parse_status_line (map chr_of (map byte_of ''HTTP/1.1 200 OK'')) = Inr 200"
  by code_simp

theorem connect_head_read_exactly_witness:
  "fst (read_connect_status \<lparr>rd_stream = render_head [map byte_of ''HTTP/1.1 200 OK'', map byte_of ''Via: x''] @ [1, 2],
     rd_end = EOF\<rparr>) = Inr 200"
proof -
  have "list_all header_line [map byte_of ''Via: x'']" "10 \<notin> set (map byte_of ''HTTP/1.1 200 OK'')"
    "int (length (render_head [map byte_of ''HTTP/1.1 200 OK'', map byte_of ''Via: x''])) \<le> max_connect_header_bytes"
    by code_simp+
  from connect_head_read_exactly [OF sample_status this(2,1,3)] show ?thesis by simp
qed

lemma connect_status_consumes:
  assumes "read_connect_status r = (Inr status, r1)"
  shows "\<exists>used. rd_stream r = used @ rd_stream r1 \<and> int (length used) \<le> max_connect_header_bytes"
proof -
  obtain line remaining r2 where l: "read_limited_line [] max_connect_header_bytes r = (Inr line, remaining, r2)"
    and h: "read_header_lines remaining r2 = (None, r1)"
    using assms by (auto simp: read_connect_status_def split: prod.splits sum.splits option.splits)
  obtain used used2 where "rd_stream r = used @ rd_stream r2" "int (length used) \<le> max_connect_header_bytes - remaining"
    "rd_stream r2 = used2 @ rd_stream r1" "int (length used2) \<le> remaining"
    using read_limited_line_consumes [OF l] read_header_lines_consumes [OF h] by blast
  then have "rd_stream r = (used @ used2) @ rd_stream r1 \<and> int (length (used @ used2)) \<le> max_connect_header_bytes"
    by simp
  then show ?thesis by blast
qed

subsection \<open>The head a success has consumed\<close>

definition head_bytes :: "byte list list \<Rightarrow> byte list" where
  \<comment> \<open>raw lines, each with the line feed that ends it\<close>
  "head_bytes lines = concat (map (\<lambda>line. line @ [10]) lines)"

lemma takeWhile_newline:
  assumes "length (takeWhile (\<lambda>b. b \<noteq> 10) s) < length s"
  shows "s = takeWhile (\<lambda>b. b \<noteq> 10) s @ (10::byte) # drop (Suc (length (takeWhile (\<lambda>b. b \<noteq> 10) s))) s"
proof -
  let ?n = "length (takeWhile (\<lambda>b. b \<noteq> 10) s)"
  have "s ! ?n = 10" using nth_length_takeWhile [OF assms] by simp
  with assms show ?thesis using id_take_nth_drop [of ?n s] takeWhile_eq_take [of _ s] by metis
qed

lemma takeWhile_none: "10 \<notin> set (takeWhile (\<lambda>b. b \<noteq> (10::byte)) s)"
  using set_takeWhileD by fastforce

lemma read_line_raw:
  assumes "read_line r = (Inr (part, cont), r1)"
  shows "cont \<Longrightarrow> rd_stream r = part @ rd_stream r1 \<and> 10 \<notin> set part \<and> part \<noteq> []
        \<and> (last part = 13 \<longrightarrow> rd_stream r1 \<noteq> [] \<and> hd (rd_stream r1) = 13)"
    and "\<not> cont \<Longrightarrow> (\<exists>raw. 10 \<notin> set raw \<and> part = trim_cr raw \<and> rd_stream r = raw @ 10 # rd_stream r1)
        \<or> rd_stream r1 = [] \<and> part \<noteq> []"
proof -
  let ?s = "rd_stream r" and ?line = "takeWhile (\<lambda>b. b \<noteq> 10) (rd_stream r)"
  have full: "10 \<notin> set (take n ?s)" if "n \<le> buffer_size" "buffer_size \<le> length ?s"
    "\<not> (length ?line < buffer_size \<and> length ?line < length ?s)" for n
  proof -
    have "n \<le> length ?line" using that by linarith
    then have "take n ?s = take n ?line" by (metis takeWhile_eq_take min.absorb1 take_take)
    then show ?thesis using takeWhile_none by (metis in_set_takeD)
  qed
  have buf: "1 < buffer_size" by (simp add: buffer_size_def)
  { assume cont
    then have big: "buffer_size \<le> length ?s" "\<not> (length ?line < buffer_size \<and> length ?line < length ?s)"
      using assms by (auto simp: read_line_def Let_def split: if_splits)
    define n where "n = (if ?s ! (buffer_size - 1) = 13 then buffer_size - 1 else buffer_size)"
    have p: "part = take n ?s" "rd_stream r1 = drop n ?s"
      using assms big by (auto simp: read_line_def Let_def n_def split: if_splits)
    have n: "0 < n" "n \<le> buffer_size" "n \<le> length ?s" using buf big by (auto simp: n_def)
    have "?s \<noteq> []" using n by auto
    then have ne: "part \<noteq> []" and last: "last part = ?s ! (n - 1)"
      using n p last_conv_nth [of "take n ?s"] by auto
    have "last part = 13 \<longrightarrow> rd_stream r1 \<noteq> [] \<and> hd (rd_stream r1) = 13"
    proof (cases "?s ! (buffer_size - 1) = 13")
      case True
      then have "n < length ?s" "?s ! n = 13" using big(1) buf by (simp_all add: n_def)
      then show ?thesis unfolding p(2) by (simp add: hd_drop_conv_nth)
    next
      case False
      with last show ?thesis by (simp add: n_def)
    qed
    moreover have "rd_stream r = part @ rd_stream r1" unfolding p by (rule append_take_drop_id [symmetric])
    moreover have "10 \<notin> set part" unfolding p by (rule full [OF n(2) big])
    ultimately show "rd_stream r = part @ rd_stream r1 \<and> 10 \<notin> set part \<and> part \<noteq> []
        \<and> (last part = 13 \<longrightarrow> rd_stream r1 \<noteq> [] \<and> hd (rd_stream r1) = 13)"
      using ne by blast }
  assume "\<not> cont"
  consider "length ?line < length ?s" "part = trim_cr ?line" "rd_stream r1 = drop (Suc (length ?line)) ?s"
    | "rd_stream r1 = []" "part \<noteq> []"
  proof (cases "length ?line < buffer_size \<and> length ?line < length ?s")
    case True
    then have "part = trim_cr ?line" "r1 = r\<lparr>rd_stream := drop (Suc (length ?line)) ?s\<rparr>"
      using assms by (simp_all add: read_line_def Let_def)
    with True that(1) show ?thesis by simp
  next
    case False
    with assms \<open>\<not> cont\<close> have "part = ?s \<and> part \<noteq> [] \<and> r1 = r\<lparr>rd_stream := []\<rparr>"
      by (simp add: read_line_def Let_def split: if_splits)
    with that(2) show ?thesis by auto
  qed
  then show "(\<exists>raw. 10 \<notin> set raw \<and> part = trim_cr raw \<and> rd_stream r = raw @ 10 # rd_stream r1)
        \<or> rd_stream r1 = [] \<and> part \<noteq> []"
  proof cases
    case 1
    with takeWhile_newline [OF 1(1)] takeWhile_none show ?thesis by metis
  qed simp
qed

lemma trim_cr_append: "b \<noteq> [] \<or> a = [] \<or> last a \<noteq> 13 \<Longrightarrow> trim_cr (a @ b) = a @ trim_cr b"
  by (auto simp: trim_cr_def butlast_append)

lemma read_limited_line_raw:
  assumes "read_limited_line acc remaining r = (Inr l, remaining1, r1)"
  shows "(\<exists>raw. 10 \<notin> set raw \<and> l = acc @ trim_cr raw \<and> rd_stream r = raw @ 10 # rd_stream r1)
    \<or> rd_stream r1 = [] \<and> l \<noteq> []"
  using assms
proof (induction acc remaining r rule: read_limited_line.induct)
  case (1 acc remaining r)
  obtain part cont r2 where p: "read_line r = (Inr (part, cont), r2)"
    using "1.prems" by (auto simp: read_limited_line.simps [of acc] split: prod.splits sum.splits)
  let ?rem = "remaining - int (length part) - (if cont then 0 else 2)"
  have rem: "0 \<le> ?rem"
    using "1.prems" p by (auto simp: read_limited_line.simps [of acc] Let_def split: if_splits)
  show ?case
  proof (cases cont)
    case True
    with "1.prems" p rem have "read_limited_line (acc @ part) ?rem r2 = (Inr l, remaining1, r1)"
      by (simp add: read_limited_line.simps [of acc])
    with "1.IH" [OF p [symmetric] refl refl refl _ True] rem True
    consider raw where "10 \<notin> set raw" "l = (acc @ part) @ trim_cr raw" "rd_stream r2 = raw @ 10 # rd_stream r1"
      | "rd_stream r1 = []" "l \<noteq> []"
      by auto
    then show ?thesis
    proof cases
      case (1 raw)
      note chunk = read_line_raw(1) [OF p True]
      have "raw \<noteq> [] \<or> last part \<noteq> 13" using chunk 1(3) by auto
      then have "part @ trim_cr raw = trim_cr (part @ raw)" by (auto simp: trim_cr_append)
      with 1 chunk show ?thesis by (intro disjI1 exI [of _ "part @ raw"]) simp
    qed simp
  next
    case False
    with "1.prems" p rem have "r2 = r1" "l = acc @ part"
      by (simp_all add: read_limited_line.simps [of acc])
    with read_line_raw(2) [OF p False] show ?thesis by auto
  qed
qed

lemma read_header_lines_raw:
  assumes "read_header_lines remaining r = (None, r1)"
  shows "\<exists>hs e. rd_stream r = head_bytes (hs @ [e]) @ rd_stream r1
    \<and> list_all header_line hs \<and> (e = [] \<or> e = [13])"
  using assms
proof (induction remaining r rule: read_header_lines.induct)
  case (1 remaining r)
  obtain line remaining1 r2 where l: "read_limited_line [] remaining r = (Inr line, remaining1, r2)"
    using "1.prems" by (auto simp: read_header_lines.simps [of remaining] split: prod.splits sum.splits)
  show ?case
  proof (cases "line = []")
    case True
    with "1.prems" l have "r2 = r1" by (simp add: read_header_lines.simps [of remaining])
    with read_limited_line_raw [OF l] True obtain raw where
      "rd_stream r = raw @ 10 # rd_stream r1" "trim_cr raw = []" by auto
    moreover from this(2) have "raw = [] \<or> raw = [13]"
      by (cases raw rule: rev_cases) (auto simp: trim_cr_def split: if_splits)
    ultimately show ?thesis by (intro exI [of _ "[]"] exI [of _ raw]) (auto simp: head_bytes_def)
  next
    case False
    with "1.prems" l have colon: "58 \<in> set line" and rest: "read_header_lines remaining1 r2 = (None, r1)"
      by (auto simp: read_header_lines.simps [of remaining] split: if_splits)
    obtain hs e where he: "rd_stream r2 = head_bytes (hs @ [e]) @ rd_stream r1" "list_all header_line hs" "e = [] \<or> e = [13]"
      using "1.IH" [OF l [symmetric] refl refl False _ rest] colon by auto
    then have "rd_stream r2 \<noteq> []" by (auto simp: head_bytes_def)
    with read_limited_line_raw [OF l] obtain raw where
      raw: "10 \<notin> set raw" "line = trim_cr raw" "rd_stream r = raw @ 10 # rd_stream r2" by auto
    have "58 \<in> set raw" using raw(2) colon by (auto simp: trim_cr_def dest: in_set_butlastD split: if_splits)
    with raw he show ?thesis
      by (intro exI [of _ "raw # hs"] exI [of _ e]) (auto simp: head_bytes_def header_line_def list_all_iff)
  qed
qed

lemma connect_status_head:
  assumes "read_connect_status r = (Inr status, r1)"
  shows "\<exists>sl hs e. rd_stream r = head_bytes (sl # hs @ [e]) @ rd_stream r1 \<and> 10 \<notin> set sl
    \<and> parse_status_line (map chr_of (trim_cr sl)) = Inr status \<and> list_all header_line hs \<and> (e = [] \<or> e = [13])
    \<and> int (length (head_bytes (sl # hs @ [e]))) \<le> max_connect_header_bytes"
proof -
  obtain line remaining r2 where l: "read_limited_line [] max_connect_header_bytes r = (Inr line, remaining, r2)"
    and st: "parse_status_line (map chr_of line) = Inr status" and h: "read_header_lines remaining r2 = (None, r1)"
    using assms by (auto simp: read_connect_status_def split: prod.splits sum.splits option.splits)
  obtain hs e where he: "rd_stream r2 = head_bytes (hs @ [e]) @ rd_stream r1" "list_all header_line hs" "e = [] \<or> e = [13]"
    using read_header_lines_raw [OF h] by blast
  then have "rd_stream r2 \<noteq> []" by (auto simp: head_bytes_def)
  with read_limited_line_raw [OF l] obtain raw where
    raw: "10 \<notin> set raw" "line = trim_cr raw" "rd_stream r = raw @ 10 # rd_stream r2" by auto
  have s: "rd_stream r = head_bytes (raw # hs @ [e]) @ rd_stream r1"
    using raw(3) he(1) by (simp add: head_bytes_def)
  moreover have "int (length (head_bytes (raw # hs @ [e]))) \<le> max_connect_header_bytes"
    using connect_status_consumes [OF assms] s by auto
  ultimately show ?thesis using raw st he by blast
qed

lemma parse_status_line_Inr:
  assumes "parse_status_line line = Inr status"
  shows "\<exists>version rest. fields_of line = version # rest
      \<and> version \<in> {''HTTP/1.1'', ''HTTP/1.0''} \<and> rest \<noteq> [] \<and> atoi (hd rest) = Some status"
proof -
  have l: "2 \<le> length (fields_of line)" using assms by (simp add: parse_status_line_def Let_def split: if_splits)
  then obtain v w rest where "fields_of line = v # w # rest" by (metis Suc_le_length_iff numeral_2_eq_2)
  with assms show ?thesis by (auto simp: parse_status_line_def Let_def split: if_splits option.splits)
qed

text \<open>An upstream cannot make the proxy buffer without bound or believe nonsense: when
  \<open>readConnectStatus\<close> succeeds it has consumed a prefix of at most 64 KiB of the stream, nothing
  after it, and the status is a number from 100 to 599.\<close>
theorem connect_head_bounded:
  assumes "read_connect_status r = (Inr status, r1)"
  shows "(\<exists>used. rd_stream r = used @ rd_stream r1 \<and> int (length used) \<le> max_connect_header_bytes)
    \<and> 100 \<le> status \<and> status \<le> 599"
  using connect_status_consumes [OF assms] assms
  by (auto simp: read_connect_status_def parse_status_line_def Let_def
      split: prod.splits sum.splits option.splits if_splits)

theorem connect_head_bounded_witness:
  "\<exists>used. render_head [map byte_of ''HTTP/1.1 200 OK''] @ [1, 2] = used @ [1, 2] \<and> int (length used) \<le> 65536"
proof -
  let ?r = "\<lparr>rd_stream = render_head [map byte_of ''HTTP/1.1 200 OK''] @ [1, 2], rd_end = EOF\<rparr>"
  have "read_connect_status ?r = (Inr 200, \<lparr>rd_stream = [1, 2], rd_end = EOF\<rparr>)"
    by (simp add: read_connect_status_def render_head_def byte_of_def)
       (use sample_status in code_simp)
  from connect_head_bounded [OF this] show ?thesis by (auto simp: max_connect_header_bytes_def)
qed

end
