(* ===== verification/IoCopy.thy ===== *)
theory IoCopy
  imports Prelude
begin

text \<open>
  \<open>io.Copy\<close>, the loop under every body and tunnel: read a chunk, write it, until the source ends
  or something fails. What the reader and the writer do is a sequence of events, so that the
  steps of one loop can be interleaved with timers and with the other direction of a tunnel. An
  event that the loop cannot make in its state gives \<open>None\<close>.
\<close>

datatype io_err = IoEOF | IoFailed | IoWriteFailed | IoShortWrite

datatype copy_phase =
    Reading
  | Writing "byte list" "io_err option"   \<comment> \<open>the chunk, and the error that came with it\<close>
  | Copied "io_err option"                \<comment> \<open>returned; \<open>None\<close> is \<open>nil\<close>\<close>

record copier =
  cp_phase :: copy_phase
  cp_in :: "byte list"     \<comment> \<open>all bytes read\<close>
  cp_out :: "byte list"    \<comment> \<open>all bytes the writer has taken\<close>

definition new_copier :: copier where
  "new_copier = \<lparr>cp_phase = Reading, cp_in = [], cp_out = []\<rparr>"

datatype copy_event =
    ReadReturns "byte list" "io_err option"
  | WriteReturns nat bool                 \<comment> \<open>bytes taken, whether with an error\<close>

definition copy_outcome :: "io_err option \<Rightarrow> copy_phase" where
  \<comment> \<open>after a chunk is dealt with: read on, or return, where \<open>io.EOF\<close> is no error\<close>
  "copy_outcome err =
     (case err of None \<Rightarrow> Reading | Some IoEOF \<Rightarrow> Copied None | Some e \<Rightarrow> Copied (Some e))"

fun copy_step :: "copy_event \<Rightarrow> copier \<Rightarrow> copier option" where
  "copy_step (ReadReturns data err) c =
     (case cp_phase c of
        Reading \<Rightarrow>
          Some (c\<lparr> cp_in := cp_in c @ data,
                   cp_phase := (if data = [] then copy_outcome err else Writing data err) \<rparr>)
      | _ \<Rightarrow> None)"
| "copy_step (WriteReturns n failed) c =
     (case cp_phase c of
        Writing data err \<Rightarrow>
          if length data < n then None
          else Some (c\<lparr> cp_out := cp_out c @ take n data,
                        cp_phase := (if failed then Copied (Some IoWriteFailed)
                                     else if n < length data then Copied (Some IoShortWrite)
                                     else copy_outcome err) \<rparr>)
      | _ \<Rightarrow> None)"

fun copy_run :: "copy_event list \<Rightarrow> copier \<Rightarrow> copier option" where
  "copy_run [] c = Some c"
| "copy_run (ev # evs) c = (case copy_step ev c of None \<Rightarrow> None | Some c' \<Rightarrow> copy_run evs c')"

definition copied :: "copier \<Rightarrow> bool" where
  "copied c \<longleftrightarrow> (case cp_phase c of Copied _ \<Rightarrow> True | _ \<Rightarrow> False)"

subsection \<open>Nothing is lost, repeated or reordered\<close>

definition copier_ok :: "copier \<Rightarrow> bool" where
  "copier_ok c \<longleftrightarrow>
     (case cp_phase c of
        Reading \<Rightarrow> cp_in c = cp_out c
      | Writing data _ \<Rightarrow> cp_in c = cp_out c @ data
      | Copied None \<Rightarrow> cp_in c = cp_out c
      | Copied (Some _) \<Rightarrow> \<exists>lost. cp_in c = cp_out c @ lost)"

lemma copier_ok_new [simp]: "copier_ok new_copier"
  by (simp add: copier_ok_def new_copier_def)

lemma copier_ok_prefix: "copier_ok c \<Longrightarrow> \<exists>lost. cp_in c = cp_out c @ lost"
  by (auto simp: copier_ok_def split: copy_phase.splits option.splits)

lemma copier_ok_complete: "copier_ok c \<Longrightarrow> cp_phase c = Copied None \<Longrightarrow> cp_in c = cp_out c"
  by (simp add: copier_ok_def)

lemma copier_ok_step:
  assumes "copy_step ev c = Some c'" "copier_ok c"
  shows "copier_ok c'"
proof (cases ev)
  case (ReadReturns data err)
  with assms show ?thesis
    by (cases "data = []")
      (auto simp: copier_ok_def copy_outcome_def split: copy_phase.splits option.splits io_err.splits)
next
  case (WriteReturns n failed)
  with assms obtain data err where c: "cp_phase c = Writing data err" "n \<le> length data"
    by (auto split: copy_phase.splits if_splits)
  have "\<exists>lost. cp_out c @ data = (cp_out c @ take n data) @ lost"
    by (rule exI [of _ "drop n data"]) simp
  with assms WriteReturns c show ?thesis
    by (auto simp: copier_ok_def copy_outcome_def split: option.splits io_err.splits)
qed

lemma copier_ok_run: "copy_run evs c = Some c' \<Longrightarrow> copier_ok c \<Longrightarrow> copier_ok c'"
  by (induction evs arbitrary: c) (auto dest: copier_ok_step split: option.splits)

lemma copy_run_append:
  "copy_run (evs @ evs') c = (case copy_run evs c of None \<Rightarrow> None | Some c' \<Rightarrow> copy_run evs' c')"
  by (induction evs arbitrary: c) (auto split: option.split)

fun chunk :: "copy_event \<Rightarrow> byte list" where
  "chunk (ReadReturns data err) = data"
| "chunk (WriteReturns n failed) = []"

lemma copy_step_in: "copy_step ev c = Some c' \<Longrightarrow> cp_in c' = cp_in c @ chunk ev"
  by (cases ev) (auto split: copy_phase.splits if_splits)

lemma copy_run_in: "copy_run evs c = Some c' \<Longrightarrow> cp_in c' = cp_in c @ concat (map chunk evs)"
  by (induction evs arbitrary: c) (auto dest: copy_step_in split: option.splits)

lemma copied_stuck: "copied c \<Longrightarrow> copy_step ev c = None"
  by (cases ev) (auto simp: copied_def split: copy_phase.splits)

text \<open>A source that ends and a writer that takes everything: the loop returns \<open>nil\<close> with all written.\<close>

fun serve_chunks :: "byte list list \<Rightarrow> copy_event list" where
  "serve_chunks [] = [ReadReturns [] (Some IoEOF)]"
| "serve_chunks (d # ds) = ReadReturns d None # WriteReturns (length d) False # serve_chunks ds"

lemma copy_all:
  "[] \<notin> set ds \<Longrightarrow> cp_phase c = Reading \<Longrightarrow>
     copy_run (serve_chunks ds) c =
       Some (c\<lparr>cp_phase := Copied None, cp_in := cp_in c @ concat ds, cp_out := cp_out c @ concat ds\<rparr>)"
  by (induction ds arbitrary: c) (auto simp: copy_outcome_def)

text \<open>The loop returns \<open>nil\<close> only after the source has reported its end.\<close>

definition may_end :: "copy_event list \<Rightarrow> copier \<Rightarrow> bool" where
  "may_end evs c \<longleftrightarrow>
     (\<exists>data. ReadReturns data (Some IoEOF) \<in> set evs) \<or> cp_phase c = Copied None
     \<or> (\<exists>data. cp_phase c = Writing data (Some IoEOF))"

lemma may_end_step: "copy_step ev c = Some c' \<Longrightarrow> may_end evs c' \<Longrightarrow> may_end (ev # evs) c"
  by (cases ev) (auto simp: may_end_def copy_outcome_def split: copy_phase.splits option.splits io_err.splits if_splits)

lemma may_end_run: "copy_run evs c = Some c' \<Longrightarrow> cp_phase c' = Copied None \<Longrightarrow> may_end evs c"
proof (induction evs arbitrary: c)
  case (Cons ev evs)
  then show ?case by (auto split: option.splits intro: may_end_step)
qed (simp add: may_end_def)

lemma copy_run_ends:
  assumes "copy_run evs c = Some c'" "cp_phase c' = Copied None" "cp_phase c = Reading"
  shows "\<exists>data. ReadReturns data (Some IoEOF) \<in> set evs"
  using may_end_run [OF assms(1,2)] assms(3) by (simp add: may_end_def)

declare copy_step.simps [simp del]

end
