(* ===== verification/Watchdog.thy ===== *)
theory Watchdog
  imports Prelude
begin

text \<open>
  The contract of an idle timer. The program has two: the monitor of a response body, which
  re-arms its timer when it fires too early, and the timer of a tunnel, which every byte re-arms.
  A client of either sees the same thing: the timer expires at an instant exactly when nothing
  was transferred for the timeout before it, and it is never due later than that.
\<close>

datatype watch_event = Touched time | Fired time

fun watch_run ::
    "(time \<Rightarrow> 'w \<Rightarrow> 'w) \<Rightarrow> (time \<Rightarrow> 'w \<Rightarrow> 'w) \<Rightarrow> ('w \<Rightarrow> time option) \<Rightarrow> watch_event list \<Rightarrow> 'w \<Rightarrow> 'w option" where
  \<comment> \<open>the events of an armed timer, up to its expiry: it fires when it is due or later\<close>
  "watch_run touch fire due [] w = Some w"
| "watch_run touch fire due (ev # evs) w =
     (case due w of
        None \<Rightarrow> None
      | Some d \<Rightarrow>
          (case ev of
             Touched t \<Rightarrow> watch_run touch fire due evs (touch t w)
           | Fired t \<Rightarrow> if t < d then None else watch_run touch fire due evs (fire t w)))"

fun latest :: "time \<Rightarrow> watch_event list \<Rightarrow> time" where
  \<comment> \<open>the last transfer\<close>
  "latest t [] = t"
| "latest t (Touched u # evs) = latest u evs"
| "latest t (Fired u # evs) = latest t evs"

fun in_order :: "time \<Rightarrow> watch_event list \<Rightarrow> bool" where
  \<comment> \<open>the clock does not run backwards between transfers\<close>
  "in_order t [] = True"
| "in_order t (Touched u # evs) = (t \<le> u \<and> in_order u evs)"
| "in_order t (Fired u # evs) = in_order t evs"

lemma watch_run_append:
  "watch_run touch fire due (evs @ evs') w =
     (case watch_run touch fire due evs w of None \<Rightarrow> None | Some w' \<Rightarrow> watch_run touch fire due evs' w')"
  by (induction evs arbitrary: w) (auto split: option.split watch_event.split)

locale watchdog =
  fixes touch :: "time \<Rightarrow> 'w \<Rightarrow> 'w"
    and fire :: "time \<Rightarrow> 'w \<Rightarrow> 'w"
    and due :: "'w \<Rightarrow> time option"
    and active :: "'w \<Rightarrow> time"
    and timeout :: "'w \<Rightarrow> duration"
    and ok :: "'w \<Rightarrow> bool"
  assumes ok_touch: "ok w \<Longrightarrow> ok (touch t w)"
    and ok_fire: "ok w \<Longrightarrow> ok (fire t w)"
    and timeout_touch: "timeout (touch t w) = timeout w"
    and timeout_fire: "timeout (fire t w) = timeout w"
    and active_touch: "ok w \<Longrightarrow> due w \<noteq> None \<Longrightarrow> active (touch t w) = t"
    and active_fire: "due (fire t w) \<noteq> None \<Longrightarrow> active (fire t w) = active w"
    and due_touch: "ok w \<Longrightarrow> due w = Some d \<Longrightarrow> d \<le> active w + timeout w \<Longrightarrow> active w \<le> t \<Longrightarrow>
        \<exists>d'. due (touch t w) = Some d' \<and> d' \<le> t + timeout w"
    and expires: "due w = Some d \<Longrightarrow> d \<le> t \<Longrightarrow> d \<le> active w + timeout w \<Longrightarrow>
        due (fire t w) = None \<longleftrightarrow> active w + timeout w \<le> t"
    and rearmed: "due w = Some d \<Longrightarrow> d \<le> t \<Longrightarrow> due (fire t w) = Some d' \<Longrightarrow> d' \<le> active w + timeout w"
begin

definition armed :: "'w \<Rightarrow> bool" where
  "armed w \<longleftrightarrow> ok w \<and> (\<exists>d. due w = Some d \<and> d \<le> active w + timeout w)"

lemma run_armed:
  assumes "watch_run touch fire due evs w = Some w'" "armed w" "in_order (active w) evs" "due w' \<noteq> None"
  shows "armed w' \<and> active w' = latest (active w) evs \<and> timeout w' = timeout w"
  using assms
proof (induction evs arbitrary: w)
  case (Cons ev evs)
  obtain d where d: "ok w" "due w = Some d" "d \<le> active w + timeout w"
    using Cons.prems(2) by (auto simp: armed_def)
  show ?case
  proof (cases ev)
    case (Touched t)
    have "armed (touch t w)"
      using due_touch [OF d] Cons.prems(3) Touched d
      by (auto simp: armed_def timeout_touch active_touch ok_touch)
    with Cons.IH [of "touch t w"] Cons.prems Touched d show ?thesis
      by (simp add: timeout_touch active_touch)
  next
    case (Fired t)
    with Cons.prems(1) d have run: "d \<le> t" "watch_run touch fire due evs (fire t w) = Some w'"
      by (auto split: if_splits)
    have due: "due (fire t w) \<noteq> None"
      using run(2) Cons.prems(4) by (cases evs; cases "due (fire t w)") auto
    then have "armed (fire t w)"
      using rearmed [OF d(2) run(1)] d(1) by (auto simp: armed_def timeout_fire active_fire ok_fire)
    with Cons.IH [of "fire t w"] Cons.prems run Fired due show ?thesis
      by (simp add: timeout_fire active_fire)
  qed
qed simp

text \<open>The timer expires exactly when nothing was transferred for the timeout.\<close>

lemma expiry_exact:
  assumes "watch_run touch fire due evs w = Some w'" "armed w" "in_order (active w) evs"
    and "due w' = Some d" "d \<le> t"
  shows "due (fire t w') = None \<longleftrightarrow> latest (active w) evs + timeout w \<le> t"
  using run_armed [OF assms(1-3)] expires [OF assms(4,5)] assms(4) by (auto simp: armed_def)

text \<open>It is due no later than the timeout after the last transfer.\<close>

lemma due_in_time:
  assumes "watch_run touch fire due evs w = Some w'" "armed w" "in_order (active w) evs" "due w' = Some d"
  shows "d \<le> latest (active w) evs + timeout w"
  using run_armed [OF assms(1-3)] assms(4) by (auto simp: armed_def)

end

end
