(* ===== verification/Relay.thy ===== *)
theory Relay
  imports IoCopy Watchdog
begin

text \<open>
  \<open>relay\<close> of \<open>internal/proxy/tunnel.go\<close> with \<open>idleCloser\<close>, \<open>activityReader\<close>, \<open>flushingWriter\<close> and
  \<open>closeWrite\<close>: two goroutines copy one direction each, the main goroutine waits for both
  results, and a timer that every byte re-arms closes the pair when the tunnel is idle.

  The goroutines, the timer and whoever else closes the pair (shutdown, the end of an HTTP/2
  stream) make steps in any order: \<open>relay_step\<close> is labelled with the event. What the environment
  does is restricted by what \<open>net.Conn\<close> and \<open>bufio.Reader\<close> document: bytes that are already
  buffered are read first, and a source that has been closed gives no more bytes, only an error
  (or, without a body, its end). \<open>closePair\<close> is one step.
\<close>

subsection \<open>The idle timer\<close>

record idle_closer =
  ic_due :: "time option"      \<comment> \<open>of the \<open>time.AfterFunc\<close> timer; \<open>None\<close> once it fired or was stopped\<close>
  ic_stopped :: bool
  ic_timeout :: duration

definition new_idle_closer :: "duration \<Rightarrow> time \<Rightarrow> idle_closer" where
  "new_idle_closer duration now = \<lparr>ic_due = Some (time_add now duration), ic_stopped = False, ic_timeout = duration\<rparr>"

definition idle_touch :: "time \<Rightarrow> idle_closer \<Rightarrow> idle_closer" where
  "idle_touch t c = (if \<not> ic_stopped c then c\<lparr>ic_due := Some (time_add t (ic_timeout c))\<rparr> else c)"

definition idle_fire :: "time \<Rightarrow> idle_closer \<Rightarrow> idle_closer" where
  \<comment> \<open>the timer runs \<open>closePair\<close>\<close>
  "idle_fire t c = c\<lparr>ic_due := None\<rparr>"

definition idle_stop :: "idle_closer \<Rightarrow> idle_closer" where
  "idle_stop c = c\<lparr>ic_stopped := True, ic_due := None\<rparr>"

definition ic_active :: "idle_closer \<Rightarrow> time" where
  \<comment> \<open>when the timer was last set\<close>
  "ic_active c = (case ic_due c of None \<Rightarrow> 0 | Some d \<Rightarrow> d - ic_timeout c)"

definition ic_ok :: "idle_closer \<Rightarrow> bool" where
  "ic_ok c \<longleftrightarrow> (ic_stopped c \<longrightarrow> ic_due c = None)"

interpretation tunnel_watch: watchdog idle_touch idle_fire ic_due ic_active ic_timeout ic_ok
  by unfold_locales (auto simp: idle_touch_def idle_fire_def ic_active_def ic_ok_def time_add_def)

subsection \<open>State\<close>

datatype side = Up | Down    \<comment> \<open>client to upstream, upstream to client\<close>

record relay_side =
  sd_copier :: copier
  sd_buffered :: "byte list"            \<comment> \<open>what the \<open>bufio.Reader\<close> holds when the relay starts\<close>
  sd_half :: bool                       \<comment> \<open>the destination has been half-closed\<close>
  sd_result :: "io_err option option"   \<comment> \<open>the result, once sent\<close>

datatype relay_main = AwaitFirst | AwaitSecond "io_err option" | RelayEnded bool

record relay_state =
  ry_up :: relay_side
  ry_down :: relay_side
  ry_results :: "io_err option list"    \<comment> \<open>the channel\<close>
  ry_main :: relay_main
  ry_closed :: bool                     \<comment> \<open>\<open>closePair\<close> has been called\<close>
  ry_idle :: idle_closer

definition side_of :: "side \<Rightarrow> relay_state \<Rightarrow> relay_side" where
  "side_of x s = (case x of Up \<Rightarrow> ry_up s | Down \<Rightarrow> ry_down s)"

definition set_side :: "side \<Rightarrow> relay_side \<Rightarrow> relay_state \<Rightarrow> relay_state" where
  "set_side x d s = (case x of Up \<Rightarrow> s\<lparr>ry_up := d\<rparr> | Down \<Rightarrow> s\<lparr>ry_down := d\<rparr>)"

definition start_relay :: "duration \<Rightarrow> time \<Rightarrow> byte list \<Rightarrow> byte list \<Rightarrow> relay_state" where
  "start_relay idleTimeout now clientBytes upstreamBytes =
     \<lparr> ry_up = \<lparr>sd_copier = new_copier, sd_buffered = clientBytes, sd_half = False, sd_result = None\<rparr>,
       ry_down = \<lparr>sd_copier = new_copier, sd_buffered = upstreamBytes, sd_half = False, sd_result = None\<rparr>,
       ry_results = [], ry_main = AwaitFirst, ry_closed = False, ry_idle = new_idle_closer idleTimeout now \<rparr>"

subsection \<open>Steps\<close>

datatype relay_event =
    Copies side time copy_event
  | Ends side bool            \<comment> \<open>a copy is over: whether \<open>CloseWrite\<close>, if it is called, succeeds\<close>
  | IdleFires time
  | ClosedOutside
  | FirstResult
  | SecondResult

fun source_gives :: "bool \<Rightarrow> byte list \<Rightarrow> copy_event \<Rightarrow> bool" where
  \<comment> \<open>the pair is closed, the bytes still buffered\<close>
  "source_gives closed buffered (ReadReturns data err) =
     (if buffered \<noteq> [] then data = buffered \<and> err = None
      else (data \<noteq> [] \<or> err \<noteq> None) \<and> (closed \<longrightarrow> data = []))"
| "source_gives closed buffered (WriteReturns n failed) = True"

definition side_result :: "bool \<Rightarrow> bool \<Rightarrow> io_err option \<Rightarrow> io_err option" where
  \<comment> \<open>\<open>if err == nil { err = closeWrite(...) }\<close>\<close>
  "side_result half_close half_ok err =
     (if err = None \<and> half_close \<and> \<not> half_ok then Some IoFailed else err)"

definition activity_touch :: "time \<Rightarrow> copy_event \<Rightarrow> idle_closer \<Rightarrow> idle_closer" where
  \<comment> \<open>\<open>activityReader.Read\<close>, after the wrapped reader has returned\<close>
  [simp]: "activity_touch t ev c = (if chunk ev \<noteq> [] then idle_touch t c else c)"

inductive relay_step :: "bool \<Rightarrow> relay_state \<Rightarrow> relay_event \<Rightarrow> relay_state \<Rightarrow> bool" for halfCloseClient where
  copies:
    "copy_step ev (sd_copier (side_of x s)) = Some c \<Longrightarrow>
     source_gives (ry_closed s) (sd_buffered (side_of x s)) ev \<Longrightarrow>
     relay_step halfCloseClient s (Copies x t ev)
       ((set_side x ((side_of x s)\<lparr>sd_copier := c,
            sd_buffered := (case ev of ReadReturns _ _ \<Rightarrow> [] | _ \<Rightarrow> sd_buffered (side_of x s))\<rparr>) s)
        \<lparr>ry_idle := activity_touch t ev (ry_idle s)\<rparr>)"
| ends:
    "cp_phase (sd_copier (side_of x s)) = Copied err \<Longrightarrow> sd_result (side_of x s) = None \<Longrightarrow>
     half_close = (x = Up \<or> halfCloseClient) \<Longrightarrow> r = side_result half_close ok err \<Longrightarrow>
     relay_step halfCloseClient s (Ends x ok)
       ((set_side x ((side_of x s)\<lparr>sd_half := (err = None \<and> half_close), sd_result := Some r\<rparr>) s)
        \<lparr>ry_results := ry_results s @ [r]\<rparr>)"
| idle_fires:
    "ic_due (ry_idle s) = Some d \<Longrightarrow> d \<le> t \<Longrightarrow>
     relay_step halfCloseClient s (IdleFires t) (s\<lparr>ry_closed := True, ry_idle := idle_fire t (ry_idle s)\<rparr>)"
| closed_outside:
    "relay_step halfCloseClient s ClosedOutside (s\<lparr>ry_closed := True\<rparr>)"
| first_result:
    "ry_main s = AwaitFirst \<Longrightarrow> ry_results s = r # rs \<Longrightarrow>
     relay_step halfCloseClient s FirstResult
       (s\<lparr>ry_results := rs, ry_main := AwaitSecond r, ry_closed := (ry_closed s \<or> r \<noteq> None)\<rparr>)"
| second_result:
    \<comment> \<open>with the deferred \<open>idle.stop\<close>; the deferred \<open>closePair\<close> is the caller's\<close>
    "ry_main s = AwaitSecond first \<Longrightarrow> ry_results s = r # rs \<Longrightarrow>
     relay_step halfCloseClient s SecondResult
       (s\<lparr>ry_results := rs, ry_main := RelayEnded (first \<noteq> None \<or> r \<noteq> None), ry_idle := idle_stop (ry_idle s)\<rparr>)"

inductive_cases relay_stepE: "relay_step half s ev s'"

inductive_simps relay_step_first: "relay_step half s FirstResult s'"

inductive_simps relay_step_second: "relay_step half s SecondResult s'"

inductive relay_run :: "bool \<Rightarrow> relay_state \<Rightarrow> relay_event list \<Rightarrow> relay_state \<Rightarrow> bool" for halfCloseClient where
  start: "relay_run halfCloseClient s [] s"
| snoc: "relay_run halfCloseClient s evs s' \<Longrightarrow> relay_step halfCloseClient s' ev s'' \<Longrightarrow>
    relay_run halfCloseClient s (evs @ [ev]) s''"

text \<open>The steps as a function: an event leads to at most one state.\<close>

fun relay_exec :: "bool \<Rightarrow> relay_event \<Rightarrow> relay_state \<Rightarrow> relay_state option" where
  "relay_exec half (Copies x t ev) s =
     (let d = side_of x s in
      case copy_step ev (sd_copier d) of
        None \<Rightarrow> None
      | Some c \<Rightarrow>
          if source_gives (ry_closed s) (sd_buffered d) ev
          then Some ((set_side x (d\<lparr>sd_copier := c,
                 sd_buffered := (case ev of ReadReturns _ _ \<Rightarrow> [] | _ \<Rightarrow> sd_buffered d)\<rparr>) s)
               \<lparr>ry_idle := activity_touch t ev (ry_idle s)\<rparr>)
          else None)"
| "relay_exec half (Ends x ok) s =
     (let d = side_of x s in
      case cp_phase (sd_copier d) of
        Copied err \<Rightarrow>
          if sd_result d = None
          then (let hc = (x = Up \<or> half); r = side_result hc ok err
                in Some ((set_side x (d\<lparr>sd_half := (err = None \<and> hc), sd_result := Some r\<rparr>) s)
                     \<lparr>ry_results := ry_results s @ [r]\<rparr>))
          else None
      | _ \<Rightarrow> None)"
| "relay_exec half (IdleFires t) s =
     (case ic_due (ry_idle s) of
        None \<Rightarrow> None
      | Some d \<Rightarrow> if d \<le> t then Some (s\<lparr>ry_closed := True, ry_idle := idle_fire t (ry_idle s)\<rparr>) else None)"
| "relay_exec half ClosedOutside s = Some (s\<lparr>ry_closed := True\<rparr>)"
| "relay_exec half FirstResult s =
     (case (ry_main s, ry_results s) of
        (AwaitFirst, r # rs) \<Rightarrow>
          Some (s\<lparr>ry_results := rs, ry_main := AwaitSecond r, ry_closed := (ry_closed s \<or> r \<noteq> None)\<rparr>)
      | _ \<Rightarrow> None)"
| "relay_exec half SecondResult s =
     (case (ry_main s, ry_results s) of
        (AwaitSecond first, r # rs) \<Rightarrow>
          Some (s\<lparr>ry_results := rs, ry_main := RelayEnded (first \<noteq> None \<or> r \<noteq> None),
                  ry_idle := idle_stop (ry_idle s)\<rparr>)
      | _ \<Rightarrow> None)"

fun relay_exec_all :: "bool \<Rightarrow> relay_event list \<Rightarrow> relay_state \<Rightarrow> relay_state option" where
  "relay_exec_all half [] s = Some s"
| "relay_exec_all half (ev # evs) s =
     (case relay_exec half ev s of None \<Rightarrow> None | Some s' \<Rightarrow> relay_exec_all half evs s')"

lemma relay_step_exec: "relay_step half s ev s' \<Longrightarrow> relay_exec half ev s = Some s'"
  by (erule relay_stepE) (auto simp: Let_def)

lemma relay_exec_enabled:
  assumes "relay_exec half ev s = Some s'"
  shows "\<exists>s''. relay_step half s ev s''"
proof (cases ev)
  case (Copies x t ev')
  with assms obtain c where "copy_step ev' (sd_copier (side_of x s)) = Some c"
    "source_gives (ry_closed s) (sd_buffered (side_of x s)) ev'"
    by (auto simp: Let_def split: option.splits if_splits)
  then show ?thesis unfolding Copies by (blast intro: relay_step.copies)
next
  case (Ends x ok)
  with assms obtain err where "cp_phase (sd_copier (side_of x s)) = Copied err" "sd_result (side_of x s) = None"
    by (auto simp: Let_def split: copy_phase.splits if_splits)
  then show ?thesis unfolding Ends by (blast intro: relay_step.ends)
next
  case (IdleFires t)
  with assms show ?thesis by (auto split: option.splits if_splits intro: relay_step.idle_fires)
next
  case ClosedOutside
  then show ?thesis by (blast intro: relay_step.closed_outside)
next
  case FirstResult
  with assms show ?thesis by (auto split: relay_main.splits list.splits intro: relay_step.first_result)
next
  case SecondResult
  with assms show ?thesis by (auto split: relay_main.splits list.splits intro: relay_step.second_result)
qed

lemma relay_exec_step: "relay_step half s ev s' \<longleftrightarrow> relay_exec half ev s = Some s'"
  using relay_step_exec relay_exec_enabled by fastforce

lemma relay_exec_run: "relay_exec_all half evs s' = Some s'' \<Longrightarrow> relay_run half s evs0 s' \<Longrightarrow> relay_run half s (evs0 @ evs) s''"
proof (induction evs arbitrary: s' evs0)
  case (Cons ev evs)
  then obtain s1 where "relay_exec half ev s' = Some s1" "relay_exec_all half evs s1 = Some s''"
    by (auto split: option.splits)
  moreover from this Cons.prems(2) have "relay_run half s (evs0 @ [ev]) s1"
    by (auto simp: relay_exec_step intro: relay_run.snoc)
  ultimately show ?case using Cons.IH by fastforce
qed simp

subsection \<open>Sides\<close>

lemma side_of_simps [simp]:
  "side_of x (set_side x d s) = d"
  "x \<noteq> y \<Longrightarrow> side_of x (set_side y d s) = side_of x s"
  "side_of x (s\<lparr>ry_results := q\<rparr>) = side_of x s" "side_of x (s\<lparr>ry_main := m\<rparr>) = side_of x s"
  "side_of x (s\<lparr>ry_closed := c\<rparr>) = side_of x s" "side_of x (s\<lparr>ry_idle := i\<rparr>) = side_of x s"
  by (cases x; cases y; simp add: side_of_def set_side_def)+

lemma set_side_simps [simp]:
  "ry_results (set_side x d s) = ry_results s" "ry_main (set_side x d s) = ry_main s"
  "ry_closed (set_side x d s) = ry_closed s" "ry_idle (set_side x d s) = ry_idle s"
  by (cases x; simp add: set_side_def)+

lemma all_sides: "(\<forall>x. P x) \<longleftrightarrow> P Up \<and> P Down"
  by (metis side.exhaust)

lemma ex_side: "(\<exists>x. P x) \<longleftrightarrow> P Up \<or> P Down"
  by (metis side.exhaust)

subsection \<open>The invariant\<close>

definition side_ok :: "bool \<Rightarrow> byte list \<Rightarrow> relay_side \<Rightarrow> bool" where
  \<comment> \<open>whether it half-closes at its end, and what was buffered at the start\<close>
  "side_ok half_close first d \<longleftrightarrow>
     copier_ok (sd_copier d)
     \<and> (sd_buffered d = first \<and> cp_in (sd_copier d) = [] \<and> cp_phase (sd_copier d) = Reading
        \<or> sd_buffered d = [] \<and> (\<exists>more. cp_in (sd_copier d) = first @ more))
     \<and> (\<forall>r. sd_result d = Some r \<longrightarrow>
          (\<exists>err. cp_phase (sd_copier d) = Copied err \<and> (r = None \<longrightarrow> err = None) \<and> sd_half d = (err = None \<and> half_close)))"

definition sent :: "relay_state \<Rightarrow> nat" where
  "sent s = (if sd_result (ry_up s) = None then 0 else 1) + (if sd_result (ry_down s) = None then 0 else 1)"

definition some_error :: "relay_state \<Rightarrow> bool" where
  "some_error s \<longleftrightarrow> (\<exists>x e. sd_result (side_of x s) = Some (Some e))"

definition main_rel :: "io_err option list \<Rightarrow> relay_main \<Rightarrow> bool \<Rightarrow> bool \<Rightarrow> nat \<Rightarrow> bool \<Rightarrow> bool" where
  \<comment> \<open>the channel, the main goroutine, closed, stopped, results sent, one of them an error\<close>
  "main_rel results main closed stopped n err \<longleftrightarrow>
     length results + (case main of AwaitFirst \<Rightarrow> 0 | AwaitSecond _ \<Rightarrow> 1 | RelayEnded _ \<Rightarrow> 2) = n
     \<and> (\<forall>r \<in> set results. r \<noteq> None \<longrightarrow> err)
     \<and> (case main of
          AwaitFirst \<Rightarrow> err \<longrightarrow> (\<exists>r \<in> set results. r \<noteq> None)
        | AwaitSecond first \<Rightarrow> (first \<noteq> None \<longrightarrow> err \<and> closed)
            \<and> (err \<longrightarrow> first \<noteq> None \<or> (\<exists>r \<in> set results. r \<noteq> None))
        | RelayEnded e \<Rightarrow> (e \<longleftrightarrow> err) \<and> stopped)"

definition main_ok :: "relay_state \<Rightarrow> bool" where
  "main_ok s \<longleftrightarrow> main_rel (ry_results s) (ry_main s) (ry_closed s) (ic_stopped (ry_idle s)) (sent s) (some_error s)"

definition relay_inv :: "bool \<Rightarrow> byte list \<Rightarrow> byte list \<Rightarrow> relay_state \<Rightarrow> bool" where
  "relay_inv half cb ub s \<longleftrightarrow>
     side_ok True cb (ry_up s) \<and> side_ok half ub (ry_down s) \<and> main_ok s \<and> ic_ok (ry_idle s)"

lemma relay_inv_sides:
  "side_ok True cb (ry_up s) \<and> side_ok half ub (ry_down s) \<longleftrightarrow>
     (\<forall>x. side_ok (x = Up \<or> half) (case x of Up \<Rightarrow> cb | Down \<Rightarrow> ub) (side_of x s))"
  by (auto simp: all_sides side_of_def)

lemma sent_side: "sent s = (if sd_result (side_of x s) = None then 0 else 1)
    + (if sd_result (side_of (case x of Up \<Rightarrow> Down | Down \<Rightarrow> Up) s) = None then 0 else 1)"
  by (cases x) (auto simp: sent_def side_of_def)

lemma sent_set_side: "sd_result d = sd_result (side_of x s) \<Longrightarrow> sent (set_side x d s) = sent s"
  by (cases x) (auto simp: sent_def set_side_def side_of_def)

lemma sent_simps [simp]:
  "sent (s\<lparr>ry_results := q\<rparr>) = sent s" "sent (s\<lparr>ry_main := m\<rparr>) = sent s"
  "sent (s\<lparr>ry_closed := c\<rparr>) = sent s" "sent (s\<lparr>ry_idle := i\<rparr>) = sent s"
  by (simp_all add: sent_def)

lemma some_error_set_side: "sd_result d = sd_result (side_of x s) \<Longrightarrow> some_error (set_side x d s) = some_error s"
  by (cases x) (auto simp: some_error_def ex_side side_of_def set_side_def)

lemma some_error_simps [simp]:
  "some_error (s\<lparr>ry_results := q\<rparr>) = some_error s" "some_error (s\<lparr>ry_main := m\<rparr>) = some_error s"
  "some_error (s\<lparr>ry_closed := c\<rparr>) = some_error s" "some_error (s\<lparr>ry_idle := i\<rparr>) = some_error s"
  by (simp_all add: some_error_def)

lemma ic_ok_simps [simp]: "ic_ok c \<Longrightarrow> ic_ok (idle_touch t c)" "ic_ok c \<Longrightarrow> ic_ok (idle_fire t c)" "ic_ok (idle_stop c)"
  by (simp_all add: ic_ok_def idle_touch_def idle_fire_def idle_stop_def)

lemma side_ok_copies:
  assumes "side_ok hc first d" "copy_step ev (sd_copier d) = Some c" "source_gives closed (sd_buffered d) ev"
  shows "side_ok hc first (d\<lparr>sd_copier := c, sd_buffered := (case ev of ReadReturns _ _ \<Rightarrow> [] | _ \<Rightarrow> sd_buffered d)\<rparr>)"
proof -
  have "copier_ok c" using copier_ok_step [OF assms(2)] assms(1) by (simp add: side_ok_def)
  moreover have "sd_result d = None"
    using assms(1,2) by (cases ev; cases "sd_result d") (auto simp: side_ok_def copy_step.simps)
  moreover have "cp_in c = cp_in (sd_copier d) @ chunk ev" by (rule copy_step_in [OF assms(2)])
  ultimately show ?thesis
    using assms by (cases ev) (auto simp: side_ok_def copy_step.simps split: if_splits)
qed

lemma side_ok_ends:
  assumes "side_ok hc first d" "cp_phase (sd_copier d) = Copied err"
  shows "side_ok hc first (d\<lparr>sd_half := (err = None \<and> hc), sd_result := Some (side_result hc ok err)\<rparr>)"
  using assms by (simp add: side_ok_def side_result_def)

lemma side_ok_result:
  assumes "side_ok hc first d" "sd_result d = Some r"
  shows "copied (sd_copier d)"
    "r = None \<Longrightarrow> cp_phase (sd_copier d) = Copied None \<and> cp_in (sd_copier d) = cp_out (sd_copier d) \<and> sd_half d = hc"
  using assms copier_ok_complete [of "sd_copier d"] by (auto simp: side_ok_def copied_def)

lemma start_inv: "relay_inv half cb ub (start_relay T t cb ub)"
  by (simp add: relay_inv_def start_relay_def side_ok_def main_ok_def main_rel_def sent_def some_error_def
      side_of_def new_copier_def copier_ok_def ic_ok_def new_idle_closer_def split: side.split)

lemma ic_stopped_simps [simp]:
  "ic_stopped (idle_touch t c) = ic_stopped c" "ic_stopped (idle_fire t c) = ic_stopped c" "ic_stopped (idle_stop c)"
  by (simp_all add: idle_touch_def idle_fire_def idle_stop_def)

lemma main_ok_closed: "main_ok s \<Longrightarrow> main_ok (s\<lparr>ry_closed := True\<rparr>)"
  by (auto simp: main_ok_def main_rel_def split: relay_main.splits)

lemma main_ok_copies:
  "main_ok s \<Longrightarrow> sd_result d = sd_result (side_of x s) \<Longrightarrow> main_ok (set_side x d s)"
  by (simp add: main_ok_def sent_set_side some_error_set_side)

lemma main_ok_idle:
  "main_ok s \<Longrightarrow> ic_stopped i = ic_stopped (ry_idle s) \<Longrightarrow> main_ok (s\<lparr>ry_idle := i\<rparr>)"
  by (simp add: main_ok_def)

lemma main_rel_send:
  "main_rel q m c st n err \<Longrightarrow> n \<le> 1 \<Longrightarrow> main_rel (q @ [r]) m c st (Suc n) (r \<noteq> None \<or> err)"
  by (auto simp: main_rel_def split: relay_main.splits)

lemma main_rel_first:
  "main_rel (r # q) AwaitFirst c st n err \<Longrightarrow> main_rel q (AwaitSecond r) (c \<or> r \<noteq> None) st n err"
  by (auto simp: main_rel_def)

lemma main_rel_second:
  assumes "main_rel (r # q) (AwaitSecond first) c st n err" "n \<le> 2"
  shows "main_rel q (RelayEnded (first \<noteq> None \<or> r \<noteq> None)) c True n err"
proof -
  have "q = []" using assms by (cases q) (auto simp: main_rel_def)
  with assms show ?thesis by (auto simp: main_rel_def)
qed

lemma sent_le: "sent s \<le> 2"
  by (simp add: sent_def)

lemma main_ok_ends:
  assumes "main_ok s" "sd_result (side_of x s) = None"
  shows "main_ok ((set_side x ((side_of x s)\<lparr>sd_half := h, sd_result := Some r\<rparr>) s)\<lparr>ry_results := ry_results s @ [r]\<rparr>)"
proof -
  let ?s = "set_side x ((side_of x s)\<lparr>sd_half := h, sd_result := Some r\<rparr>) s"
  have "sent ?s = Suc (sent s)" "sent s \<le> 1"
    using assms(2) by (cases x; simp add: sent_def set_side_def side_of_def)+
  moreover have "some_error ?s \<longleftrightarrow> r \<noteq> None \<or> some_error s"
    using assms(2) by (cases x) (auto simp: some_error_def ex_side set_side_def side_of_def)
  ultimately show ?thesis
    using main_rel_send [of "ry_results s" "ry_main s" "ry_closed s" "ic_stopped (ry_idle s)" "sent s" "some_error s" r]
      assms(1) by (simp add: main_ok_def)
qed

text \<open>The sides as one statement, so that a step that changes one side is one case.\<close>

abbreviation sides_ok :: "bool \<Rightarrow> byte list \<Rightarrow> byte list \<Rightarrow> relay_state \<Rightarrow> bool" where
  "sides_ok half cb ub s \<equiv> (\<forall>x. side_ok (x = Up \<or> half) (case x of Up \<Rightarrow> cb | Down \<Rightarrow> ub) (side_of x s))"

lemma relay_inv_split: "relay_inv half cb ub s \<longleftrightarrow> sides_ok half cb ub s \<and> main_ok s \<and> ic_ok (ry_idle s)"
  unfolding relay_inv_def relay_inv_sides [symmetric] by simp

lemma sides_ok_set:
  assumes "sides_ok half cb ub s" "side_ok (x = Up \<or> half) (case x of Up \<Rightarrow> cb | Down \<Rightarrow> ub) d"
  shows "sides_ok half cb ub (set_side x d s)"
proof
  fix y show "side_ok (y = Up \<or> half) (case y of Up \<Rightarrow> cb | Down \<Rightarrow> ub) (side_of y (set_side x d s))"
    using assms by (cases "y = x") simp_all
qed

lemma relay_inv_step:
  assumes "relay_step half s ev s'" "relay_inv half cb ub s"
  shows "relay_inv half cb ub s'"
  using assms(1)
proof (cases rule: relay_step.cases)
  case (copies ev x c t)
  let ?d = "(side_of x s)\<lparr>sd_copier := c,
      sd_buffered := (case ev of ReadReturns _ _ \<Rightarrow> [] | _ \<Rightarrow> sd_buffered (side_of x s))\<rparr>"
  have "sides_ok half cb ub (set_side x ?d s)"
    using assms(2) by (intro sides_ok_set side_ok_copies [OF _ copies(3,4)]) (simp_all add: relay_inv_split)
  moreover have "main_ok (set_side x ?d s)"
    using assms(2) by (intro main_ok_copies) (simp_all add: relay_inv_split)
  ultimately show ?thesis
    using assms(2) unfolding copies(2) relay_inv_split by (simp add: main_ok_idle)
next
  case (ends x err half_close r ok)
  let ?d = "(side_of x s)\<lparr>sd_half := (err = None \<and> half_close), sd_result := Some r\<rparr>"
  have "side_ok (x = Up \<or> half) (case x of Up \<Rightarrow> cb | Down \<Rightarrow> ub) ?d"
    using assms(2) side_ok_ends [OF _ ends(3)] unfolding relay_inv_split ends(5,6) by blast
  then have "sides_ok half cb ub (set_side x ?d s)"
    using assms(2) by (intro sides_ok_set) (simp_all add: relay_inv_split)
  then show ?thesis
    using assms(2) main_ok_ends [OF _ ends(4)] unfolding ends(2) relay_inv_split by simp
next
  case (first_result r rs)
  then show ?thesis
    using assms(2) main_rel_first by (auto simp: relay_inv_split main_ok_def)
next
  case (second_result first r rs)
  then show ?thesis
    using assms(2) main_rel_second [OF _ sent_le] by (auto simp: relay_inv_split main_ok_def)
qed (use assms(2) in \<open>auto simp: relay_inv_split main_ok_idle main_ok_closed\<close>)

lemma relay_inv_run: "relay_run half s evs s' \<Longrightarrow> relay_inv half cb ub s \<Longrightarrow> relay_inv half cb ub s'"
  by (induction rule: relay_run.induct) (auto intro: relay_inv_step)

subsection \<open>What a run has done\<close>

fun came :: "side \<Rightarrow> relay_event list \<Rightarrow> byte list" where
  \<comment> \<open>the bytes a direction's source has given\<close>
  "came x [] = []"
| "came x (Copies y t ev # evs) = (if y = x then chunk ev @ came x evs else came x evs)"
| "came x (_ # evs) = came x evs"

lemma came_append: "came x (evs @ evs') = came x evs @ came x evs'"
  by (induction x evs rule: came.induct) simp_all

fun last_moved :: "time \<Rightarrow> relay_event list \<Rightarrow> time" where
  \<comment> \<open>when the last byte came, in either direction\<close>
  "last_moved t [] = t"
| "last_moved t (Copies y u ev # evs) = last_moved (if chunk ev \<noteq> [] then u else t) evs"
| "last_moved t (_ # evs) = last_moved t evs"

lemma last_moved_append: "last_moved t (evs @ evs') = last_moved (last_moved t evs) evs'"
  by (induction t evs rule: last_moved.induct) simp_all

definition copied_bytes :: "side \<Rightarrow> relay_state \<Rightarrow> byte list" where
  "copied_bytes x s = cp_in (sd_copier (side_of x s))"

lemma copied_bytes_step: "relay_step half s ev s' \<Longrightarrow> copied_bytes x s' = copied_bytes x s @ came x [ev]"
proof (erule relay_stepE)
  fix ev' y c t
  assume *: "ev = Copies y t ev'" "copy_step ev' (sd_copier (side_of y s)) = Some c"
    and s': "s' = set_side y ((side_of y s)\<lparr>sd_copier := c,
        sd_buffered := case ev' of ReadReturns xs x \<Rightarrow> [] | WriteReturns n x \<Rightarrow> sd_buffered (side_of y s)\<rparr>) s
      \<lparr>ry_idle := if chunk ev' \<noteq> [] then idle_touch t (ry_idle s) else ry_idle s\<rparr>"
  show "copied_bytes x s' = copied_bytes x s @ came x [ev]"
    using copy_step_in [OF *(2)] * s' by (cases "x = y") (simp_all add: copied_bytes_def)
next
  fix y err half_close r ok
  assume "ev = Ends y ok" "s' = set_side y ((side_of y s)\<lparr>sd_half := (err = None \<and> half_close), sd_result := Some r\<rparr>) s
      \<lparr>ry_results := ry_results s @ [r]\<rparr>"
  then show "copied_bytes x s' = copied_bytes x s @ came x [ev]"
    by (cases "x = y") (simp_all add: copied_bytes_def)
qed (simp_all add: copied_bytes_def)

lemma copied_bytes_run: "relay_run half s evs s' \<Longrightarrow> copied_bytes x s' = copied_bytes x s @ came x evs"
  by (induction rule: relay_run.induct) (simp_all add: copied_bytes_step came_append)

lemma copied_bytes_start [simp]: "copied_bytes x (start_relay T t cb ub) = []"
  by (cases x) (simp_all add: copied_bytes_def start_relay_def side_of_def new_copier_def)

fun fired :: "bool \<Rightarrow> relay_event list \<Rightarrow> bool" where
  \<comment> \<open>whether the timer has run since the last byte came\<close>
  "fired b [] = b"
| "fired b (Copies y u ev # evs) = fired (b \<and> chunk ev = []) evs"
| "fired b (IdleFires u # evs) = fired True evs"
| "fired b (_ # evs) = fired b evs"

lemma fired_append: "fired b (evs @ evs') = fired (fired b evs) evs'"
  by (induction b evs rule: fired.induct) simp_all

lemma idle_due_run:
  assumes "relay_run half (start_relay T t0 cb ub) evs s"
  shows "ic_timeout (ry_idle s) = T \<and> (ic_stopped (ry_idle s) \<longleftrightarrow> SecondResult \<in> set evs)
    \<and> ic_due (ry_idle s) = (if SecondResult \<in> set evs \<or> fired False evs then None else Some (last_moved t0 evs + T))"
  using assms
proof (induction "start_relay T t0 cb ub" evs s rule: relay_run.induct)
  case start
  show ?case by (simp add: start_relay_def new_idle_closer_def time_add_def)
next
  case (snoc evs s' ev s'')
  from snoc(3) show ?case
    by (cases rule: relay_step.cases)
      (use snoc(2) in \<open>auto simp: last_moved_append fired_append idle_touch_def idle_fire_def idle_stop_def time_add_def split: if_splits\<close>)
qed

lemma closed_for_a_reason:
  assumes "relay_run half (start_relay T t0 cb ub) evs s" "ry_closed s"
  shows "(\<exists>t. IdleFires t \<in> set evs) \<or> ClosedOutside \<in> set evs \<or> some_error s"
  using assms
proof (induction "start_relay T t0 cb ub" evs s rule: relay_run.induct)
  case start
  then show ?case by (simp add: start_relay_def)
next
  case (snoc evs s' ev s'')
  have inv: "relay_inv half cb ub s''"
    by (rule relay_inv_run [OF relay_run.snoc [OF snoc(1,3)] start_inv])
  from snoc(3) show ?case
  proof (cases rule: relay_step.cases)
    case (copies ev' x c t)
    let ?d = "(side_of x s')\<lparr>sd_copier := c,
      sd_buffered := (case ev' of ReadReturns _ _ \<Rightarrow> [] | _ \<Rightarrow> sd_buffered (side_of x s'))\<rparr>"
    have "some_error s'' = some_error s'"
      unfolding copies(2) using some_error_set_side [of ?d x s'] by simp
    with snoc(2,4) copies(2) show ?thesis by auto
  next
    case (ends x err half_close r ok)
    have "some_error s''" if "some_error s'"
      using that ends(4) unfolding ends(2) some_error_def
      by (metis option.distinct(1) side_of_simps(1-3))
    with snoc(2,4) ends(2) show ?thesis by auto
  next
    case (first_result r rs)
    with snoc(2,4) inv show ?thesis
      by (cases r) (auto simp: relay_inv_split main_ok_def main_rel_def)
  qed (use snoc(2,4) in auto)
qed

subsection \<open>A closed tunnel ends\<close>

definition side_work :: "relay_side \<Rightarrow> nat" where
  "side_work d =
     (if sd_result d \<noteq> None then 0
      else (case cp_phase (sd_copier d) of Reading \<Rightarrow> 2 | Writing _ _ \<Rightarrow> 3 | Copied _ \<Rightarrow> 1)
        + (if sd_buffered d = [] then 0 else 2))"

definition relay_work :: "relay_state \<Rightarrow> nat" where
  \<comment> \<open>bounds the steps left once the pair is closed\<close>
  "relay_work s =
     2 * side_work (ry_up s) + 2 * side_work (ry_down s)
     + (case ry_main s of AwaitFirst \<Rightarrow> 2 | AwaitSecond _ \<Rightarrow> 1 | RelayEnded _ \<Rightarrow> 0)
     + (if ic_due (ry_idle s) = None then 0 else 1)"

lemma side_work_copies:
  assumes "copy_step ev (sd_copier d) = Some c" "source_gives True (sd_buffered d) ev" "sd_result d = None"
  shows "side_work (d\<lparr>sd_copier := c, sd_buffered := (case ev of ReadReturns _ _ \<Rightarrow> [] | _ \<Rightarrow> sd_buffered d)\<rparr>) < side_work d"
  using assms
  by (cases ev) (auto simp: side_work_def copy_step.simps copy_outcome_def split: copy_phase.splits option.splits io_err.splits if_splits)

lemma relay_work_set:
  "side_work d < side_work (side_of x s) \<Longrightarrow>
     relay_work ((set_side x d s)\<lparr>ry_idle := i\<rparr>) < relay_work s"
  by (cases x) (auto simp: relay_work_def set_side_def side_of_def split: relay_main.splits)

lemma relay_work_step:
  assumes "relay_step half s ev s'" "ry_closed s" "relay_inv half cb ub s" "ev \<noteq> ClosedOutside"
  shows "relay_work s' < relay_work s"
  using assms(1)
proof (cases rule: relay_step.cases)
  case (copies ev x c t)
  have "sd_result (side_of x s) = None"
  proof (rule ccontr)
    assume "sd_result (side_of x s) \<noteq> None"
    then have "copied (sd_copier (side_of x s))"
      using assms(3) side_ok_result(1) unfolding relay_inv_split by blast
    from copied_stuck [OF this] copies(3) show False by simp
  qed
  moreover have "source_gives True (sd_buffered (side_of x s)) ev" using copies(4) assms(2) by simp
  ultimately show ?thesis
    unfolding copies(2) by (intro relay_work_set side_work_copies [OF copies(3)])
next
  case (ends x err half_close r ok)
  have "side_work ((side_of x s)\<lparr>sd_half := (err = None \<and> half_close), sd_result := Some r\<rparr>) < side_work (side_of x s)"
    using ends(3,4) by (simp add: side_work_def)
  from relay_work_set [OF this, of "ry_idle s"] show ?thesis
    unfolding ends(2) by (simp add: relay_work_def)
next
  case (idle_fires d t)
  then show ?thesis by (simp add: relay_work_def idle_fire_def)
next
  case (first_result r rs)
  then show ?thesis by (simp add: relay_work_def)
next
  case (second_result first r rs)
  then show ?thesis by (simp add: relay_work_def idle_stop_def)
qed (use assms(4) in simp)

lemma relay_stays_closed: "relay_step half s ev s' \<Longrightarrow> ry_closed s \<Longrightarrow> ry_closed s'"
  by (erule relay_stepE) simp_all

lemma relay_progress:
  assumes "relay_inv half cb ub s" "\<forall>e. ry_main s \<noteq> RelayEnded e"
  shows "\<exists>ev s'. ev \<noteq> ClosedOutside \<and> relay_step half s ev s'"
proof (cases "ry_results s")
  case (Cons r rs)
  with assms(2) show ?thesis
    by (cases "ry_main s") (blast intro: relay_step.first_result relay_step.second_result)+
next
  case Nil
  have "sent s \<le> 1"
    using assms Nil by (cases "ry_main s") (auto simp: relay_inv_split main_ok_def main_rel_def)
  then obtain x where x: "sd_result (side_of x s) = None"
    by (auto simp: sent_def side_of_def split: if_splits side.splits intro: that [of Up] that [of Down])
  let ?d = "side_of x s"
  show ?thesis
  proof (cases "cp_phase (sd_copier ?d)")
    case Reading
    let ?ev = "if sd_buffered ?d \<noteq> [] then ReadReturns (sd_buffered ?d) None else ReadReturns [] (Some IoFailed)"
    have "\<exists>c. copy_step ?ev (sd_copier ?d) = Some c" using Reading by (simp add: copy_step.simps)
    then obtain c where "copy_step ?ev (sd_copier ?d) = Some c" by blast
    moreover have "source_gives (ry_closed s) (sd_buffered ?d) ?ev" by simp
    ultimately have "\<exists>s'. relay_step half s (Copies x 0 ?ev) s'" by (blast intro: relay_step.copies)
    then show ?thesis by blast
  next
    case (Writing data err)
    then obtain c where "copy_step (WriteReturns 0 True) (sd_copier ?d) = Some c" by (auto simp: copy_step.simps)
    then have "\<exists>s'. relay_step half s (Copies x 0 (WriteReturns 0 True)) s'"
      by (blast intro: relay_step.copies source_gives.simps(2) [THEN iffD2])
    then show ?thesis by blast
  next
    case (Copied err)
    from relay_step.ends [OF this x refl refl, of half True] show ?thesis by blast
  qed
qed

lemma ended_stopped:
  assumes "relay_run half (start_relay T t0 cb ub) evs s" "ry_main s = RelayEnded e"
  shows "ic_stopped (ry_idle s) \<and> ic_due (ry_idle s) = None"
  using relay_inv_run [OF assms(1) start_inv] assms(2)
  by (auto simp: relay_inv_split main_ok_def main_rel_def ic_ok_def)

subsection \<open>Properties\<close>

definition sample_tunnel :: relay_state where
  "sample_tunnel = start_relay 100 0 [1] [2, 3]"

definition sample_exchange :: "relay_event list" where
  \<comment> \<open>the client sends its buffered byte and ends; the upstream's direction stays open\<close>
  "sample_exchange =
     [Copies Up 5 (ReadReturns [1] None), Copies Up 6 (WriteReturns 1 False),
      Copies Up 7 (ReadReturns [] (Some IoEOF)), Ends Up True, FirstResult, Copies Down 9 (ReadReturns [2, 3] None)]"

definition sample_tunnel_after :: "relay_event list \<Rightarrow> relay_state" where
  "sample_tunnel_after evs = the (relay_exec_all True evs sample_tunnel)"

lemma sample_tunnel_run:
  assumes "relay_exec_all True evs sample_tunnel \<noteq> None"
  shows "relay_run True (start_relay 100 0 [1] [2, 3]) evs (sample_tunnel_after evs)"
  using relay_exec_run [OF _ relay_run.start, of True evs sample_tunnel "sample_tunnel_after evs"] assms
  by (auto simp: sample_tunnel_after_def sample_tunnel_def)

lemma sample_exchange_run: "relay_exec_all True sample_exchange sample_tunnel \<noteq> None"
  by code_simp

text \<open>C3. A tunnel carries bytes faithfully in both directions, for every interleaving of the two
  copies, the timer and outside closing: what a side has been sent is a prefix of what the other
  has given, beginning with the bytes that were already buffered when the tunnel was set up; a
  direction that ends without error has delivered everything and half-closed its destination; and
  if the relay ends without error, both have.\<close>
theorem tunnel_bytes_exact:
  assumes "relay_run half (start_relay T t0 cb ub) evs s"
  shows "(\<exists>lost. came x evs = cp_out (sd_copier (side_of x s)) @ lost)
    \<and> (came x evs = [] \<or> (\<exists>more. came x evs = (case x of Up \<Rightarrow> cb | Down \<Rightarrow> ub) @ more))
    \<and> (sd_result (side_of x s) = Some None \<or> ry_main s = RelayEnded False \<longrightarrow>
         cp_out (sd_copier (side_of x s)) = came x evs \<and> sd_half (side_of x s) = (x = Up \<or> half))"
proof -
  let ?d = "side_of x s"
  have inv: "relay_inv half cb ub s" by (rule relay_inv_run [OF assms start_inv])
  then have side: "side_ok (x = Up \<or> half) (case x of Up \<Rightarrow> cb | Down \<Rightarrow> ub) ?d" and main: "main_ok s"
    by (simp_all add: relay_inv_split)
  have "copied_bytes x s = came x evs" using copied_bytes_run [OF assms, of x] by simp
  then have bytes: "cp_in (sd_copier ?d) = came x evs" by (simp only: copied_bytes_def)
  have "sd_result ?d = Some None" if "ry_main s = RelayEnded False"
  proof -
    have "\<not> some_error s" "sent s = 2 + length (ry_results s)" using main that by (auto simp: main_ok_def main_rel_def)
    then show ?thesis
      by (cases x) (auto simp: some_error_def ex_side sent_def side_of_def split: if_splits)
  qed
  with side_ok_result(2) [OF side] bytes
  have "sd_result ?d = Some None \<or> ry_main s = RelayEnded False \<longrightarrow>
      cp_out (sd_copier ?d) = came x evs \<and> sd_half ?d = (x = Up \<or> half)" by auto
  moreover have "\<exists>lost. came x evs = cp_out (sd_copier ?d) @ lost"
    using copier_ok_prefix [of "sd_copier ?d"] side bytes by (auto simp: side_ok_def)
  moreover have "came x evs = [] \<or> (\<exists>more. came x evs = (case x of Up \<Rightarrow> cb | Down \<Rightarrow> ub) @ more)"
    using side bytes by (auto simp: side_ok_def)
  ultimately show ?thesis by blast
qed

theorem tunnel_bytes_exact_witness:
  "sd_result (side_of Up (sample_tunnel_after sample_exchange)) = Some None
   \<and> cp_out (sd_copier (side_of Up (sample_tunnel_after sample_exchange))) = [1]"
proof -
  have "sd_result (side_of Up (sample_tunnel_after sample_exchange)) = Some None" by code_simp
  with tunnel_bytes_exact [OF sample_tunnel_run [OF sample_exchange_run], of Up] show ?thesis
    by (auto simp: sample_exchange_def)
qed

text \<open>A relay closes its tunnel only for a reason: both ends are still open unless the idle timer has
  fired, someone outside (shutdown, the end of the client's stream) has closed it, or a direction
  has failed. The end of one direction alone does not cut off the other; once both have ended,
  the timer is stopped.\<close>
theorem tunnel_half_open:
  assumes "relay_run half (start_relay T t0 cb ub) evs s"
  shows "(ry_closed s \<longrightarrow>
       (\<exists>t. IdleFires t \<in> set evs) \<or> ClosedOutside \<in> set evs
       \<or> (\<exists>x e. sd_result (side_of x s) = Some (Some e)))
    \<and> (\<forall>e. ry_main s = RelayEnded e \<longrightarrow> ic_stopped (ry_idle s) \<and> ic_due (ry_idle s) = None)"
proof -
  have "\<forall>e. ry_main s = RelayEnded e \<longrightarrow> ic_stopped (ry_idle s) \<and> ic_due (ry_idle s) = None"
    using ended_stopped [OF assms] by blast
  with closed_for_a_reason [OF assms] show ?thesis by (simp add: some_error_def)
qed

theorem tunnel_half_open_witness:
  "\<not> ry_closed (sample_tunnel_after sample_exchange)"
proof -
  let ?s = "sample_tunnel_after sample_exchange"
  have "sd_result (side_of Up ?s) = Some None" "sd_result (side_of Down ?s) = None"
    "(case ry_main ?s of RelayEnded _ \<Rightarrow> False | _ \<Rightarrow> True)" by code_simp+
  moreover have "(\<exists>x e. sd_result (side_of x ?s) = Some (Some e)) \<longleftrightarrow>
      (\<exists>e. sd_result (side_of Up ?s) = Some (Some e)) \<or> (\<exists>e. sd_result (side_of Down ?s) = Some (Some e))"
    by (rule ex_side)
  ultimately show ?thesis
    using tunnel_half_open [OF sample_tunnel_run [OF sample_exchange_run]] by (auto simp: sample_exchange_def)
qed

text \<open>C22. The idle timeout of a tunnel is exact, for every interleaving: until the relay has returned,
  the timer, armed from the start and again by every byte, can run \<open>closePair\<close> at an instant if and
  only if \<open>tunnel_idle_timeout\<close> has passed by then since the last byte in either direction (or
  the start of the relay), and it has not already done so since that byte. After the relay has
  returned it never fires.\<close>
theorem tunnel_idle_timeout_exact:
  assumes "relay_run half (start_relay T t0 cb ub) evs s"
  shows "((\<exists>s'. relay_step half s (IdleFires t) s') \<longleftrightarrow>
        SecondResult \<notin> set evs \<and> \<not> fired False evs \<and> last_moved t0 evs + T \<le> t)
    \<and> (\<forall>s'. relay_step half s (IdleFires t) s' \<longrightarrow> ry_closed s')"
proof -
  have "(\<exists>s'. relay_step half s (IdleFires t) s') \<longleftrightarrow> (\<exists>d. ic_due (ry_idle s) = Some d \<and> d \<le> t)"
    by (auto simp: relay_exec_step split: option.splits)
  moreover have "\<forall>s'. relay_step half s (IdleFires t) s' \<longrightarrow> ry_closed s'"
    by (auto simp: relay_exec_step split: option.splits if_splits)
  ultimately show ?thesis using idle_due_run [OF assms] by auto
qed

theorem tunnel_idle_timeout_exact_witness:
  "(\<exists>s'. relay_step True (sample_tunnel_after sample_exchange) (IdleFires 109) s')
   \<and> \<not> (\<exists>s'. relay_step True (sample_tunnel_after sample_exchange) (IdleFires 108) s')"
proof -
  have "SecondResult \<notin> set sample_exchange" "\<not> fired False sample_exchange" "last_moved 0 sample_exchange = 9"
    by code_simp+
  with tunnel_idle_timeout_exact [OF sample_tunnel_run [OF sample_exchange_run]] show ?thesis by simp
qed

text \<open>C21. Closing a tunnel ends it: once the pair is closed, whoever closed it, the two copies, the
  timer and the main goroutine can make at most 23 more steps altogether, in any order, and until
  the relay has returned there always is one; so shutdown never waits for a tunnel for ever.\<close>
theorem closed_tunnel_ends:
  assumes "relay_run half (start_relay T t0 cb ub) evs s" "ry_closed s"
  shows "relay_work s \<le> 23
    \<and> (\<forall>ev s'. relay_step half s ev s' \<longrightarrow> ev \<noteq> ClosedOutside \<longrightarrow> ry_closed s' \<and> relay_work s' < relay_work s)
    \<and> ((\<exists>e. ry_main s = RelayEnded e) \<or> (\<exists>ev s'. ev \<noteq> ClosedOutside \<and> relay_step half s ev s'))"
proof -
  have inv: "relay_inv half cb ub s" by (rule relay_inv_run [OF assms(1) start_inv])
  have "side_work d \<le> 5" for d by (simp add: side_work_def split: copy_phase.split)
  from this [of "ry_up s"] this [of "ry_down s"] have "relay_work s \<le> 23"
    by (simp add: relay_work_def split: relay_main.split)
  with relay_work_step [OF _ assms(2) inv] relay_stays_closed [OF _ assms(2)] relay_progress [OF inv]
  show ?thesis by blast
qed

theorem closed_tunnel_ends_witness:
  "\<exists>ev s'. ev \<noteq> ClosedOutside \<and> relay_step True (sample_tunnel_after (sample_exchange @ [ClosedOutside])) ev s'"
proof -
  let ?evs = "sample_exchange @ [ClosedOutside]"
  have run: "relay_exec_all True ?evs sample_tunnel \<noteq> None" by code_simp
  have "ry_closed (sample_tunnel_after ?evs)" by code_simp
  moreover have "(case ry_main (sample_tunnel_after ?evs) of RelayEnded _ \<Rightarrow> False | _ \<Rightarrow> True)" by code_simp
  ultimately show ?thesis
    using closed_tunnel_ends [OF sample_tunnel_run [OF run]] by auto
qed

end
