(* ===== verification/HttpMessages.thy ===== *)
theory HttpMessages
  imports Headers Validate
begin

text \<open>
  What the handlers of \<open>internal/proxy\<close> see of \<open>net/http\<close>: the client's request, an upstream's
  response, the \<open>ResponseWriter\<close> with \<open>http.Error\<close>, and errors as far as \<open>errors.Is\<close> and
  \<open>errors.As\<close> are asked about them; with \<open>writeUpstreamError\<close> and \<open>sanitizeError\<close> of \<open>http.go\<close>.
\<close>

record http_req =
  hr_Method :: string
  hr_URL :: parsed_url
  hr_Host :: string
  hr_Header :: header
  hr_ContentLength :: int
  hr_NoBody :: bool          \<comment> \<open>\<open>Body\<close> is \<open>nil\<close> or \<open>http.NoBody\<close>\<close>
  hr_RequestURI :: string
  hr_RemoteAddr :: string
  hr_ProtoMajor :: int
  hr_Hijacker :: bool

record http_resp =
  rs_StatusCode :: int
  rs_Header :: header

subsection \<open>The client's side\<close>

record client_writer =
  cw_Header :: header
  cw_Status :: "int option"   \<comment> \<open>the first \<open>WriteHeader\<close>\<close>
  cw_Body :: "byte list"

definition new_writer :: client_writer where
  "new_writer = \<lparr>cw_Header = Map.empty, cw_Status = None, cw_Body = []\<rparr>"

definition write_header :: "int \<Rightarrow> client_writer \<Rightarrow> client_writer" where
  \<comment> \<open>a second call has no effect\<close>
  "write_header code w = (if cw_Status w = None then w\<lparr>cw_Status := Some code\<rparr> else w)"

definition http_error :: "string \<Rightarrow> int \<Rightarrow> client_writer \<Rightarrow> client_writer" where
  \<comment> \<open>\<open>http.Error\<close>\<close>
  "http_error msg code w =
     (let h = header_set ''X-Content-Type-Options'' ''nosniff''
                (header_set ''Content-Type'' ''text/plain; charset=utf-8''
                  (header_del ''Content-Length'' (cw_Header w)));
          w1 = write_header code (w\<lparr>cw_Header := h\<rparr>)
      in w1\<lparr>cw_Body := cw_Body w1 @ map byte_of (msg @ [CHR 0x0A])\<rparr>)"

definition add_headers :: "header \<Rightarrow> client_writer \<Rightarrow> client_writer" where
  \<comment> \<open>\<open>w.Header().Add\<close> for every value of every field; the fields of a received header are canonical\<close>
  "add_headers h w =
     w\<lparr>cw_Header := (\<lambda>name. case h name of None \<Rightarrow> cw_Header w name | Some [] \<Rightarrow> cw_Header w name
         | Some vs \<Rightarrow> Some ((case cw_Header w name of None \<Rightarrow> [] | Some ws \<Rightarrow> ws) @ vs))\<rparr>"

lemma http_error_status: "cw_Status w = None \<Longrightarrow> cw_Status (http_error msg code w) = Some code"
  by (simp add: http_error_def write_header_def Let_def)

lemma new_writer_status [simp]: "cw_Status new_writer = None"
  by (simp add: new_writer_def)

lemma add_headers_status [simp]: "cw_Status (add_headers h w) = cw_Status w"
  by (simp add: add_headers_def)

subsection \<open>Errors\<close>

record go_error =
  ge_Deadline :: bool       \<comment> \<open>\<open>errors.Is(err, context.DeadlineExceeded)\<close>\<close>
  ge_Timeout :: bool        \<comment> \<open>\<open>errors.As\<close> a \<open>net.Error\<close> whose \<open>Timeout()\<close> is true\<close>
  ge_Unsupported :: bool    \<comment> \<open>\<open>errors.Is(err, socks.ErrUnsupportedDestination)\<close>\<close>
  ge_BodyIdle :: bool       \<comment> \<open>\<open>errors.Is(err, errResponseBodyIdle)\<close>\<close>

definition deadline_exceeded :: go_error where
  \<comment> \<open>\<open>context.DeadlineExceeded\<close>, which is also a \<open>net.Error\<close>\<close>
  "deadline_exceeded = \<lparr>ge_Deadline = True, ge_Timeout = True, ge_Unsupported = False, ge_BodyIdle = False\<rparr>"

definition write_upstream_error :: "go_error \<Rightarrow> client_writer \<Rightarrow> client_writer" where
  "write_upstream_error err w =
     (if ge_Deadline err \<or> ge_Timeout err then http_error ''Upstream proxy timed out'' 504 w
      else http_error ''Upstream proxy failed'' 502 w)"

definition sanitize_error :: "go_error \<Rightarrow> string" where
  "sanitize_error err =
     (if ge_BodyIdle err then ''response body idle timeout''
      else if ge_Deadline err \<or> ge_Timeout err then ''network timeout''
      else ''network error'')"

lemma write_upstream_error_status:
  "cw_Status w = None \<Longrightarrow> cw_Status (write_upstream_error e w) \<in> {Some 502, Some 504}"
  by (simp add: write_upstream_error_def http_error_status)

end
