(* ===== verification/Tunnels.thy ===== *)
theory Tunnels
  imports Relay HttpMessages
begin

text \<open>
  The rest of \<open>internal/proxy/tunnel.go\<close>: the registry of active tunnels with its \<open>WaitGroup\<close>, and
  \<open>relayHTTP1\<close> and \<open>relayHTTP2\<close>, which register a tunnel, answer the client and start the relay.

  A pair is named by a number; \<open>track\<close>, the release closure it returns and \<open>closeAll\<close> each hold
  the mutex, so each is one step, and the steps of all requests interleave as a list of
  operations. The contract the handlers and the shutdown use is the locale \<open>tunnel_tracker\<close>.
\<close>

subsection \<open>The registry\<close>

record registry =
  rg_closing :: bool
  rg_active :: "nat list"
  rg_wait :: int              \<comment> \<open>the counter of the \<open>WaitGroup\<close>\<close>
  rg_next :: nat

definition new_registry :: registry where
  "new_registry = \<lparr>rg_closing = False, rg_active = [], rg_wait = 0, rg_next = 0\<rparr>"

definition track :: "registry \<Rightarrow> registry \<times> nat option" where
  "track r =
     (if rg_closing r then (r, None)
      else (r\<lparr>rg_active := rg_active r @ [rg_next r], rg_wait := rg_wait r + 1, rg_next := Suc (rg_next r)\<rparr>,
            Some (rg_next r)))"

definition release_pair :: "nat \<Rightarrow> registry \<Rightarrow> registry" where
  \<comment> \<open>the closure \<open>track\<close> returns\<close>
  "release_pair h r =
     (if h \<in> set (rg_active r) then r\<lparr>rg_active := remove1 h (rg_active r), rg_wait := rg_wait r - 1\<rparr> else r)"

definition close_all :: "registry \<Rightarrow> registry \<times> nat list" where
  \<comment> \<open>the pairs whose \<open>close\<close> is called after the mutex is released\<close>
  "close_all r = (r\<lparr>rg_closing := True\<rparr>, rg_active r)"

fun wait_for :: "registry list \<Rightarrow> bool" where
  \<comment> \<open>\<open>waitFor\<close> over the states until its context ends: whether it returns \<open>nil\<close>\<close>
  "wait_for [] = False"
| "wait_for (r # rs) = (rg_wait r = 0 \<or> wait_for rs)"

subsection \<open>The contract\<close>

datatype reg_op = Track | ReleasePair nat | CloseAll

locale tunnel_tracker =
  fixes admit :: "'r \<Rightarrow> 'r \<times> nat option"
    and leave :: "nat \<Rightarrow> 'r \<Rightarrow> 'r"
    and shut :: "'r \<Rightarrow> 'r \<times> nat list"
    and live :: "'r \<Rightarrow> nat set"
    and counter :: "'r \<Rightarrow> int"
    and closing :: "'r \<Rightarrow> bool"
    and fresh :: "'r \<Rightarrow> nat"
    and inv :: "'r \<Rightarrow> bool"
  assumes inv_admit: "inv r \<Longrightarrow> inv (fst (admit r))"
    and inv_leave: "inv r \<Longrightarrow> inv (leave h r)"
    and inv_shut: "inv r \<Longrightarrow> inv (fst (shut r))"
    and counts: "inv r \<Longrightarrow> finite (live r) \<and> counter r = int (card (live r))"
    and admit_closing: "closing r \<Longrightarrow> admit r = (r, None)"
    and admit_open: "\<not> closing r \<Longrightarrow> snd (admit r) = Some (fresh r) \<and> live (fst (admit r)) = insert (fresh r) (live r)
        \<and> fresh r < fresh (fst (admit r))"
    and live_fresh: "inv r \<Longrightarrow> h \<in> live r \<Longrightarrow> h < fresh r"
    and fresh_leave: "fresh (leave h r) = fresh r"
    and fresh_shut: "fresh (fst (shut r)) = fresh r"
    and live_leave: "inv r \<Longrightarrow> live (leave h r) = live r - {h}"
    and live_shut: "live (fst (shut r)) = live r"
    and shut_all: "set (snd (shut r)) = live r"
    and closing_admit: "closing (fst (admit r)) = closing r"
    and closing_leave: "closing (leave h r) = closing r"
    and closing_shut: "closing (fst (shut r))"
begin

primrec step :: "reg_op \<Rightarrow> 'r \<Rightarrow> 'r" where
  "step Track r = fst (admit r)"
| "step (ReleasePair h) r = leave h r"
| "step CloseAll r = fst (shut r)"

lemma inv_step: "inv r \<Longrightarrow> inv (step x r)"
  by (cases x) (simp_all add: inv_admit inv_leave inv_shut)

lemma inv_run: "inv r \<Longrightarrow> inv (fold step xs r)"
  by (induction xs arbitrary: r) (simp_all add: inv_step)

lemma closing_step: "closing r \<Longrightarrow> closing (step x r)"
  by (cases x) (simp_all add: closing_admit closing_leave closing_shut)

lemma closing_run: "closing r \<Longrightarrow> closing (fold step xs r)"
  by (induction xs arbitrary: r) (simp_all add: closing_step)

lemma live_closing_step: "inv r \<Longrightarrow> closing r \<Longrightarrow> live (step x r) \<subseteq> live r"
  by (cases x) (auto simp: admit_closing live_leave live_shut)

lemma live_closing_run: "inv r \<Longrightarrow> closing r \<Longrightarrow> live (fold step xs r) \<subseteq> live r"
proof (induction xs arbitrary: r)
  case (Cons x xs)
  then show ?case using live_closing_step [of r x] inv_step [of r x] closing_step [of r x] by auto
qed simp

text \<open>Shutdown: whatever is still live later was told to close, and nothing new is admitted.\<close>

lemma shut_covers:
  assumes "inv r"
  shows "live (fold step xs (fst (shut r))) \<subseteq> set (snd (shut r))"
    "admit (fold step xs (fst (shut r))) = (fold step xs (fst (shut r)), None)"
  using live_closing_run [OF inv_shut [OF assms] closing_shut] closing_run [OF closing_shut]
  by (simp_all add: live_shut shut_all admit_closing)

text \<open>A pair that has left never comes back.\<close>

lemma gone_step: "inv r \<Longrightarrow> h < fresh r \<Longrightarrow> h \<notin> live r \<Longrightarrow> h < fresh (step x r) \<and> h \<notin> live (step x r)"
  using admit_open [of r] admit_closing [of r]
  by (cases x; cases "closing r") (auto simp: live_leave live_shut fresh_leave fresh_shut)

lemma gone_run: "inv r \<Longrightarrow> h < fresh r \<Longrightarrow> h \<notin> live r \<Longrightarrow> h \<notin> live (fold step xs r)"
  by (induction xs arbitrary: r) (simp_all add: gone_step inv_step)

lemma left_for_good:
  assumes "inv r" "h \<in> live r"
  shows "h \<notin> live (fold step xs (leave h r))"
  by (rule gone_run) (use assms live_fresh in \<open>auto simp: inv_leave fresh_leave live_leave\<close>)

text \<open>Once everything that was told to close has left, the counter is zero.\<close>

lemma drained:
  assumes "inv r" "\<forall>h \<in> set (snd (shut r)). ReleasePair h \<in> set xs"
  shows "counter (fold step xs (fst (shut r))) = 0"
proof -
  have gone: "h \<notin> live (fold step ys s)" if "ReleasePair h \<in> set ys" "inv s" "closing s" for h ys s
    using that
  proof (induction ys arbitrary: s)
    case (Cons y ys)
    note s = inv_step [OF Cons.prems(2), of y] closing_step [OF Cons.prems(3), of y]
    show ?case
    proof (cases "y = ReleasePair h")
      case True
      then have "h \<notin> live (step y s)" using Cons.prems(2) by (simp add: live_leave)
      then show ?thesis using live_closing_run [OF s] by auto
    next
      case False
      then show ?thesis using Cons.IH [OF _ s] Cons.prems(1) by simp
    qed
  qed simp
  have "live (fold step xs (fst (shut r))) = {}"
    using shut_covers(1) [OF assms(1), of xs] gone [OF _ inv_shut [OF assms(1)] closing_shut] assms(2) by blast
  then show ?thesis using counts [OF inv_run [OF inv_shut [OF assms(1)]]] by simp
qed

end

subsection \<open>The registry keeps it\<close>

definition reg_inv :: "registry \<Rightarrow> bool" where
  "reg_inv r \<longleftrightarrow> distinct (rg_active r) \<and> (\<forall>h \<in> set (rg_active r). h < rg_next r) \<and> rg_wait r = int (length (rg_active r))"

lemma reg_inv_new [simp]: "reg_inv new_registry"
  by (simp add: reg_inv_def new_registry_def)

lemma reg_inv_track [inv_intros]: "reg_inv r \<Longrightarrow> reg_inv (fst (track r))"
  by (auto simp: reg_inv_def track_def)

lemma reg_inv_release [inv_intros]: "reg_inv r \<Longrightarrow> reg_inv (release_pair h r)"
  by (auto simp: reg_inv_def release_pair_def length_remove1 notin_set_remove1 of_nat_diff Suc_le_eq
      dest: length_pos_if_in_set)

interpretation reg: tunnel_tracker track release_pair close_all "\<lambda>r. set (rg_active r)" rg_wait rg_closing rg_next reg_inv
proof unfold_locales
  fix r :: registry and h :: nat
  show "reg_inv r \<Longrightarrow> finite (set (rg_active r)) \<and> rg_wait r = int (card (set (rg_active r)))"
    by (simp add: reg_inv_def distinct_card)
  show "reg_inv r \<Longrightarrow> set (rg_active (release_pair h r)) = set (rg_active r) - {h}"
    by (auto simp: reg_inv_def release_pair_def)
qed (auto simp: reg_inv_track reg_inv_release, auto simp: track_def release_pair_def close_all_def reg_inv_def split: if_splits)

text \<open>The operations of all requests and of the shutdown, in the order of the mutex.\<close>

fun reg_step :: "reg_op \<Rightarrow> registry \<Rightarrow> registry" where
  "reg_step Track r = fst (track r)"
| "reg_step (ReleasePair h) r = release_pair h r"
| "reg_step CloseAll r = fst (close_all r)"

definition reg_run :: "reg_op list \<Rightarrow> registry \<Rightarrow> registry" where
  "reg_run ops r = fold reg_step ops r"

lemma reg_step_eq: "reg_step = reg.step"
proof (intro ext)
  show "reg_step x r = reg.step x r" for x r by (cases x) simp_all
qed

lemma reg_run_eq: "reg_run ops r = fold reg.step ops r"
  by (simp add: reg_run_def reg_step_eq)

subsection \<open>Handing the connections to the relay\<close>

datatype tunnel_end =
    NoHijack | TunnelsClosing | HeadNotSent
  | RelayOver relay_state

record tunnel_pair =
  tp_client_closed :: bool     \<comment> \<open>the connection, or the body of an HTTP/2 stream\<close>
  tp_upstream_closed :: bool

definition open_pair :: tunnel_pair where
  "open_pair = \<lparr>tp_client_closed = False, tp_upstream_closed = False\<rparr>"

definition close_pair :: "tunnel_pair \<Rightarrow> tunnel_pair" where
  \<comment> \<open>\<open>closePair\<close>; closing again does nothing\<close>
  "close_pair p = p\<lparr>tp_client_closed := True, tp_upstream_closed := True\<rparr>"

record tunnel_result =
  tr_end :: tunnel_end
  tr_pair :: tunnel_pair       \<comment> \<open>the two ends when the handler has returned\<close>

record relay_env =
  re_ok :: bool                \<comment> \<open>\<open>Hijack\<close> succeeds\<close>
  re_head_ok :: bool           \<comment> \<open>the answer is written and flushed\<close>
  re_during :: "reg_op list"   \<comment> \<open>others' operations on the registry until the handler returns\<close>
  re_now :: time
  re_buffered :: "byte list"   \<comment> \<open>what the hijacked \<open>clientBuffer\<close> already holds\<close>
  re_events :: "relay_event list"

definition connection_established :: string where
  "connection_established = ''HTTP/1.1 200 Connection Established'' @ [CHR 0x0D, CHR 0x0A, CHR 0x0D, CHR 0x0A]"

definition relay_over :: "bool \<Rightarrow> duration \<Rightarrow> relay_env \<Rightarrow> byte list \<Rightarrow> byte list \<Rightarrow> relay_state option" where
  \<comment> \<open>the events of this tunnel, if they bring the relay to its end\<close>
  "relay_over half idleTimeout re clientBytes upstreamBytes =
     (case relay_exec_all half (re_events re) (start_relay idleTimeout (re_now re) clientBytes upstreamBytes) of
        None \<Rightarrow> None
      | Some s \<Rightarrow> (case ry_main s of RelayEnded _ \<Rightarrow> Some s | _ \<Rightarrow> None))"

lemma relay_over_Some:
  assumes "relay_over half T re cb ub = Some s"
  shows "ic_stopped (ry_idle s) \<and> ic_due (ry_idle s) = None
    \<and> relay_run half (start_relay T (re_now re) cb ub) (re_events re) s"
proof -
  let ?s0 = "start_relay T (re_now re) cb ub"
  obtain s1 where x: "relay_exec_all half (re_events re) ?s0 = Some s1"
    using assms by (cases "relay_exec_all half (re_events re) ?s0") (simp_all add: relay_over_def)
  with assms obtain e where e: "s1 = s" "ry_main s = RelayEnded e"
    by (cases "ry_main s1") (simp_all add: relay_over_def)
  have "relay_run half ?s0 (re_events re) s1" using relay_exec_run [OF x relay_run.start] by simp
  then show ?thesis using e ended_stopped \<open>relay_run half ?s0 (re_events re) s1\<close> by blast
qed

definition after_relay :: "relay_state \<Rightarrow> tunnel_pair \<Rightarrow> tunnel_pair" where
  \<comment> \<open>the timer, a failed direction or someone outside may have run \<open>closePair\<close> during the relay\<close>
  "after_relay s p = (if ry_closed s then close_pair p else p)"

definition relay_http1 ::
    "duration \<Rightarrow> relay_env \<Rightarrow> byte list \<Rightarrow> registry \<Rightarrow> (tunnel_result \<times> byte list \<times> registry) option" where
  \<comment> \<open>the bytes the upstream's reader already holds; the result has what is written to the client
    before the relay, and is \<open>None\<close> while the relay runs\<close>
  "relay_http1 idleTimeout re upstreamBytes r =
     (if \<not> re_ok re then Some (\<lparr>tr_end = NoHijack, tr_pair = open_pair\<lparr>tp_upstream_closed := True\<rparr>\<rparr>, [], r)
      else case track r of
        (r1, None) \<Rightarrow> Some (\<lparr>tr_end = TunnelsClosing, tr_pair = close_pair open_pair\<rparr>, [], r1)
      | (r1, Some h) \<Rightarrow>
          (let r2 = release_pair h (reg_run (re_during re) r1);
               deferred = (\<lambda>ending p. \<lparr>tr_end = ending, tr_pair = close_pair p\<rparr>) in
           if \<not> re_head_ok re then Some (deferred HeadNotSent open_pair, [], r2)
           else case relay_over True idleTimeout re (re_buffered re) upstreamBytes of
             None \<Rightarrow> None
           | Some s \<Rightarrow>
               Some (deferred (RelayOver s) (after_relay s open_pair), map byte_of connection_established, r2)))"

definition relay_http2 ::
    "duration \<Rightarrow> relay_env \<Rightarrow> byte list \<Rightarrow> client_writer \<Rightarrow> registry \<Rightarrow> (tunnel_result \<times> client_writer \<times> registry) option" where
  \<comment> \<open>the request body is not buffered\<close>
  "relay_http2 idleTimeout re upstreamBytes w r =
     (case track r of
        (r1, None) \<Rightarrow>
          Some (\<lparr>tr_end = TunnelsClosing, tr_pair = close_pair open_pair\<rparr>, http_error ''Server shutting down'' 503 w, r1)
      | (r1, Some h) \<Rightarrow>
          (let r2 = release_pair h (reg_run (re_during re) r1); w1 = write_header 200 w;
               deferred = (\<lambda>ending p. \<lparr>tr_end = ending, tr_pair = close_pair p\<rparr>) in
           if \<not> re_head_ok re then Some (deferred HeadNotSent open_pair, w1, r2)
           else case relay_over False idleTimeout re [] upstreamBytes of
             None \<Rightarrow> None
           | Some s \<Rightarrow>
               Some (deferred (RelayOver s) (after_relay s open_pair),
                     w1\<lparr>cw_Body := cw_Body w1 @ cp_out (sd_copier (ry_down s))\<rparr>, r2)))"

subsection \<open>Properties\<close>

text \<open>C27. The registry of tunnels never miscounts: whatever requests and the shutdown do, in any
  order, and even if a release function is called again, the counter of the \<open>WaitGroup\<close> is the
  number of active tunnels (so \<open>Done\<close> never panics), and a tunnel that has left never counts again.\<close>
theorem registry_counts:
  "rg_wait (reg_run ops new_registry) = int (card (set (rg_active (reg_run ops new_registry))))
   \<and> distinct (rg_active (reg_run ops new_registry))
   \<and> set (rg_active (reg_run later (release_pair h (reg_run ops new_registry)))) \<inter>
       ({h} \<inter> set (rg_active (reg_run ops new_registry))) = {}"
proof -
  have inv: "reg_inv (reg_run ops new_registry)"
    unfolding reg_run_eq by (rule reg.inv_run) simp
  then show ?thesis
    using reg.counts [OF inv] reg.left_for_good [OF inv, of h later] by (auto simp: reg_inv_def reg_run_eq)
qed

text \<open>C26. Shutdown reaches every tunnel: after \<open>closeAll\<close> no tunnel is admitted any more, every one
  that is still active had its \<open>close\<close> called, and once those have left, \<open>waitFor\<close> returns
  \<open>nil\<close>.\<close>
theorem shutdown_reaches_all_tunnels:
  assumes "r = reg_run ops new_registry" "(r', pairs) = close_all r"
  shows "track (reg_run later r') = (reg_run later r', None)
    \<and> set (rg_active (reg_run later r')) \<subseteq> set pairs
    \<and> (list_all (\<lambda>h. ReleasePair h \<in> set later) pairs \<longrightarrow> wait_for [reg_run later r'])"
proof -
  have inv: "reg_inv r" unfolding assms(1) reg_run_eq by (rule reg.inv_run) simp
  have r': "r' = fst (close_all r)" "pairs = snd (close_all r)" using assms(2) by (metis fst_conv, metis snd_conv)
  show ?thesis
    using reg.shut_covers [OF inv, of later] reg.drained [OF inv, of later] by (auto simp: r' reg_run_eq list_all_iff)
qed

theorem shutdown_reaches_all_tunnels_witness:
  "wait_for [reg_run [ReleasePair 1, Track, ReleasePair 0, ReleasePair 1] (fst (close_all (reg_run [Track, Track] new_registry)))]"
proof -
  let ?r = "reg_run [Track, Track] new_registry"
  have p: "(fst (close_all ?r), [0, 1]) = close_all ?r" by code_simp
  show ?thesis
    using shutdown_reaches_all_tunnels [OF refl p, of "[ReleasePair 1, Track, ReleasePair 0, ReleasePair 1]"] by simp
qed

text \<open>C25. A tunnel handler leaves nothing behind: whenever \<open>relayHTTP1\<close> or \<open>relayHTTP2\<close> returns, by
  whatever path, the connection to the upstream is closed, and so is the client's side, except
  where \<open>Hijack\<close> has failed and the handler never had the client's connection; the idle timer is
  stopped; the tunnel is no longer registered; and a client is told that the tunnel is established
  only if it was registered. The relay was given the bytes the upstream's reader held.\<close>
theorem tunnel_handler_cleans_up:
  assumes "reg_inv r"
  shows "(case relay_http1 T re ub r of
        None \<Rightarrow> True
      | Some (res, head, r') \<Rightarrow>
          tp_upstream_closed (tr_pair res)
          \<and> (tp_client_closed (tr_pair res) \<or> tr_end res = NoHijack \<and> \<not> re_ok re \<and> head = [] \<and> r' = r)
          \<and> (\<forall>s. tr_end res = RelayOver s \<longrightarrow> ic_due (ry_idle s) = None
               \<and> relay_run True (start_relay T (re_now re) (re_buffered re) ub) (re_events re) s)
          \<and> rg_next r \<notin> set (rg_active r') \<and> (head \<noteq> [] \<longrightarrow> \<not> rg_closing r \<and> head = map byte_of connection_established))
    \<and> (case relay_http2 T re ub new_writer r of
        None \<Rightarrow> True
      | Some (res, w, r') \<Rightarrow>
          tp_upstream_closed (tr_pair res) \<and> tp_client_closed (tr_pair res)
          \<and> (\<forall>s. tr_end res = RelayOver s \<longrightarrow> ic_due (ry_idle s) = None
               \<and> relay_run False (start_relay T (re_now re) [] ub) (re_events re) s)
          \<and> rg_next r \<notin> set (rg_active r')
          \<and> cw_Status w = Some (if rg_closing r then 503 else 200))"
proof -
  have gone: "rg_next r \<notin> set (rg_active (release_pair h (reg_run ops r1)))" if "track r = (r1, Some h)" for r1 h ops
  proof -
    have "reg_inv (reg_run ops r1)" "h = rg_next r"
      using that reg_inv_track [OF assms] by (auto simp: reg_run_eq reg.inv_run track_def split: if_splits)
    then show ?thesis by (simp add: reg.live_leave)
  qed
  have same: "rg_next r \<notin> set (rg_active r)" using assms by (auto simp: reg_inv_def)
  have closing: "rg_closing r \<longleftrightarrow> track r = (r, None)" by (auto simp: track_def)
  obtain r1 ho where t: "track r = (r1, ho)" by (cases "track r")
  show ?thesis
  proof (cases ho)
    case None
    with t have "r1 = r" "rg_closing r" by (auto simp: track_def split: if_splits)
    with t None same show ?thesis
      by (simp add: relay_http1_def relay_http2_def close_pair_def open_pair_def http_error_status)
  next
    case (Some h)
    with t have "\<not> rg_closing r" by (auto simp: track_def)
    with t Some gone same relay_over_Some show ?thesis
      by (auto simp: relay_http1_def relay_http2_def close_pair_def open_pair_def write_header_def Let_def split: option.split)
  qed
qed

definition sample_relay_env :: relay_env where
  \<comment> \<open>both directions end\<close>
  "sample_relay_env =
     \<lparr> re_ok = True, re_head_ok = True, re_during = [Track, CloseAll], re_now = 0, re_buffered = [],
       re_events = [Copies Up 7 (ReadReturns [] (Some IoEOF)), Ends Up True, FirstResult, Copies Down 9 (ReadReturns [2, 3] None),
         Copies Down 9 (WriteReturns 2 False), Copies Down 12 (ReadReturns [] (Some IoEOF)), Ends Down True, SecondResult] \<rparr>"

lemma sample_relay_runs: "relay_http1 100 sample_relay_env [2, 3] new_registry \<noteq> None"
  by code_simp

theorem tunnel_handler_cleans_up_witness:
  "case relay_http1 100 sample_relay_env [2, 3] new_registry of
     None \<Rightarrow> False | Some (res, head, r') \<Rightarrow> tp_upstream_closed (tr_pair res) \<and> 0 \<notin> set (rg_active r')"
proof -
  have "rg_next new_registry = 0" by (simp add: new_registry_def)
  then show ?thesis
    using tunnel_handler_cleans_up [OF reg_inv_new, where T = 100 and re = sample_relay_env and ub = "[2, 3]"] sample_relay_runs
    by (cases "relay_http1 100 sample_relay_env [2, 3] new_registry") auto
qed

end
