(* ===== verification/Connect.thy ===== *)
theory Connect
  imports ConnectReply Auth Balancer Limits Tunnels
begin

text \<open>
  \<open>internal/proxy/connect.go\<close>: tunnels. \<open>dial_connect\<close> opens a tunnel through one upstream;
  \<open>handle_connect\<close> validates the request, takes a tunnel slot, makes at most two attempts, and runs
  the relay, holding the slot until that has returned.

  The outside of an attempt (dial, TLS handshake, deadlines, contexts, clock) is a record. Other
  requests work on the shared selector and limiter at the same time: their operations between two
  steps of this request are lists of operations in its environment record.
\<close>

subsection \<open>Opening a tunnel through one upstream\<close>

datatype setup_error =
    SetupURL url_error | SetupSocks socks_error | SetupDial | SetupDeadline | SetupHandshake
  | SetupWrite | SetupReply reply_error | SetupStatus int | SetupCtx ctx_error

record connect_io =
  ci_dial :: dial_env
  ci_handshake :: "nat \<Rightarrow> string \<Rightarrow> conn \<Rightarrow> conn option"
  ci_read_deadline_ok :: bool
  ci_buffered :: nat     \<comment> \<open>how many bytes behind the head the \<open>bufio.Reader\<close> has read with it\<close>

definition upstream_credentials :: "upstream_config \<Rightarrow> credentials" where
  "upstream_credentials up =
     \<lparr> cr_Enabled = upauth_Enabled (up_Auth up), cr_Username = upauth_Username (up_Auth up),
       cr_Password = upauth_Password (up_Auth up) \<rparr>"

definition dial_network :: "proxy_config \<Rightarrow> string" where
  "dial_network p = (if prx_Network p = ''auto'' then ''tcp'' else prx_Network p)"

definition connect_dial_options :: "proxy_config \<Rightarrow> dial_options" where
  "connect_dial_options p =
     \<lparr> do_Network = dial_network p, do_Timeout = prx_DialTimeout p, do_KeepAlive = prx_DialKeepAlive p \<rparr>"

definition setup_timeout :: "proxy_config \<Rightarrow> duration" where
  \<comment> \<open>\<open>time.Duration(Timeout) * time.Second\<close>\<close>
  "setup_timeout p = seconds (prx_Timeout p)"

definition setup_context :: "duration \<Rightarrow> dial_env \<Rightarrow> dial_env" where
  \<comment> \<open>\<open>context.WithTimeout\<close>: a context whose deadline has passed fails every dial\<close>
  "setup_context timeout env =
     (let own = time_add (de_now env) timeout;
          deadline = (case de_ctx_deadline env of Some d \<Rightarrow> min d own | None \<Rightarrow> own)
      in if deadline \<le> de_now env
         then env\<lparr>de_dial := (\<lambda>_ _. None), de_ctx_deadline := Some deadline,
                  de_ctx_failed := Some DeadlineExceeded, de_ctx_done := Some DeadlineExceeded\<rparr>
         else env\<lparr>de_ctx_deadline := Some deadline\<rparr>)"

definition setup_error_of :: "dial_env \<Rightarrow> setup_error \<Rightarrow> setup_error" where
  \<comment> \<open>\<open>setupError\<close>\<close>
  "setup_error_of env err = (case de_ctx_failed env of Some x \<Rightarrow> SetupCtx x | None \<Rightarrow> err)"

definition crlf :: string where
  "crlf = [CHR 0x0D, CHR 0x0A]"

definition connect_request :: "string \<Rightarrow> upstream_auth \<Rightarrow> string" where
  "connect_request target auth =
     ''CONNECT '' @ target @ '' HTTP/1.1'' @ crlf @ ''Host: '' @ target @ crlf
     @ (if upauth_Enabled auth
        then ''Proxy-Authorization: Basic ''
          @ base64_encode (upauth_Username auth @ '':'' @ upauth_Password auth) @ crlf
        else [])
     @ crlf"

definition write_string :: "byte list \<Rightarrow> conn \<Rightarrow> bool \<times> conn" where
  \<comment> \<open>\<open>io.WriteString\<close>: one \<open>Write\<close>, whose error alone is looked at\<close>
  "write_string data c =
     (case cn_writes c of
        [] \<Rightarrow> (True, c\<lparr>cn_output := cn_output c @ data\<rparr>)
      | Wrote n # ws \<Rightarrow> (True, c\<lparr>cn_output := cn_output c @ take n data, cn_writes := ws\<rparr>)
      | WriteError n # ws \<Rightarrow> (False, c\<lparr>cn_output := cn_output c @ take n data, cn_writes := ws\<rparr>))"

definition reader_of :: "conn \<Rightarrow> reader" where
  "reader_of c = \<lparr>rd_stream = cn_input c, rd_end = cn_end c\<rparr>"

definition request_tunnel ::
    "nat \<Rightarrow> parsed_url \<Rightarrow> upstream_auth \<Rightarrow> string \<Rightarrow> duration \<Rightarrow> connect_io \<Rightarrow> conn \<Rightarrow> (setup_error + reader) \<times> conn" where
  \<comment> \<open>from the open connection to the reader of the tunnel; every error closes the connection. The
    reader goes on with the bytes it has buffered; the connection itself has only those after them.\<close>
  "request_tunnel index u auth target timeout io c0 =
     (let env = ci_dial io in
      if \<not> de_set_ok env then (Inl SetupDeadline, close_conn c0)
      else
        (let c1 = c0\<lparr>cn_deadline := Some (time_add (de_now env) timeout)\<rparr> in
         case (if url_Scheme u = ''https'' then ci_handshake io index (hostname u) c1 else Some c1) of
           None \<Rightarrow> (Inl (setup_error_of env SetupHandshake), close_conn c1)
         | Some c2 \<Rightarrow>
             (case write_string (map byte_of (connect_request target auth)) c2 of
                (False, c3) \<Rightarrow> (Inl (setup_error_of env SetupWrite), close_conn c3)
              | (True, c3) \<Rightarrow>
                  if \<not> ci_read_deadline_ok io then (Inl SetupDeadline, close_conn c3)
                  else
                    (case read_connect_status (reader_of c3) of
                       (Inl err, r) \<Rightarrow>
                         (Inl (setup_error_of env (SetupReply err)),
                          close_conn (c3\<lparr>cn_input := drop (ci_buffered io) (rd_stream r)\<rparr>))
                     | (Inr status, r) \<Rightarrow>
                         (let c4 = c3\<lparr>cn_input := drop (ci_buffered io) (rd_stream r)\<rparr> in
                          if status \<noteq> 200 then (Inl (SetupStatus status), close_conn c4)
                          else if \<not> de_clear_ok env then (Inl SetupDeadline, close_conn c4)
                          else (Inr r, c4\<lparr>cn_deadline := None\<rparr>))))))"

definition dial_connect ::
    "host_env \<Rightarrow> config \<Rightarrow> nat \<Rightarrow> string \<Rightarrow> connect_io \<Rightarrow> (setup_error + (conn \<times> reader)) \<times> conn option" where
  \<comment> \<open>the result, and the connection the call has opened, as it leaves it\<close>
  "dial_connect henv cfg index target io0 =
     (let up = cfg_Upstreams cfg ! index in
      case upstream_url henv up of
        Inl e \<Rightarrow> (Inl (SetupURL e), None)
      | Inr u \<Rightarrow>
          (let p = cfg_Proxy cfg; timeout = setup_timeout p;
               env = setup_context timeout (ci_dial io0); io = io0\<lparr>ci_dial := env\<rparr> in
           if url_Scheme u = ''socks4'' \<or> url_Scheme u = ''socks5'' then
             (case dial_context (url_Scheme u) (url_Host u) target (upstream_credentials up)
                     (connect_dial_options p) env of
                (Inl err, oc) \<Rightarrow> (Inl (setup_error_of env (SetupSocks err)), oc)
              | (Inr c, oc) \<Rightarrow> (Inr (c, reader_of c), oc))
           else
             (case de_dial env (dial_network p) (url_Host u) of
                None \<Rightarrow> (Inl (setup_error_of env SetupDial), None)
              | Some c0 \<Rightarrow>
                  (case request_tunnel index u (up_Auth up) target timeout io c0 of
                     (Inl err, c) \<Rightarrow> (Inl err, Some c)
                   | (Inr r, c) \<Rightarrow> (Inr (c, r), Some c)))))"

subsection \<open>The request handler\<close>

record connect_req =
  rq_Host :: string
  rq_URL_Host :: string
  rq_RemoteAddr :: string
  rq_ProtoMajor :: int
  rq_Hijacker :: bool

datatype connect_reject = BadTarget | BadPort | BadProto | NoHijacker | TunnelLimit

definition reject_status :: "connect_reject \<Rightarrow> int" where
  "reject_status x =
     (case x of BadTarget \<Rightarrow> 400 | BadPort \<Rightarrow> 400 | BadProto \<Rightarrow> 505 | NoHijacker \<Rightarrow> 500 | TunnelLimit \<Rightarrow> 429)"

definition connect_target :: "connect_req \<Rightarrow> connect_reject + string" where
  "connect_target r =
     (let target = (if rq_Host r = [] then rq_URL_Host r else rq_Host r) in
      case split_host_port target of
        Inl _ \<Rightarrow> Inl BadTarget
      | Inr (host, port) \<Rightarrow>
          if host = [] \<or> contains_any host [CHR 0x0D, CHR 0x0A] then Inl BadTarget
          else case atoi port of
            None \<Rightarrow> Inl BadPort
          | Some n \<Rightarrow>
              if n < 1 \<or> n > 65535 then Inl BadPort
              else if rq_ProtoMajor r \<noteq> 1 \<and> rq_ProtoMajor r \<noteq> 2 then Inl BadProto
              else if rq_ProtoMajor r = 1 \<and> \<not> rq_Hijacker r then Inl NoHijacker
              else Inr target)"

record attempt_env =
  ae_io :: connect_io
  ae_during :: "sel_op list"    \<comment> \<open>other requests' selector operations while the tunnel is set up\<close>
  ae_gone :: bool               \<comment> \<open>the client's context has ended\<close>
  ae_fail_now :: time
  ae_between :: "sel_op list"   \<comment> \<open>other requests' operations between \<open>MarkFailure\<close> and \<open>Next\<close>\<close>
  ae_next_now :: time
  ae_draw :: nat

datatype connect_outcome =
    Rejected connect_reject
  | Relayed nat conn reader     \<comment> \<open>relayHTTP1 or relayHTTP2 through this upstream\<close>
  | ClientGone
  | SetupFailed setup_error     \<comment> \<open>writeUpstreamError\<close>
  | NoResponse                  \<comment> \<open>the end of the loop\<close>

fun connect_loop ::
    "nat \<Rightarrow> (nat \<Rightarrow> attempt_env) \<Rightarrow> host_env \<Rightarrow> config \<Rightarrow> string \<Rightarrow> nat \<Rightarrow> balancer
      \<Rightarrow> connect_outcome \<times> nat list \<times> balancer" where
  \<comment> \<open>the attempts left of two; the result has the upstreams tried\<close>
  "connect_loop 0 envs henv cfg target selected b = (NoResponse, [], b)"
| "connect_loop (Suc left) envs henv cfg target selected b =
     (let attempt = 1 - left; ae = envs attempt; b1 = fold bal_step (ae_during ae) b in
      case fst (dial_connect henv cfg selected target (ae_io ae)) of
        Inr (connection, reader) \<Rightarrow>
          (Relayed selected connection reader, [selected], mark_success (int selected) b1)
      | Inl err \<Rightarrow>
          if ae_gone ae then (ClientGone, [selected], b1)
          else
            (let b2 = (if err \<noteq> SetupSocks UnsupportedDestination
                       then mark_failure (ae_fail_now ae) (int selected) b1 else b1);
                 b3 = fold bal_step (ae_between ae) b2 in
             if attempt = 0 then
               (case next_upstream (ae_next_now ae) (ae_draw ae) (int selected) b3 of
                  (b4, Some alternate) \<Rightarrow>
                    (let (out, tried, b5) = connect_loop left envs henv cfg target (sel_Index alternate) b4
                     in (out, selected # tried, b5))
                | (b4, None) \<Rightarrow> (SetupFailed err, [selected], b4))
             else (SetupFailed err, [selected], b3)))"

record handler_env =
  he_attempts :: "nat \<Rightarrow> attempt_env"
  he_slots :: "slot_op list"        \<comment> \<open>other requests' limiter operations while the tunnel is set up\<close>
  he_registry :: "reg_op list"      \<comment> \<open>others' operations on the registry before this tunnel's \<open>track\<close>\<close>
  he_relay :: relay_env
  he_relay_slots :: "slot_op list"  \<comment> \<open>other requests' limiter operations while the relay runs\<close>

definition upstream_buffered :: "conn \<Rightarrow> reader \<Rightarrow> byte list" where
  \<comment> \<open>what the reader holds and the connection no longer has\<close>
  "upstream_buffered c r = take (length (rd_stream r) - length (cn_input c)) (rd_stream r)"

definition run_relay :: "duration \<Rightarrow> int \<Rightarrow> relay_env \<Rightarrow> byte list \<Rightarrow> registry \<Rightarrow> tunnel_result option \<times> registry" where
  \<comment> \<open>\<open>None\<close> while the relay runs\<close>
  "run_relay idleTimeout protoMajor re upstreamBytes g =
     (let running = reg_run (re_during re) (fst (track g)) in
      if protoMajor = 2 then
        (case relay_http2 idleTimeout re upstreamBytes new_writer g of
           None \<Rightarrow> (None, running) | Some (res, w, g1) \<Rightarrow> (Some res, g1))
      else
        (case relay_http1 idleTimeout re upstreamBytes g of
           None \<Rightarrow> (None, running) | Some (res, head, g1) \<Rightarrow> (Some res, g1)))"

definition handle_connect ::
    "host_env \<Rightarrow> config \<Rightarrow> connect_req \<Rightarrow> nat \<Rightarrow> handler_env \<Rightarrow> balancer \<times> limiter \<times> registry
      \<Rightarrow> connect_outcome \<times> nat list \<times> tunnel_result option \<times> balancer \<times> limiter \<times> registry" where
  \<comment> \<open>with the end of the relay, if there was one and it has ended; the slot is given back when the
    handler returns, so not while the relay runs\<close>
  "handle_connect henv cfg r selected he st =
     (case st of (b, l, g) \<Rightarrow>
        case connect_target r of
          Inl e \<Rightarrow> (Rejected e, [], None, b, l, g)
        | Inr target \<Rightarrow>
            (case try_acquire (address_host (rq_RemoteAddr r)) l of
               (l1, None) \<Rightarrow> (Rejected TunnelLimit, [], None, b, l1, g)
             | (l1, Some h) \<Rightarrow>
                 (let (out, tried, b1) = connect_loop 2 (he_attempts he) henv cfg target selected b;
                      l2 = fold lim_step (he_slots he) l1
                  in case out of
                       Relayed i c rd \<Rightarrow>
                         (let (res, g1) = run_relay (prx_TunnelIdleTimeout (cfg_Proxy cfg)) (rq_ProtoMajor r) (he_relay he)
                                            (upstream_buffered c rd) (reg_run (he_registry he) g);
                              l3 = fold lim_step (he_relay_slots he) l2
                          in (out, tried, res, b1, if res = None then l3 else release_slot h l3, g1))
                     | _ \<Rightarrow> (out, tried, None, b1, release_slot h l2, g))))"

definition still_relaying :: "connect_outcome \<Rightarrow> tunnel_result option \<Rightarrow> bool" where
  "still_relaying out res \<longleftrightarrow> (case out of Relayed i c rd \<Rightarrow> res = None | _ \<Rightarrow> False)"

definition others_meanwhile :: "connect_outcome \<Rightarrow> handler_env \<Rightarrow> slot_op list" where
  \<comment> \<open>all the limiter operations of others since this request took its slot\<close>
  "others_meanwhile out he = he_slots he @ (case out of Relayed i c rd \<Rightarrow> he_relay_slots he | _ \<Rightarrow> [])"

lemma handle_connect_Inr:
  assumes "connect_target r = Inr target" "try_acquire (address_host (rq_RemoteAddr r)) l = (l1, Some h)"
    and "connect_loop 2 (he_attempts he) henv cfg target selected b = (out1, tried1, b1)"
    and "handle_connect henv cfg r selected he (b, l, g) = (out, tried, res, b', l', g')"
  shows "out = out1" "tried = tried1" "b' = b1"
    "l' = (if still_relaying out res then fold lim_step (others_meanwhile out he) l1
           else release_slot h (fold lim_step (others_meanwhile out he) l1))"
    "case out of Relayed i c rd \<Rightarrow> (res, g') = run_relay (prx_TunnelIdleTimeout (cfg_Proxy cfg)) (rq_ProtoMajor r) (he_relay he)
         (upstream_buffered c rd) (reg_run (he_registry he) g)
     | _ \<Rightarrow> res = None \<and> g' = g"
  using assms by (auto simp: handle_connect_def still_relaying_def others_meanwhile_def Let_def
      split: connect_outcome.splits prod.splits)

subsection \<open>The request is the request\<close>

lemma split_on_line: "c \<notin> set a \<Longrightarrow> c \<noteq> d \<Longrightarrow> split_on c (a @ d # c # b) = (a @ [d]) # split_on c b"
  using split_on_append [of c "a @ [d]" b] by simp

definition line_break_free :: "string \<Rightarrow> bool" where
  "line_break_free s \<longleftrightarrow> CHR 0x0D \<notin> set s \<and> CHR 0x0A \<notin> set s"

lemma line_break_free_append [simp]: "line_break_free (a @ b) \<longleftrightarrow> line_break_free a \<and> line_break_free b"
  by (auto simp: line_break_free_def)

lemma line_break_free_Nil [simp]: "line_break_free []"
  by (simp add: line_break_free_def)

lemma line_break_free_Cons [simp]:
  "line_break_free (c # s) \<longleftrightarrow> c \<noteq> CHR 0x0D \<and> c \<noteq> CHR 0x0A \<and> line_break_free s"
  by (auto simp: line_break_free_def)

lemma contains_line_break: "contains_any s [CHR 0x0D, CHR 0x0A] \<longleftrightarrow> \<not> line_break_free s"
  by (auto simp: line_break_free_def contains_any_def list_ex_iff)

lemma line_break_free_base64 [simp]: "line_break_free (base64_encode s)"
  unfolding line_break_free_def using base64_encode_alphabet b64_alphabet_no_break by metis

lemma connect_target_Inr:
  assumes "connect_target r = Inr target"
  obtains host port n where "split_host_port target = Inr (host, port)" "host \<noteq> []" "atoi port = Some n"
    "1 \<le> n" "n \<le> 65535" "line_break_free host"
proof -
  define t where "t = (if rq_Host r = [] then rq_URL_Host r else rq_Host r)"
  obtain host port n where "split_host_port t = Inr (host, port)" "host \<noteq> []" "line_break_free host"
    "atoi port = Some n" "1 \<le> n" "n \<le> 65535" "target = t"
    using assms unfolding connect_target_def Let_def t_def [symmetric]
    by (auto simp: contains_line_break split: if_splits sum.splits option.splits)
  then show ?thesis using that by blast
qed

lemma connect_target_line_break_free: "connect_target r = Inr target \<Longrightarrow> line_break_free target"
proof -
  assume "connect_target r = Inr target"
  then obtain host port n where t: "split_host_port target = Inr (host, port)" "atoi port = Some n" "line_break_free host"
    by (rule connect_target_Inr)
  have "line_break_free port"
    using atoi_chars [OF t(2), of "CHR 0x0D"] atoi_chars [OF t(2), of "CHR 0x0A"]
    by (auto simp: line_break_free_def ascii_digit_def)
  with t(3) split_host_port_chars [OF t(1)] show ?thesis
    by (auto simp: line_break_free_def)
qed

definition request_lines :: "string \<Rightarrow> upstream_auth \<Rightarrow> string list" where
  \<comment> \<open>what the upstream is meant to see\<close>
  "request_lines target auth =
     [''CONNECT '' @ target @ '' HTTP/1.1'', ''Host: '' @ target]
     @ (if upauth_Enabled auth
        then [''Proxy-Authorization: '' @ basic_credentials (upauth_Username auth) (upauth_Password auth)] else [])
     @ [[]]"

lemma connect_request_lines:
  assumes "line_break_free target"
  shows "split_on CHR 0x0A (connect_request target auth) =
      map (\<lambda>line. line @ [CHR 0x0D]) (request_lines target auth) @ [[]]"
proof -
  have l1: "CHR 0x0A \<notin> set (''CONNECT '' @ target @ '' HTTP/1.1'')" "CHR 0x0A \<notin> set (''Host: '' @ target)"
    using assms by (auto simp: line_break_free_def)
  have l2: "CHR 0x0A \<notin> set (''Proxy-Authorization: '' @ basic_credentials u p)" for u p
    using line_break_free_base64 [of "u @ CHR '':'' # p"] by (auto simp: line_break_free_def basic_credentials_def)
  show ?thesis
    using split_on_line [OF l1(1), of "CHR 0x0D"] split_on_line [OF l1(2), of "CHR 0x0D"]
      split_on_line [OF l2, of "CHR 0x0D"]
    by (simp add: connect_request_def request_lines_def crlf_def basic_credentials_def)
qed

text \<open>C4. A client cannot smuggle header lines to the upstream: for a \<open>CONNECT\<close> target that passes
  the handler's checks the request sent upstream consists of exactly the request line, the
  \<open>Host\<close> line, the credentials line when credentials are configured, and the empty line, none with
  a line break inside; and the credentials line is one this proxy itself would accept.\<close>
theorem connect_request_not_injectable:
  assumes "connect_target r = Inr target" "CHR '':'' \<notin> set (upauth_Username auth)"
  shows "split_on CHR 0x0A (connect_request target auth) =
      map (\<lambda>line. line @ [CHR 0x0D]) (request_lines target auth) @ [[]]
    \<and> list_all line_break_free (request_lines target auth)
    \<and> is_authorized (cfg\<lparr>auth_Username := upauth_Username auth, auth_Password := upauth_Password auth\<rparr>)
        (header_set ''Proxy-Authorization'' (basic_credentials (upauth_Username auth) (upauth_Password auth)) h)"
proof -
  have t: "line_break_free target" by (rule connect_target_line_break_free [OF assms(1)])
  have "list_all line_break_free (request_lines target auth)"
    using t by (simp add: request_lines_def basic_credentials_def)
  with connect_request_lines [OF t] show ?thesis
    using is_authorized_basic [of _ "upauth_Username auth" "upauth_Password auth"] assms(2) by simp
qed

theorem connect_request_not_injectable_witness:
  "list_all line_break_free (request_lines ''example.org:443''
     \<lparr>upauth_Enabled = True, upauth_Username = ''u'', upauth_Password = ''p''\<rparr>)"
proof -
  have "connect_target \<lparr>rq_Host = ''example.org:443'', rq_URL_Host = [], rq_RemoteAddr = [], rq_ProtoMajor = 1, rq_Hijacker = True\<rparr>
      = Inr ''example.org:443''" by code_simp
  from connect_request_not_injectable [OF this, of "\<lparr>upauth_Enabled = True, upauth_Username = ''u'', upauth_Password = ''p''\<rparr>"]
  show ?thesis by simp
qed

subsection \<open>Setting up a tunnel\<close>

lemma setup_context_fields [simp]:
  "de_set_ok (setup_context t env) = de_set_ok env" "de_clear_ok (setup_context t env) = de_clear_ok env"
  "de_now (setup_context t env) = de_now env"
  by (simp_all add: setup_context_def Let_def)

lemma setup_context_dial: "de_dial (setup_context t env) n a = Some c \<Longrightarrow> de_dial env n a = Some c"
  by (simp add: setup_context_def Let_def split: if_splits)

lemma dial_context_closes:
  "case dial_context scheme pa target cr opts env of
     (Inl e, None) \<Rightarrow> True
   | (Inl e, Some c) \<Rightarrow> cn_closed c
   | (Inr c, oc) \<Rightarrow> oc = Some c \<and> cn_deadline c = None"
  by (auto simp: dial_context_def close_conn_def Let_def
      split: sum.splits option.splits prod.splits)

lemma request_tunnel_closes:
  "case request_tunnel index u auth target timeout io c0 of
     (Inl e, c) \<Rightarrow> cn_closed c | (Inr r, c) \<Rightarrow> cn_deadline c = None"
  by (simp add: request_tunnel_def close_conn_def Let_def split: sum.split option.split prod.split bool.split)

text \<open>C38. No connection leaks from a failed setup: whatever step fails (dial, TLS handshake, SOCKS
  conversation, write, answer, status, deadlines), a connection that was opened is closed; on
  success it is the one handed to the relay and has no deadline left.\<close>
theorem setup_closes_on_error:
  "case dial_connect henv cfg index target io of
     (Inl e, None) \<Rightarrow> True
   | (Inl e, Some c) \<Rightarrow> cn_closed c
   | (Inr (c, r), oc) \<Rightarrow> oc = Some c \<and> cn_deadline c = None"
proof (cases "upstream_url henv (cfg_Upstreams cfg ! index)")
  case (Inl e)
  then show ?thesis by (simp add: dial_connect_def)
next
  case (Inr u)
  let ?env = "setup_context (setup_timeout (cfg_Proxy cfg)) (ci_dial io)"
  show ?thesis
  proof (cases "url_Scheme u = ''socks4'' \<or> url_Scheme u = ''socks5''")
    case True
    with Inr dial_context_closes [of "url_Scheme u" "url_Host u" target
        "upstream_credentials (cfg_Upstreams cfg ! index)" "connect_dial_options (cfg_Proxy cfg)" ?env]
    show ?thesis by (auto simp: dial_connect_def Let_def split: prod.splits sum.splits option.splits)
  next
    case False
    show ?thesis
    proof (cases "de_dial ?env (dial_network (cfg_Proxy cfg)) (url_Host u)")
      case None
      with Inr False show ?thesis by (simp add: dial_connect_def Let_def)
    next
      case (Some c0)
      with Inr False request_tunnel_closes [of index u "up_Auth (cfg_Upstreams cfg ! index)" target
          "setup_timeout (cfg_Proxy cfg)" "io\<lparr>ci_dial := ?env\<rparr>" c0]
      show ?thesis by (simp add: dial_connect_def Let_def split: prod.splits sum.splits)
    qed
  qed
qed

lemma request_tunnel_http:
  assumes "request_tunnel index u auth target timeout io c0 = (Inr r, c)" "url_Scheme u = ''http''" "cn_writes c0 = []"
  shows "cn_output c = cn_output c0 @ map byte_of (connect_request target auth)
    \<and> read_connect_status (reader_of c0) = (Inr 200, r) \<and> cn_input c = drop (ci_buffered io) (rd_stream r)"
proof -
  have w: "write_string data (c0\<lparr>cn_deadline := d\<rparr>) = (True, c0\<lparr>cn_deadline := d, cn_output := cn_output c0 @ data\<rparr>)"
    for data d using assms(3) by (simp add: write_string_def)
  have rd: "reader_of (c0\<lparr>cn_deadline := d, cn_output := out\<rparr>) = reader_of c0" for d out
    by (simp add: reader_of_def)
  note t = assms(1) [unfolded request_tunnel_def Let_def assms(2), simplified]
  show ?thesis
  proof (cases "read_connect_status (reader_of c0)")
    case (Pair res r1)
    with t show ?thesis by (cases res) (auto simp: w rd split: if_splits)
  qed
qed

lemma taken_and_dropped:
  "take (length s - (length s - k)) s = take k s" "take (length s - (length s - k)) s @ drop k s = s"
  by (cases "k \<le> length s"; simp)+

text \<open>C13. A tunnel through a plain HTTP upstream starts where the upstream's answer ends: when the
  setup succeeds, the \<open>CONNECT\<close> request has been sent whole, and what the upstream sent begins with a
  status line of HTTP/1.1 or HTTP/1.0 with status 200, header lines that each have a colon, and the
  first empty line, of at most 64 KiB together. The reader handed to the relay goes on with the
  very next byte: first those it has buffered with the answer, then what is left on the
  connection.\<close>
theorem http_tunnel_exact:
  assumes "dial_connect henv cfg index target io = (Inr (c, r), oc)"
    and "upstream_url henv (cfg_Upstreams cfg ! index) = Inr u" "url_Scheme u = ''http''"
    and "de_dial (ci_dial io) (dial_network (cfg_Proxy cfg)) (url_Host u) = Some c0" "cn_writes c0 = []"
  shows "cn_output c = cn_output c0 @ map byte_of (connect_request target (up_Auth (cfg_Upstreams cfg ! index)))
    \<and> (\<exists>status_line headers blank.
          cn_input c0 = head_bytes (status_line # headers @ [blank]) @ rd_stream r
          \<and> (\<exists>version rest. fields_of (map chr_of (trim_cr status_line)) = version # rest
               \<and> version \<in> {''HTTP/1.1'', ''HTTP/1.0''} \<and> rest \<noteq> [] \<and> atoi (hd rest) = Some 200)
          \<and> 10 \<notin> set status_line \<and> (\<forall>line \<in> set headers. 10 \<notin> set line \<and> 58 \<in> set line)
          \<and> blank \<in> {[], [13]} \<and> length (head_bytes (status_line # headers @ [blank])) \<le> 65536)
    \<and> rd_stream r = upstream_buffered c r @ cn_input c
    \<and> upstream_buffered c r = take (ci_buffered io) (rd_stream r)"
proof -
  let ?env = "setup_context (setup_timeout (cfg_Proxy cfg)) (ci_dial io)"
  let ?tunnel = "request_tunnel index u (up_Auth (cfg_Upstreams cfg ! index)) target
    (setup_timeout (cfg_Proxy cfg)) (io\<lparr>ci_dial := ?env\<rparr>)"
  obtain c1 where c1: "de_dial ?env (dial_network (cfg_Proxy cfg)) (url_Host u) = Some c1" "?tunnel c1 = (Inr r, c)"
    using assms(1,2,3) by (auto simp: dial_connect_def Let_def split: prod.splits sum.splits option.splits)
  have "c1 = c0" using setup_context_dial [OF c1(1)] assms(4) by simp
  with c1(2) have "?tunnel c0 = (Inr r, c)" by (simp only:)
  note t = request_tunnel_http [OF this assms(3,5)]
  then have buffered: "upstream_buffered c r = take (ci_buffered io) (rd_stream r)"
    "rd_stream r = upstream_buffered c r @ cn_input c"
    using taken_and_dropped [of "rd_stream r" "ci_buffered io"] by (simp_all add: upstream_buffered_def)
  obtain sl hs e where head: "cn_input c0 = head_bytes (sl # hs @ [e]) @ rd_stream r" "10 \<notin> set sl"
    "parse_status_line (map chr_of (trim_cr sl)) = Inr 200" "list_all header_line hs" "e \<in> {[], [13]}"
    "length (head_bytes (sl # hs @ [e])) \<le> 65536"
    using connect_status_head [of "reader_of c0" 200 r] t by (auto simp: reader_of_def max_connect_header_bytes_def)
  moreover have "\<exists>version rest. fields_of (map chr_of (trim_cr sl)) = version # rest
      \<and> version \<in> {''HTTP/1.1'', ''HTTP/1.0''} \<and> rest \<noteq> [] \<and> atoi (hd rest) = Some 200"
    by (rule parse_status_line_Inr [OF head(3)])
  moreover have "\<forall>line \<in> set hs. 10 \<notin> set line \<and> 58 \<in> set line"
    using head(4) by (simp add: list_all_iff header_line_def)
  ultimately show ?thesis using t buffered by blast
qed

theorem http_tunnel_exact_witness:
  "\<exists>c r oc. dial_connect sample_host_env sample_config 0 ''example.org:443''
      \<lparr>ci_dial = calm_env (map byte_of (''HTTP/1.1 200 OK'' @ crlf @ crlf @ ''hi'')), ci_handshake = (\<lambda>_ _ _. None), ci_read_deadline_ok = True, ci_buffered = 1\<rparr>
      = (Inr (c, r), oc)
    \<and> cn_output c = map byte_of (connect_request ''example.org:443'' (up_Auth (sample_upstream ''http://proxy:3128'')))
    \<and> rd_stream r = map byte_of ''hi''"
proof -
  let ?io = "\<lparr>ci_dial = calm_env (map byte_of (''HTTP/1.1 200 OK'' @ crlf @ crlf @ ''hi'')), ci_handshake = (\<lambda>_ _ _. None), ci_read_deadline_ok = True, ci_buffered = 1\<rparr>"
  let ?d = "dial_connect sample_host_env sample_config 0 ''example.org:443'' ?io"
  have "(case fst ?d of Inr (c, r) \<Rightarrow> rd_stream r = map byte_of ''hi'' | Inl _ \<Rightarrow> False)" by code_simp
  then obtain c r oc where d: "?d = (Inr (c, r), oc)" "rd_stream r = map byte_of ''hi''"
    by (cases ?d) (auto split: sum.splits)
  have "upstream_url sample_host_env (cfg_Upstreams sample_config ! 0) =
      Inr ((sample_url ''http'' ''proxy:3128'')\<lparr>url_User := Some (''u'', ''p'')\<rparr>)" by code_simp
  then obtain u where u: "upstream_url sample_host_env (cfg_Upstreams sample_config ! 0) = Inr u" "url_Scheme u = ''http''"
    by (simp add: sample_url_def)
  show ?thesis
    using http_tunnel_exact [OF d(1) u, of "fresh_conn (map byte_of (''HTTP/1.1 200 OK'' @ crlf @ crlf @ ''hi''))"] d
    by (auto simp: calm_env_def fresh_conn_def sample_config_def)
qed

text \<open>SOCKS upstreams that pass validation work: with the credentials of a validated
  configuration and a destination the protocol can express, \<open>DialContext\<close> raises no objection of
  its own, and a proxy that sends accepting replies gets the tunnel, whose first byte is the first
  after those replies.\<close>
theorem validated_socks_upstream_works:
  assumes "check_upstream henv i up = None" "upstream_url henv up = Inr u"
    and "socks_target (url_Scheme u) target (upstream_credentials up) opts = Inr (host, port)"
    and "url_Scheme u = ''socks4'' \<longrightarrow> (\<exists>a. address4 host = Inr a)"
    and "de_dial env (do_Network opts) (url_Host u) = Some c0" "cn_writes c0 = []"
    and "cn_input c0 = socks_replies (url_Scheme u) (upstream_credentials up) tail @ rest"
    and "reply_tail (url_Scheme u) tail"
    and "de_set_ok env" "de_clear_ok env" "de_ctx_done env = None"
  shows "\<exists>c. dial_context (url_Scheme u) (url_Host u) target (upstream_credentials up) opts env = (Inr c, Some c)
    \<and> cn_input c = rest \<and> cn_deadline c = None \<and> cn_closed c = cn_closed c0"
proof (rule dial_context_complete [OF assms(3,5-11)])
  have auth: "upauth_Enabled (up_Auth up) \<Longrightarrow> check_up_auth i u (up_Auth up) = None"
    using assms(1,2) by (auto elim: check_upstream_None)
  show "url_Scheme u = ''socks4'' \<Longrightarrow> (\<exists>a. address4 host = Inr a)
      \<and> (cr_Enabled (upstream_credentials up) \<longrightarrow>
         length (cr_Username (upstream_credentials up)) \<le> 255 \<and> CHR 0x00 \<notin> set (cr_Username (upstream_credentials up)))"
    using assms(4) auth by (auto simp: check_up_auth_def upstream_credentials_def split: if_splits)
  show "url_Scheme u = ''socks5'' \<Longrightarrow> \<not> bad_credentials5 (upstream_credentials up)"
    using auth by (auto simp: check_up_auth_def upstream_credentials_def bad_credentials5_def split: if_splits)
qed

theorem validated_socks_upstream_works_witness:
  "\<exists>c. dial_context ''socks5'' ''proxy:1080'' ''example.org:443'' (upstream_credentials (sample_upstream ''socks5://proxy''))
      tcp_options (calm_env ([5, 2, 1, 0, 5, 0, 0, 1, 127, 0, 0, 1, 0, 80] @ [9])) = (Inr c, Some c) \<and> cn_input c = [9]"
proof -
  let ?up = "sample_upstream ''socks5://proxy''"
  let ?u = "sample_url ''socks5'' ''proxy:1080''"
  have ok: "check_upstream sample_host_env 0 ?up = None" "upstream_url sample_host_env ?up = Inr ?u"
    "socks_target ''socks5'' ''example.org:443'' (upstream_credentials ?up) tcp_options = Inr (''example.org'', 443)"
    by code_simp+
  then show ?thesis
    using validated_socks_upstream_works [of sample_host_env 0 ?up ?u "''example.org:443''" tcp_options "''example.org''" 443
        "calm_env ([5, 2, 1, 0, 5, 0, 0, 1, 127, 0, 0, 1, 0, 80] @ [9])"
        "fresh_conn ([5, 2, 1, 0, 5, 0, 0, 1, 127, 0, 0, 1, 0, 80] @ [9])" "[1, 127, 0, 0, 1, 0, 80]" "[9]"]
    by (auto simp: sample_url_def calm_env_def fresh_conn_def socks_replies_def reply_tail_def bound_address_def
        method5_def upstream_credentials_def sample_upstream_def)
qed

subsection \<open>Failover and slots\<close>

lemma bal_inv_run [inv_intros]: "bal_inv b \<Longrightarrow> bal_inv (fold bal_step xs b)"
  using bal.inv_run by (simp add: bal_step_eq)

lemma bal_pool_run [simp]: "bal_upstreams (fold bal_step xs b) = bal_upstreams b"
  using bal.pool_run by (simp add: bal_step_eq)

lemma connect_loop_not_rejected: "fst (connect_loop n envs henv cfg target selected b) \<noteq> Rejected e"
  by (induction n arbitrary: selected b)
     (auto simp: Let_def case_prod_beta split: sum.split option.split)

lemma connect_loop_last:
  "\<exists>out b'. connect_loop 1 envs henv cfg target selected b = (out, [selected], b') \<and> out \<noteq> NoResponse
    \<and> (\<forall>i c r. out = Relayed i c r \<longrightarrow> i = selected) \<and> (\<forall>e. out \<noteq> Rejected e)"
  by (simp add: Let_def split: sum.split)

lemma connect_loop_tries:
  assumes "bal_inv b" "connect_loop 2 envs henv cfg target selected b = (out, tried, b')"
  shows "out \<noteq> NoResponse \<and> (\<forall>e. out \<noteq> Rejected e)
    \<and> (tried = [selected] \<or> (\<exists>alt < length (bal_upstreams b). alt \<noteq> selected \<and> tried = [selected, alt]))
    \<and> (\<forall>i c r. out = Relayed i c r \<longrightarrow> i = last tried)"
proof (cases "fst (dial_connect henv cfg selected target (ae_io (envs 0)))")
  case (Inr cr)
  with assms(2) show ?thesis by (cases cr) (auto simp: numeral_2_eq_2)
next
  case (Inl err)
  let ?ae = "envs 0"
  let ?b1 = "fold bal_step (ae_during ?ae) b"
  let ?b2 = "if err \<noteq> SetupSocks UnsupportedDestination then mark_failure (ae_fail_now ?ae) (int selected) ?b1 else ?b1"
  let ?b3 = "fold bal_step (ae_between ?ae) ?b2"
  let ?next = "next_upstream (ae_next_now ?ae) (ae_draw ?ae) (int selected) ?b3"
  have inv: "bal_inv ?b3" "bal_upstreams ?b3 = bal_upstreams b"
    using bal_inv_run [OF assms(1), of "ae_during ?ae"]
    by (auto intro!: bal_inv_run simp: bal.inv_failure)
  show ?thesis
  proof (cases "ae_gone ?ae")
    case True
    with assms(2) Inl show ?thesis by (auto simp: numeral_2_eq_2)
  next
    case here: False
    show ?thesis
    proof (cases "snd ?next")
      case None
      then obtain b4 where "?next = (b4, None)" by (cases ?next) simp
      with assms(2) Inl here show ?thesis by (auto simp: numeral_2_eq_2 Let_def)
    next
      case (Some sel)
      then obtain b4 where n: "?next = (b4, Some sel)" by (cases ?next) simp
      have alt: "sel_Index sel \<noteq> selected" "sel_Index sel < length (bal_upstreams b)"
        using bal.alternate_differs [OF inv(1) Some] inv(2) by simp_all
      obtain out1 b5 where l: "connect_loop 1 envs henv cfg target (sel_Index sel) b4 = (out1, [sel_Index sel], b5)"
        "out1 \<noteq> NoResponse" "\<forall>i c r. out1 = Relayed i c r \<longrightarrow> i = sel_Index sel" "\<forall>e. out1 \<noteq> Rejected e"
        using connect_loop_last [of envs henv cfg target "sel_Index sel" b4] by blast
      then have "out = out1" "tried = [selected, sel_Index sel]"
        using assms(2) Inl here n by (auto simp: numeral_2_eq_2 Let_def)
      with alt l show ?thesis by auto
    qed
  qed
qed

text \<open>C15. Failover: a \<open>CONNECT\<close> that is not rejected tries the upstream selected for it and, if that
  fails, at most one other, a different one of the configured pool; it always ends in a relay
  through the upstream tried last, an error answer, or because the client has gone, whatever other
  requests do to the selector in the meantime.\<close>
theorem connect_failover:
  assumes "bal_inv b" "handle_connect henv cfg r selected he (b, l, g) = (out, tried, res, b', l', g')"
  shows "out \<noteq> NoResponse
    \<and> (case out of Rejected e \<Rightarrow> tried = [] \<and> b' = b
       | _ \<Rightarrow> tried = [selected] \<or> (\<exists>alt. alt < length (bal_upstreams b) \<and> alt \<noteq> selected \<and> tried = [selected, alt]))
    \<and> (case out of Relayed i c rd \<Rightarrow> i = last tried | _ \<Rightarrow> True)"
proof (cases "connect_target r")
  case (Inl e)
  with assms(2) show ?thesis by (auto simp: handle_connect_def)
next
  case (Inr target)
  obtain l1 ho where a: "try_acquire (address_host (rq_RemoteAddr r)) l = (l1, ho)"
    by (cases "try_acquire (address_host (rq_RemoteAddr r)) l")
  show ?thesis
  proof (cases ho)
    case None
    with assms(2) Inr a show ?thesis by (auto simp: handle_connect_def)
  next
    case (Some h)
    obtain out1 tried1 b1 where c: "connect_loop 2 (he_attempts he) henv cfg target selected b = (out1, tried1, b1)"
      by (cases "connect_loop 2 (he_attempts he) henv cfg target selected b")
    have "out = out1" "tried = tried1" using handle_connect_Inr [OF Inr a [unfolded Some] c assms(2)] by simp_all
    with connect_loop_tries [OF assms(1) c] show ?thesis by (auto split: connect_outcome.split)
  qed
qed

definition sample_request :: connect_req where
  "sample_request = \<lparr>rq_Host = ''example.org:443'', rq_URL_Host = [], rq_RemoteAddr = ''10.0.0.1:5000'',
     rq_ProtoMajor = 2, rq_Hijacker = False\<rparr>"

definition failing_attempts :: handler_env where
  \<comment> \<open>every upstream closes the connection at once\<close>
  "failing_attempts =
     \<lparr> he_attempts = (\<lambda>_. \<lparr> ae_io = \<lparr>ci_dial = calm_env [], ci_handshake = (\<lambda>_ _ _. None), ci_read_deadline_ok = True, ci_buffered = 1\<rparr>,
         ae_during = [], ae_gone = False, ae_fail_now = 5, ae_between = [], ae_next_now = 5, ae_draw = 0 \<rparr>),
       he_slots = [], he_registry = [], he_relay = sample_relay_env, he_relay_slots = [] \<rparr>"

definition sample_handled :: "connect_outcome \<times> nat list \<times> tunnel_result option \<times> balancer \<times> limiter \<times> registry" where
  "sample_handled = handle_connect sample_host_env sample_config sample_request 0 failing_attempts
     (new_balancer default_proxy (cfg_Upstreams sample_config), lim_run 2 1 [], new_registry)"

theorem connect_failover_witness:
  "fst sample_handled \<noteq> NoResponse \<and> fst (snd sample_handled) = [0, 1]"
proof -
  obtain out tried res b' l' g' where s: "sample_handled = (out, tried, res, b', l', g')" by (cases sample_handled)
  have "fst (snd sample_handled) = [0, 1]" by code_simp
  then show ?thesis
    using connect_failover [OF bal_inv_new s [unfolded sample_handled_def]] unfolding s by simp
qed

text \<open>C5. A tunnel slot is never lost and never given back early: a rejected request leaves the
  limiter as it was; any other request has taken one slot for its client, holds it as long as its
  relay runs, and, however it ends and whatever other requests do meanwhile, gives back that one
  slot when it returns; if nobody else changed the limiter, exactly the slots held before are held
  afterwards.\<close>
theorem tunnel_slot_returned:
  assumes "handle_connect henv cfg r selected he (b, lim_run mt mk xs, g) = (out, tried, res, b', l', g')"
    and "Release (length (lim_handles (lim_run mt mk xs))) \<notin> set (he_slots he) \<union> set (he_relay_slots he)"
  shows "case out of
      Rejected e \<Rightarrow> l' = lim_run mt mk xs
    | _ \<Rightarrow> \<exists>l1. try_acquire (address_host (rq_RemoteAddr r)) (lim_run mt mk xs) = (l1, Some (length (lim_handles (lim_run mt mk xs))))
        \<and> (if still_relaying out res
           then l' = fold lim_step (others_meanwhile out he) l1
             \<and> slot_key (address_host (rq_RemoteAddr r)) \<in># held_keys l'
             \<and> (others_meanwhile out he = [] \<longrightarrow>
                  held_keys l' = add_mset (slot_key (address_host (rq_RemoteAddr r))) (held_keys (lim_run mt mk xs)))
           else held_keys (fold lim_step (others_meanwhile out he) l1) =
               add_mset (slot_key (address_host (rq_RemoteAddr r))) (held_keys l')
             \<and> (others_meanwhile out he = [] \<longrightarrow> held_keys l' = held_keys (lim_run mt mk xs)))"
proof (cases "connect_target r")
  case (Inl e)
  with assms(1) show ?thesis by (auto simp: handle_connect_def)
next
  case (Inr target)
  let ?l = "lim_run mt mk xs" and ?k = "address_host (rq_RemoteAddr r)" and ?ops = "others_meanwhile out he"
  obtain l1 ho where a: "try_acquire ?k ?l = (l1, ho)" by (cases "try_acquire ?k ?l")
  show ?thesis
  proof (cases ho)
    case None
    with assms(1) Inr a show ?thesis
      using try_acquire_refused [of ?k ?l] by (auto simp: handle_connect_def)
  next
    case (Some h)
    then have h: "h = length (lim_handles ?l)"
      using a by (auto simp: try_acquire_def Let_def split: if_splits)
    obtain out1 tried1 b1 where c: "connect_loop 2 (he_attempts he) henv cfg target selected b = (out1, tried1, b1)"
      by (cases "connect_loop 2 (he_attempts he) henv cfg target selected b")
    note handled = handle_connect_Inr [OF Inr a [unfolded Some] c assms(1)]
    have ops: "Release h \<notin> set ?ops"
      using assms(2) h by (auto simp: others_meanwhile_def split: connect_outcome.splits)
    have gives_back: "held_keys (fold lim_step ?ops l1) = add_mset (slot_key ?k) (held_keys (release_slot h (fold lim_step ?ops l1)))"
      using lim.handle_gives_back [OF lim_run_inv a [unfolded Some] ops] by (simp add: lim_step_eq)
    have alone: "held_keys (release_slot h l1) = held_keys ?l"
      using lim.acquire_release [OF lim_run_inv a [unfolded Some]] by simp
    have result: "if still_relaying out res
        then l' = fold lim_step ?ops l1 \<and> slot_key ?k \<in># held_keys l'
          \<and> (?ops = [] \<longrightarrow> held_keys l' = add_mset (slot_key ?k) (held_keys ?l))
        else held_keys (fold lim_step ?ops l1) = add_mset (slot_key ?k) (held_keys l')
          \<and> (?ops = [] \<longrightarrow> held_keys l' = held_keys ?l)"
      using gives_back alone handled(4) by auto
    have "\<forall>e. out \<noteq> Rejected e"
      using connect_loop_not_rejected [of 2 "he_attempts he" henv cfg target selected b] c handled(1) by simp
    then show ?thesis using result a Some h by (cases out) (auto simp del: if_split)
  qed
qed

definition sample_tunnelled :: "relay_event list \<Rightarrow> connect_outcome \<times> nat list \<times> tunnel_result option \<times> balancer \<times> limiter \<times> registry" where
  \<comment> \<open>a tunnel through the first upstream, with these events in its relay\<close>
  "sample_tunnelled evs = handle_connect sample_host_env sample_config sample_request 0
     \<lparr> he_attempts = (\<lambda>_. \<lparr> ae_io = \<lparr>ci_dial = calm_env (map byte_of (''HTTP/1.1 200 OK'' @ crlf @ crlf @ ''hi'')),
           ci_handshake = (\<lambda>_ _ _. None), ci_read_deadline_ok = True, ci_buffered = 2\<rparr>,
         ae_during = [], ae_gone = False, ae_fail_now = 5, ae_between = [], ae_next_now = 5, ae_draw = 0 \<rparr>),
       he_slots = [], he_registry = [], he_relay = sample_relay_env\<lparr>re_events := evs\<rparr>, he_relay_slots = [] \<rparr>
     (new_balancer default_proxy (cfg_Upstreams sample_config), lim_run 2 1 [], new_registry)"

definition slots_after :: "connect_outcome \<times> nat list \<times> tunnel_result option \<times> balancer \<times> limiter \<times> registry \<Rightarrow> limiter" where
  "slots_after out = (case out of (_, _, _, _, l, _) \<Rightarrow> l)"

theorem tunnel_slot_returned_witness:
  "held_keys (slots_after sample_handled) = held_keys (lim_run 2 1 [])
   \<and> slot_key (address_host ''10.0.0.1:5000'') \<in># held_keys (slots_after (sample_tunnelled []))"
proof -
  obtain out tried res b' l' g' where s: "sample_handled = (out, tried, res, b', l', g')" by (cases sample_handled)
  have "(case fst sample_handled of Rejected e \<Rightarrow> False | Relayed _ _ _ \<Rightarrow> False | _ \<Rightarrow> True)" by code_simp
  then have "held_keys (slots_after sample_handled) = held_keys (lim_run 2 1 [])"
    using tunnel_slot_returned [OF s [unfolded sample_handled_def]] unfolding s
    by (auto simp: failing_attempts_def slots_after_def still_relaying_def others_meanwhile_def split: connect_outcome.splits)
  moreover
  obtain out tried res b' l' g' where t: "sample_tunnelled [] = (out, tried, res, b', l', g')" by (cases "sample_tunnelled []")
  have "(case sample_tunnelled [] of (out, tried, res, b', l', g') \<Rightarrow>
      (case out of Relayed _ _ _ \<Rightarrow> (case res of None \<Rightarrow> True | Some _ \<Rightarrow> False) | _ \<Rightarrow> False))" by code_simp
  then have "slot_key (address_host ''10.0.0.1:5000'') \<in># held_keys (slots_after (sample_tunnelled []))"
    using tunnel_slot_returned [OF t [unfolded sample_tunnelled_def]] unfolding t
    by (auto simp: slots_after_def still_relaying_def others_meanwhile_def sample_request_def
        split: connect_outcome.splits option.splits)
  ultimately show ?thesis ..
qed

lemma wrap64_once: "in_int64 (x - 2 ^ 64) \<Longrightarrow> wrap64 x = x - 2 ^ 64"
proof -
  assume x: "in_int64 (x - 2 ^ 64)"
  have "(word_of_int (x - 2 ^ 64) :: 64 word) = word_of_int x - word_of_int (2 ^ 64)" by (simp only: wi_hom_sub)
  also have "(word_of_int (2 ^ 64) :: 64 word) = 0" by simp
  finally have "(word_of_int (x - 2 ^ 64) :: 64 word) = word_of_int x" by (simp only: diff_0_right)
  then have "wrap64 x = wrap64 (x - 2 ^ 64)" by (simp only: wrap64_def)
  with x show ?thesis by (simp only: wrap64_id)
qed

text \<open>C24. The setup timeout of a tunnel is the configured number of seconds, and positive, for every
  value up to 9223372036 that validation accepts; for every value from 9223372037 to 18446744073 it
  has wrapped around to a negative duration. Validation has no upper limit: it accepts the
  configuration with any timeout of at least one second in place of the one it has.\<close>
theorem setup_timeout_exact:
  assumes "check_proxy s p = None"
  shows "(prx_Timeout p \<le> 9223372036 \<longrightarrow> setup_timeout p = prx_Timeout p * second \<and> 0 < setup_timeout p)
    \<and> (9223372037 \<le> prx_Timeout p \<and> prx_Timeout p \<le> 18446744073 \<longrightarrow>
         setup_timeout p = prx_Timeout p * second - 2 ^ 64 \<and> setup_timeout p < 0)
    \<and> (1 \<le> n \<longrightarrow> check_proxy s (p\<lparr>prx_Timeout := n\<rparr>) = None)"
proof (intro conjI impI)
  have pos: "1 \<le> prx_Timeout p" by (rule check_proxy_None(2) [OF assms])
  { assume "prx_Timeout p \<le> 9223372036"
    with pos have "in_int64 (prx_Timeout p * second)" by (simp add: in_int64_def)
    then show "setup_timeout p = prx_Timeout p * second" by (simp add: setup_timeout_def seconds_exact)
    with pos show "0 < setup_timeout p" by simp }
  { assume big: "9223372037 \<le> prx_Timeout p \<and> prx_Timeout p \<le> 18446744073"
    then have "in_int64 (prx_Timeout p * second - 2 ^ 64)" by (simp add: in_int64_def)
    then show "setup_timeout p = prx_Timeout p * second - 2 ^ 64"
      by (simp add: setup_timeout_def seconds_def wrap64_once del: power_numeral)
    with big show "setup_timeout p < 0" by simp }
  assume "1 \<le> n"
  with assms show "check_proxy s (p\<lparr>prx_Timeout := n\<rparr>) = None" by (simp add: check_proxy_def split: if_splits)
qed

theorem setup_timeout_exact_witness:
  "setup_timeout default_proxy = 30000000000 \<and> setup_timeout (default_proxy\<lparr>prx_Timeout := 9223372037\<rparr>) < 0"
proof -
  have "check_proxy default_server default_proxy = None"
    by (simp add: check_proxy_def default_proxy_def default_server_def)
  note exact = setup_timeout_exact [OF this, of 9223372037]
  then have "check_proxy default_server (default_proxy\<lparr>prx_Timeout := 9223372037\<rparr>) = None" by simp
  from exact setup_timeout_exact [OF this] show ?thesis by (simp add: default_proxy_def)
qed

end
