(* ===== verification/HttpBody.thy ===== *)
theory HttpBody
  imports IoCopy Watchdog
begin

text \<open>
  \<open>internal/proxy/http_body.go\<close>: the copy of a response body to the client under an idle timeout.
  Two goroutines work on it: the copy loop, whose reader stores the time of every transfer in an
  atomic, and the monitor, which cancels the request when that time is too long ago. A run is a
  sequence of events of both, and of the end of the client's context, which the request's context
  inherits: the first cause of a context is the one that counts. Times are durations since
  \<open>started\<close>, and the code between two events takes no time. \<open>response.Body\<close>, the client and the
  timer decide which events happen.
\<close>

subsection \<open>The monitor\<close>

record monitor =
  mo_lastRead :: duration
  mo_due :: "time option"     \<comment> \<open>when the timer fires; \<open>None\<close> after it returned\<close>
  mo_timeout :: duration

definition monitor_touch :: "time \<Rightarrow> monitor \<Rightarrow> monitor" where
  "monitor_touch t m = m\<lparr>mo_lastRead := t\<rparr>"

definition activity_read :: "time \<Rightarrow> byte list \<Rightarrow> monitor \<Rightarrow> monitor" where
  \<comment> \<open>\<open>httpBodyActivityReader.Read\<close> after the wrapped reader has returned\<close>
  "activity_read t data m = (if data \<noteq> [] then monitor_touch t m else m)"

definition monitor_fire :: "time \<Rightarrow> monitor \<Rightarrow> monitor" where
  "monitor_fire t m =
     (let idleFor = t - mo_lastRead m in
      if idleFor \<ge> mo_timeout m then m\<lparr>mo_due := None\<rparr>
      else m\<lparr>mo_due := Some (t + (mo_timeout m - idleFor))\<rparr>)"

interpretation body_watch: watchdog monitor_touch monitor_fire mo_due mo_lastRead mo_timeout "\<lambda>_. True"
  by unfold_locales (auto simp: monitor_touch_def monitor_fire_def Let_def split: if_splits)

subsection \<open>The writer\<close>

datatype flush_result = FlushOk | FlushNotSupported | FlushFailed

definition flushing_write :: "nat \<Rightarrow> bool \<Rightarrow> flush_result \<Rightarrow> nat \<times> bool" where
  \<comment> \<open>\<open>httpBodyFlushingWriter.Write\<close>: bytes taken and whether it failed\<close>
  "flushing_write n failed flush =
     (if failed \<or> n = 0 then (n, failed) else if flush = FlushFailed then (n, True) else (n, False))"

subsection \<open>copyHTTPResponse\<close>

datatype body_cause = CauseIdle | CauseClient

datatype body_error = BodyIdle | BodyIO io_err

record http_body =
  hb_copier :: copier
  hb_monitor :: monitor
  hb_cancelled :: bool                       \<comment> \<open>the monitor has called \<open>cancel(errResponseBodyIdle)\<close>\<close>
  hb_cause :: "body_cause option"            \<comment> \<open>\<open>context.Cause\<close> of the request's context\<close>
  hb_result :: "body_error option option"    \<comment> \<open>what is returned, once \<open>io.Copy\<close> has returned\<close>

datatype body_event =
    BodyRead time "byte list" "io_err option"
  | BodyWrite nat bool flush_result
  | TimerFires time
  | ContextEnds             \<comment> \<open>of the client's request\<close>
  | CopyReturns
  | MonitorStops            \<comment> \<open>the deferred \<open>close(stop)\<close> and \<open><-stopped\<close>\<close>

definition start_body :: "duration \<Rightarrow> http_body" where
  "start_body idleTimeout =
     \<lparr> hb_copier = new_copier,
       hb_monitor = \<lparr>mo_lastRead = 0, mo_due = Some idleTimeout, mo_timeout = idleTimeout\<rparr>,
       hb_cancelled = False, hb_cause = None, hb_result = None \<rparr>"

definition cancel_cause_of :: "body_cause \<Rightarrow> http_body \<Rightarrow> http_body" where
  "cancel_cause_of cause s = (if hb_cause s = None then s\<lparr>hb_cause := Some cause\<rparr> else s)"

definition copy_result :: "io_err option \<Rightarrow> http_body \<Rightarrow> body_error option" where
  \<comment> \<open>what \<open>copyHTTPResponse\<close> makes of the result of \<open>io.Copy\<close>\<close>
  "copy_result err s =
     (case err of
        None \<Rightarrow> None
      | Some e \<Rightarrow> Some (if hb_cause s = Some CauseIdle then BodyIdle else BodyIO e))"

fun body_step :: "body_event \<Rightarrow> http_body \<Rightarrow> http_body option" where
  "body_step (BodyRead t data err) s =
     (case copy_step (ReadReturns data err) (hb_copier s) of
        None \<Rightarrow> None
      | Some c \<Rightarrow> Some (s\<lparr>hb_copier := c, hb_monitor := activity_read t data (hb_monitor s)\<rparr>))"
| "body_step (BodyWrite n failed flush) s =
     (let (n1, failed1) = flushing_write n failed flush in
      case copy_step (WriteReturns n1 failed1) (hb_copier s) of
        None \<Rightarrow> None
      | Some c \<Rightarrow> Some (s\<lparr>hb_copier := c\<rparr>))"
| "body_step (TimerFires t) s =
     (case mo_due (hb_monitor s) of
        None \<Rightarrow> None
      | Some due \<Rightarrow>
          if t < due then None
          else
            (let m = monitor_fire t (hb_monitor s); s1 = s\<lparr>hb_monitor := m, hb_cancelled := (mo_due m = None)\<rparr>
             in Some (if hb_cancelled s1 then cancel_cause_of CauseIdle s1 else s1)))"
| "body_step ContextEnds s = Some (cancel_cause_of CauseClient s)"
| "body_step CopyReturns s =
     (case (cp_phase (hb_copier s), hb_result s) of
        (Copied err, None) \<Rightarrow> Some (s\<lparr>hb_result := Some (copy_result err s)\<rparr>)
      | _ \<Rightarrow> None)"
| "body_step MonitorStops s =
     (if hb_result s = None then None else Some (s\<lparr>hb_monitor := (hb_monitor s)\<lparr>mo_due := None\<rparr>\<rparr>))"

fun body_run :: "body_event list \<Rightarrow> http_body \<Rightarrow> http_body option" where
  "body_run [] s = Some s"
| "body_run (ev # evs) s = (case body_step ev s of None \<Rightarrow> None | Some s' \<Rightarrow> body_run evs s')"

definition copy_http_response :: "duration \<Rightarrow> body_event list \<Rightarrow> (body_error option \<times> http_body) option" where
  \<comment> \<open>\<open>None\<close> while \<open>io.Copy\<close> runs\<close>
  "copy_http_response idleTimeout evs =
     (case body_run evs (start_body idleTimeout) of
        None \<Rightarrow> None
      | Some s \<Rightarrow> (case hb_result s of None \<Rightarrow> None | Some r \<Rightarrow> Some (r, s)))"

lemma cancel_cause_of_simps [simp]:
  "hb_copier (cancel_cause_of c s) = hb_copier s" "hb_monitor (cancel_cause_of c s) = hb_monitor s"
  "hb_cancelled (cancel_cause_of c s) = hb_cancelled s" "hb_result (cancel_cause_of c s) = hb_result s"
  by (simp_all add: cancel_cause_of_def)

lemma body_run_append:
  "body_run (evs @ evs') s = (case body_run evs s of None \<Rightarrow> None | Some s' \<Rightarrow> body_run evs' s')"
  by (induction evs arbitrary: s) (auto split: option.split)

lemma body_run_snoc:
  "body_run (evs @ [ev]) s = Some s' \<longleftrightarrow> (\<exists>s1. body_run evs s = Some s1 \<and> body_step ev s1 = Some s')"
  by (auto simp: body_run_append split: option.splits)

subsection \<open>The copy loop inside a run\<close>

fun copy_event_of :: "body_event \<Rightarrow> copy_event list" where
  "copy_event_of (BodyRead t data err) = [ReadReturns data err]"
| "copy_event_of (BodyWrite n failed flush) =
     [WriteReturns (fst (flushing_write n failed flush)) (snd (flushing_write n failed flush))]"
| "copy_event_of _ = []"

definition copy_events :: "body_event list \<Rightarrow> copy_event list" where
  "copy_events evs = concat (map copy_event_of evs)"

lemma body_step_copier: "body_step ev s = Some s' \<Longrightarrow> copy_run (copy_event_of ev) (hb_copier s) = Some (hb_copier s')"
  by (cases ev) (auto simp: Let_def split: option.splits prod.splits copy_phase.splits if_splits)

lemma body_run_copier:
  "body_run evs s = Some s' \<Longrightarrow> copy_run (copy_events evs) (hb_copier s) = Some (hb_copier s')"
proof (induction evs arbitrary: s)
  case (Cons ev evs)
  then obtain s1 where "body_step ev s = Some s1" "body_run evs s1 = Some s'" by (auto split: option.splits)
  with Cons.IH body_step_copier show ?case by (fastforce simp: copy_events_def copy_run_append)
qed (simp add: copy_events_def)

definition received :: "body_event list \<Rightarrow> byte list" where
  "received evs = concat (map chunk (copy_events evs))"

lemma body_run_bytes:
  assumes "body_run evs (start_body T) = Some s"
  shows "copier_ok (hb_copier s)" "cp_in (hb_copier s) = received evs"
  using body_run_copier [OF assms] copier_ok_run [of "copy_events evs"] copy_run_in [of "copy_events evs"]
  by (auto simp: start_body_def received_def) (simp add: new_copier_def)

lemma copy_http_response_run:
  "copy_http_response T evs = Some (r, s) \<longleftrightarrow> body_run evs (start_body T) = Some s \<and> hb_result s = Some r"
  by (auto simp: copy_http_response_def split: option.splits)

fun chunks :: "body_event list \<Rightarrow> byte list list" where
  \<comment> \<open>what the upstream sent, read by read\<close>
  "chunks [] = []"
| "chunks (BodyRead t data err # evs) = (if data = [] then chunks evs else data # chunks evs)"
| "chunks (_ # evs) = chunks evs"

fun writes :: "body_event list \<Rightarrow> (nat \<times> bool \<times> flush_result) list" where
  \<comment> \<open>what the client's side took, write by write: bytes, failure, flush\<close>
  "writes [] = []"
| "writes (BodyWrite n failed flush # evs) = (n, failed, flush) # writes evs"
| "writes (_ # evs) = writes evs"

definition delivered :: "byte list \<Rightarrow> nat \<times> bool \<times> flush_result \<Rightarrow> bool" where
  \<comment> \<open>a chunk that was taken in full and flushed\<close>
  "delivered data write = (case write of (n, failed, flush) \<Rightarrow> n = length data \<and> \<not> failed \<and> flush \<noteq> FlushFailed)"

lemma chunks_append: "chunks (evs @ evs') = chunks evs @ chunks evs'"
  by (induction evs rule: chunks.induct) simp_all

lemma writes_append: "writes (evs @ evs') = writes evs @ writes evs'"
  by (induction evs rule: writes.induct) simp_all

lemma received_chunks: "received evs = concat (chunks evs)"
  by (induction evs rule: chunks.induct) (simp_all add: received_def copy_events_def)

definition delivery :: "body_event list \<Rightarrow> copy_phase \<Rightarrow> bool" where
  \<comment> \<open>up to here every chunk was delivered; one may be on its way\<close>
  "delivery evs phase \<longleftrightarrow>
     (case phase of
        Reading \<Rightarrow> list_all2 delivered (chunks evs) (writes evs)
      | Writing data err \<Rightarrow> data \<noteq> [] \<and> (\<exists>before. chunks evs = before @ [data] \<and> list_all2 delivered before (writes evs))
          \<and> (err = Some IoEOF \<longrightarrow> (\<exists>t d. BodyRead t d (Some IoEOF) \<in> set evs))
      | Copied None \<Rightarrow> list_all2 delivered (chunks evs) (writes evs) \<and> (\<exists>t d. BodyRead t d (Some IoEOF) \<in> set evs)
      | Copied (Some e) \<Rightarrow> True)"

lemma delivery_outcome:
  "list_all2 delivered (chunks evs) (writes evs) \<Longrightarrow> (err = Some IoEOF \<longrightarrow> (\<exists>t d. BodyRead t d (Some IoEOF) \<in> set evs)) \<Longrightarrow>
     delivery evs (copy_outcome err)"
  by (simp add: delivery_def copy_outcome_def split: option.split io_err.split)

lemma delivery_step:
  assumes "body_step ev s = Some s'" "delivery evs (cp_phase (hb_copier s))"
  shows "delivery (evs @ [ev]) (cp_phase (hb_copier s'))"
proof (cases ev)
  case (BodyRead t data err)
  with assms(1) have r: "cp_phase (hb_copier s) = Reading"
    "cp_phase (hb_copier s') = (if data = [] then copy_outcome err else Writing data err)"
    by (auto simp: copy_step.simps split: copy_phase.splits option.splits)
  then have "list_all2 delivered (chunks evs) (writes evs)" using assms(2) by (simp add: delivery_def)
  moreover have "err = Some IoEOF \<longrightarrow> (\<exists>t d. BodyRead t d (Some IoEOF) \<in> set (evs @ [ev]))" using BodyRead by auto
  ultimately show ?thesis
    using r BodyRead delivery_outcome [of "evs @ [ev]" err]
    by (cases "data = []") (simp_all add: delivery_def chunks_append writes_append)
next
  case (BodyWrite n failed flush)
  obtain n1 failed1 where w: "flushing_write n failed flush = (n1, failed1)" by (cases "flushing_write n failed flush")
  with assms(1) BodyWrite obtain data err where d: "cp_phase (hb_copier s) = Writing data err" "n1 \<le> length data"
    "cp_phase (hb_copier s') = (if failed1 then Copied (Some IoWriteFailed)
       else if n1 < length data then Copied (Some IoShortWrite) else copy_outcome err)"
    by (auto simp: copy_step.simps split: copy_phase.splits option.splits if_splits)
  show ?thesis
  proof (cases "failed1 \<or> n1 < length data")
    case True
    with d show ?thesis by (auto simp: delivery_def)
  next
    case False
    obtain before where b: "chunks evs = before @ [data]" "list_all2 delivered before (writes evs)" "data \<noteq> []"
      "err = Some IoEOF \<longrightarrow> (\<exists>t d. BodyRead t d (Some IoEOF) \<in> set evs)"
      using assms(2) d(1) by (auto simp: delivery_def)
    have "delivered data (n, failed, flush)"
      using w False d(2) b(3) by (auto simp: flushing_write_def delivered_def split: if_splits)
    with b(1,2) have "list_all2 delivered (chunks (evs @ [ev])) (writes (evs @ [ev]))"
      by (simp add: BodyWrite chunks_append writes_append list_all2_appendI)
    from delivery_outcome [OF this, of err] b(4) d(3) False show ?thesis by auto
  qed
next
  case (TimerFires t)
  then have "hb_copier s' = hb_copier s" using assms(1) by (auto simp: Let_def split: option.splits if_splits)
  with assms(2) TimerFires show ?thesis by (auto simp: delivery_def chunks_append writes_append split: copy_phase.splits option.splits)
next
  case ContextEnds
  then have "hb_copier s' = hb_copier s" using assms(1) by auto
  with assms(2) ContextEnds show ?thesis by (auto simp: delivery_def chunks_append writes_append split: copy_phase.splits option.splits)
next
  case CopyReturns
  then have "hb_copier s' = hb_copier s" using assms(1) by (auto split: option.splits copy_phase.splits)
  with assms(2) CopyReturns show ?thesis by (auto simp: delivery_def chunks_append writes_append split: copy_phase.splits option.splits)
next
  case MonitorStops
  then have "hb_copier s' = hb_copier s" using assms(1) by (auto split: if_splits)
  with assms(2) MonitorStops show ?thesis by (auto simp: delivery_def chunks_append writes_append split: copy_phase.splits option.splits)
qed

lemma delivery_run: "body_run evs (start_body T) = Some s \<Longrightarrow> delivery evs (cp_phase (hb_copier s))"
proof (induction evs arbitrary: s rule: rev_induct)
  case Nil
  then show ?case by (auto simp: start_body_def new_copier_def delivery_def)
next
  case (snoc ev evs)
  then show ?case using delivery_step by (auto simp: body_run_snoc)
qed

subsection \<open>The monitor inside a run\<close>

fun watch_events :: "body_event list \<Rightarrow> watch_event list" where
  "watch_events [] = []"
| "watch_events (BodyRead t data err # evs) =
     (if data \<noteq> [] then Touched t # watch_events evs else watch_events evs)"
| "watch_events (TimerFires t # evs) = Fired t # watch_events evs"
| "watch_events (_ # evs) = watch_events evs"

abbreviation watch_body :: "watch_event list \<Rightarrow> monitor \<Rightarrow> monitor option" where
  "watch_body \<equiv> watch_run monitor_touch monitor_fire mo_due"

lemma body_step_due: "body_step ev s = Some s' \<Longrightarrow> mo_due (hb_monitor s') \<noteq> None \<Longrightarrow> mo_due (hb_monitor s) \<noteq> None"
  by (cases ev) (auto simp: activity_read_def monitor_touch_def Let_def split: option.splits prod.splits copy_phase.splits if_splits)

lemma body_run_due:
  "body_run evs s = Some s' \<Longrightarrow> mo_due (hb_monitor s') \<noteq> None \<Longrightarrow> mo_due (hb_monitor s) \<noteq> None"
  by (induction evs arbitrary: s) (auto split: option.splits dest: body_step_due)

lemma body_run_watch:
  assumes "body_run evs s = Some s'" "mo_due (hb_monitor s') \<noteq> None"
  shows "watch_body (watch_events evs) (hb_monitor s) = Some (hb_monitor s')"
  using assms
proof (induction evs arbitrary: s)
  case (Cons ev evs)
  obtain s1 where s1: "body_step ev s = Some s1" "body_run evs s1 = Some s'"
    using Cons.prems(1) by (auto split: option.splits)
  note rest = Cons.IH [OF s1(2) Cons.prems(2)]
  have "mo_due (hb_monitor s) \<noteq> None" using body_run_due [OF Cons.prems] .
  with s1(1) rest body_run_due [OF s1(2) Cons.prems(2)] show ?case
    by (cases ev) (auto simp: activity_read_def Let_def split: option.splits prod.splits copy_phase.splits if_splits)
qed simp

definition last_transfer :: "body_event list \<Rightarrow> time" where
  \<comment> \<open>when the last body byte arrived, 0 when none has\<close>
  "last_transfer evs = latest 0 (watch_events evs)"

lemma watch_events_append: "watch_events (evs @ evs') = watch_events evs @ watch_events evs'"
  by (induction evs rule: watch_events.induct) simp_all

lemma latest_append: "latest t (xs @ ys) = latest (latest t xs) ys"
  by (induction t xs rule: latest.induct) simp_all

lemma last_transfer_snoc:
  "last_transfer [] = 0"
  "last_transfer (evs @ [ev]) = (case ev of BodyRead t data err \<Rightarrow> if data = [] then last_transfer evs else t | _ \<Rightarrow> last_transfer evs)"
  by (simp_all add: last_transfer_def watch_events_append latest_append split: body_event.split)

definition idle_cancel :: "duration \<Rightarrow> body_event list \<Rightarrow> bool" where
  \<comment> \<open>a timer that fired when nothing had come for the timeout, and no earlier end of the client's context\<close>
  "idle_cancel T evs \<longleftrightarrow>
     (\<exists>early t late. evs = early @ TimerFires t # late \<and> ContextEnds \<notin> set early \<and> last_transfer early + T \<le> t)"

lemma idle_cancel_Nil [simp]: "\<not> idle_cancel T []"
  by (simp add: idle_cancel_def)

lemma idle_cancel_snoc:
  "idle_cancel T (evs @ [ev]) \<longleftrightarrow>
     idle_cancel T evs \<or> (\<exists>t. ev = TimerFires t \<and> ContextEnds \<notin> set evs \<and> last_transfer evs + T \<le> t)"
proof
  assume "idle_cancel T (evs @ [ev])"
  then obtain early t late where e: "evs @ [ev] = early @ TimerFires t # late" "ContextEnds \<notin> set early" "last_transfer early + T \<le> t"
    by (auto simp: idle_cancel_def)
  show "idle_cancel T evs \<or> (\<exists>t. ev = TimerFires t \<and> ContextEnds \<notin> set evs \<and> last_transfer evs + T \<le> t)"
    using e by (cases late rule: rev_cases) (auto simp: idle_cancel_def)
next
  show "idle_cancel T evs \<or> (\<exists>t. ev = TimerFires t \<and> ContextEnds \<notin> set evs \<and> last_transfer evs + T \<le> t) \<Longrightarrow> idle_cancel T (evs @ [ev])"
    unfolding idle_cancel_def by (metis append.assoc append_Cons)
qed

definition cause_ok :: "duration \<Rightarrow> body_event list \<Rightarrow> http_body \<Rightarrow> bool" where
  "cause_ok T evs s \<longleftrightarrow>
     mo_lastRead (hb_monitor s) = last_transfer evs \<and> mo_timeout (hb_monitor s) = T
     \<and> (hb_cause s = Some CauseIdle \<longleftrightarrow> idle_cancel T evs) \<and> (hb_cause s = Some CauseClient \<longrightarrow> ContextEnds \<in> set evs)
     \<and> (hb_cause s = None \<longrightarrow> ContextEnds \<notin> set evs)"

lemma cause_ok_step:
  assumes "body_step ev s = Some s'" "cause_ok T evs s"
  shows "cause_ok T (evs @ [ev]) s'"
proof (cases ev)
  case (TimerFires t)
  then have s': "hb_monitor s' = monitor_fire t (hb_monitor s)"
    "hb_cause s' = (if mo_due (monitor_fire t (hb_monitor s)) = None \<and> hb_cause s = None then Some CauseIdle else hb_cause s)"
    using assms(1) by (auto simp: Let_def cancel_cause_of_def split: option.splits if_splits)
  have "mo_due (monitor_fire t (hb_monitor s)) = None \<longleftrightarrow> last_transfer evs + T \<le> t"
    using assms(2) by (auto simp: cause_ok_def monitor_fire_def Let_def)
  with s' assms(2) TimerFires show ?thesis
    by (cases "hb_cause s"; cases "the (hb_cause s)") (auto simp: cause_ok_def idle_cancel_snoc last_transfer_snoc monitor_fire_def Let_def)
next
  case (BodyRead t data err)
  with assms show ?thesis
    by (auto simp: cause_ok_def idle_cancel_snoc last_transfer_snoc activity_read_def monitor_touch_def split: option.splits)
next
  case (BodyWrite n failed flush)
  with assms show ?thesis
    by (auto simp: cause_ok_def idle_cancel_snoc last_transfer_snoc split: option.splits prod.splits)
next
  case ContextEnds
  with assms show ?thesis
    by (auto simp: cause_ok_def idle_cancel_snoc last_transfer_snoc cancel_cause_of_def split: if_splits)
next
  case CopyReturns
  with assms show ?thesis
    by (auto simp: cause_ok_def idle_cancel_snoc last_transfer_snoc split: option.splits copy_phase.splits)
next
  case MonitorStops
  with assms show ?thesis
    by (auto simp: cause_ok_def idle_cancel_snoc last_transfer_snoc split: if_splits)
qed

lemma cause_ok_run: "body_run evs (start_body T) = Some s \<Longrightarrow> cause_ok T evs s"
proof (induction evs arbitrary: s rule: rev_induct)
  case Nil
  then show ?case by (auto simp: start_body_def cause_ok_def last_transfer_snoc)
next
  case (snoc ev evs)
  then show ?case using cause_ok_step by (auto simp: body_run_snoc)
qed

text \<open>The result is that of the state in which \<open>io.Copy\<close> has returned.\<close>

lemma result_step:
  assumes "body_step ev s = Some s'" "ev \<noteq> CopyReturns"
  shows "hb_result s' = hb_result s" "copied (hb_copier s) \<Longrightarrow> hb_copier s' = hb_copier s \<and> chunks [ev] = [] \<and> writes [ev] = []"
  using assms by (cases ev; auto simp: Let_def copied_stuck split: option.splits prod.splits if_splits)+

lemma result_run:
  assumes "body_run evs (start_body T) = Some s" "hb_result s = Some r"
  shows "\<exists>before after s1 err. evs = before @ CopyReturns # after \<and> body_run before (start_body T) = Some s1
    \<and> cp_phase (hb_copier s1) = Copied err \<and> r = copy_result err s1 \<and> hb_copier s = hb_copier s1
    \<and> chunks evs = chunks before \<and> writes evs = writes before"
  using assms
proof (induction evs arbitrary: s rule: rev_induct)
  case Nil
  then show ?case by (auto simp: start_body_def)
next
  case (snoc ev evs)
  obtain s0 where s0: "body_run evs (start_body T) = Some s0" "body_step ev s0 = Some s"
    using snoc.prems(1) by (auto simp: body_run_snoc)
  show ?case
  proof (cases "ev = CopyReturns")
    case True
    with s0(2) snoc.prems(2) obtain err where "cp_phase (hb_copier s0) = Copied err" "r = copy_result err s0" "hb_copier s = hb_copier s0"
      by (auto split: option.splits copy_phase.splits)
    with s0(1) True show ?thesis
      by (intro exI [of _ evs] exI [of _ "[]"] exI [of _ s0] exI [of _ err]) (simp add: chunks_append writes_append)
  next
    case False
    with result_step(1) [OF s0(2)] snoc.prems(2) have "hb_result s0 = Some r" by simp
    from snoc.IH [OF s0(1) this] obtain before after s1 err where
      b: "evs = before @ CopyReturns # after" "body_run before (start_body T) = Some s1" "cp_phase (hb_copier s1) = Copied err"
        "r = copy_result err s1" "hb_copier s0 = hb_copier s1" "chunks evs = chunks before" "writes evs = writes before" by blast
    have "copied (hb_copier s0)" using b by (simp add: copied_def)
    with result_step(2) [OF s0(2) False] b show ?thesis
      by (intro exI [of _ before] exI [of _ "after @ [ev]"] exI [of _ s1] exI [of _ err]) (simp add: chunks_append writes_append)
  qed
qed

lemma armed_start [simp]: "body_watch.armed (hb_monitor (start_body T))"
  by (simp add: body_watch.armed_def start_body_def)

subsection \<open>Properties\<close>

text \<open>C23. The idle timeout of a response body is exact: when the timer fires, the transfer is
  cancelled if and only if no byte arrived for \<open>response_body_idle_timeout\<close>; otherwise the timer
  is re-armed, and it is never due later than that timeout after the last byte. An active
  transfer is never cancelled, an idle one always is, and unless the request's context has ended
  before, the idle timeout is then its cause.\<close>
theorem body_idle_timeout_exact:
  assumes "body_run evs (start_body T) = Some s" "mo_due (hb_monitor s) = Some due" "due \<le> t"
    and "in_order 0 (watch_events evs)"
  shows "due \<le> last_transfer evs + T
    \<and> (\<exists>s'. body_step (TimerFires t) s = Some s' \<and> (hb_cancelled s' \<longleftrightarrow> last_transfer evs + T \<le> t)
         \<and> (hb_cause s = None \<longrightarrow> (hb_cause s' = Some CauseIdle \<longleftrightarrow> last_transfer evs + T \<le> t)))"
proof -
  have run: "watch_body (watch_events evs) (hb_monitor (start_body T)) = Some (hb_monitor s)"
    by (rule body_run_watch [OF assms(1)]) (simp add: assms(2))
  have start: "mo_lastRead (hb_monitor (start_body T)) = 0" "mo_timeout (hb_monitor (start_body T)) = T"
    by (simp_all add: start_body_def)
  have "due \<le> last_transfer evs + T"
    using body_watch.due_in_time [OF run armed_start _ assms(2)] assms(4) start by (simp add: last_transfer_def)
  then show ?thesis
    using body_watch.expiry_exact [OF run armed_start _ assms(2,3)] assms(2-4) start
    by (auto simp: last_transfer_def Let_def cancel_cause_of_def)
qed

definition sample_body_run :: "body_event list" where
  "sample_body_run = [BodyRead 3 [1, 2] None, BodyWrite 2 False FlushOk, TimerFires 10]"

theorem body_idle_timeout_exact_witness:
  "\<exists>s s'. body_run sample_body_run (start_body 10) = Some s \<and> \<not> hb_cancelled s
    \<and> body_step (TimerFires 13) s = Some s' \<and> hb_cancelled s'"
proof -
  define s where "s = the (body_run sample_body_run (start_body 10))"
  have s: "body_run sample_body_run (start_body 10) = Some s" "mo_due (hb_monitor s) = Some 13" "\<not> hb_cancelled s"
    unfolding s_def by code_simp+
  have "in_order 0 (watch_events sample_body_run)" "last_transfer sample_body_run = 3" by code_simp+
  with body_idle_timeout_exact [OF s(1,2), of 13] s show ?thesis by auto
qed

text \<open>C20. A body is reported complete only when it is: \<open>copyHTTPResponse\<close> returns \<open>nil\<close> only after
  the upstream's body has ended, and every chunk of it has been taken in full by the client's side,
  without an error, and flushed (or cannot be flushed), in order; when it returns an error, what
  the client got is a prefix of what arrived. The error is the idle timeout exactly if, before the
  copy returned, the monitor's timer fired when no byte had come for the timeout, and the client's
  context had not ended by then.\<close>
theorem body_complete_or_error:
  assumes "copy_http_response T evs = Some (r, s)"
  shows "\<exists>before after. evs = before @ CopyReturns # after
    \<and> (case r of
         None \<Rightarrow> (\<exists>t data. BodyRead t data (Some IoEOF) \<in> set before)
           \<and> list_all2 delivered (chunks evs) (writes evs) \<and> cp_out (hb_copier s) = concat (chunks evs)
       | Some e \<Rightarrow> (\<exists>lost. concat (chunks evs) = cp_out (hb_copier s) @ lost)
           \<and> (e = BodyIdle \<longleftrightarrow> idle_cancel T before))"
proof -
  have run: "body_run evs (start_body T) = Some s" "hb_result s = Some r"
    using assms by (simp_all add: copy_http_response_run)
  obtain before after s1 err where b: "evs = before @ CopyReturns # after" "body_run before (start_body T) = Some s1"
    "cp_phase (hb_copier s1) = Copied err" "r = copy_result err s1" "hb_copier s = hb_copier s1"
    "chunks evs = chunks before" "writes evs = writes before"
    using result_run [OF run] by blast
  note ok = body_run_bytes [OF b(2), unfolded received_chunks]
  have cause: "hb_cause s1 = Some CauseIdle \<longleftrightarrow> idle_cancel T before"
    using cause_ok_run [OF b(2)] by (simp add: cause_ok_def)
  show ?thesis
  proof (cases err)
    case None
    with b(3) delivery_run [OF b(2)] copier_ok_complete [OF ok(1)] ok(2) b(4-7) show ?thesis
      by (intro exI [of _ before] exI [of _ after]) (auto simp: b(1) delivery_def copy_result_def)
  next
    case (Some e)
    with copier_ok_prefix [OF ok(1)] ok(2) cause b(4-7) show ?thesis
      by (intro exI [of _ before] exI [of _ after]) (auto simp: b(1) copy_result_def)
  qed
qed

theorem body_complete_or_error_witness:
  "\<exists>s. copy_http_response 10 [BodyRead 3 [1, 2] (Some IoEOF), BodyWrite 2 False FlushOk, CopyReturns] = Some (None, s)
    \<and> cp_out (hb_copier s) = [1, 2]"
proof -
  let ?evs = "[BodyRead 3 [1, 2] (Some IoEOF), BodyWrite 2 False FlushOk, CopyReturns]"
  define s where "s = snd (the (copy_http_response 10 ?evs))"
  have "copy_http_response 10 ?evs = Some (None, s)" unfolding s_def by code_simp
  with body_complete_or_error [OF this] show ?thesis by auto
qed

lemma body_delivered:
  assumes "copy_http_response T evs = Some (None, s)"
  shows "(\<exists>t data. BodyRead t data (Some IoEOF) \<in> set evs) \<and> list_all2 delivered (chunks evs) (writes evs)
    \<and> cp_out (hb_copier s) = concat (chunks evs)"
proof -
  have run: "body_run evs (start_body T) = Some s" "hb_result s = Some None"
    using assms by (simp_all add: copy_http_response_run)
  obtain before after s1 err where b: "evs = before @ CopyReturns # after" "body_run before (start_body T) = Some s1"
    "cp_phase (hb_copier s1) = Copied err" "None = copy_result err s1" "hb_copier s = hb_copier s1"
    "chunks evs = chunks before" "writes evs = writes before"
    using result_run [OF run] by blast
  then have "err = None" by (simp add: copy_result_def split: option.splits)
  note ok = body_run_bytes [OF b(2), unfolded received_chunks]
  from delivery_run [OF b(2)] b(3,5-7) copier_ok_complete [OF ok(1)] ok(2) \<open>err = None\<close> show ?thesis
    by (auto simp: b(1) delivery_def)
qed

end
