(* ===== verification/HttpSetup.thy ===== *)
theory HttpSetup
  imports HttpMessages
begin

text \<open>
  \<open>doHTTPRequest\<close> of \<open>internal/proxy/http.go\<close>: the race between the setup timer and the answer of
  \<open>http.Client.Do\<close>. Two goroutines share the atomic \<open>setupState\<close> (0 waiting, 1 headers received,
  2 timed out); each atomic operation, each call and the end of each is a step, and the steps
  interleave freely. The first cause given to \<open>cancel\<close> is the one that counts.
\<close>

subsection \<open>The two goroutines\<close>

datatype do_result = DoResponse http_resp | DoError "http_resp option" go_error
  \<comment> \<open>what \<open>Do\<close> returns: a response, or an error perhaps with one\<close>

datatype cancel_cause = CancelNil | CancelDeadline

datatype timer_phase = TimerArmed | TimerCancels | TimerDone

datatype main_phase =
    Waiting
  | Returned do_result
  | Swapped bool do_result      \<comment> \<open>\<open>completed\<close>\<close>
  | Stopped bool do_result
  | Finished "go_error + http_resp"

record http_setup =
  su_State :: nat
  su_Timer :: timer_phase
  su_Main :: main_phase
  su_Cancelled :: "cancel_cause option"
  su_Closed :: bool             \<comment> \<open>the body of the response has been closed\<close>

definition new_setup :: http_setup where
  "new_setup = \<lparr>su_State = 0, su_Timer = TimerArmed, su_Main = Waiting, su_Cancelled = None, su_Closed = False\<rparr>"

definition cancel_setup :: "cancel_cause \<Rightarrow> http_setup \<Rightarrow> http_setup" where
  "cancel_setup c s = (if su_Cancelled s = None then s\<lparr>su_Cancelled := Some c\<rparr> else s)"

definition do_response :: "do_result \<Rightarrow> http_resp option" where
  "do_response res = (case res of DoResponse r \<Rightarrow> Some r | DoError ro e \<Rightarrow> ro)"

definition close_response :: "http_resp option \<Rightarrow> http_setup \<Rightarrow> http_setup" where
  "close_response ro s = (if ro = None then s else s\<lparr>su_Closed := True\<rparr>)"

definition finish_setup :: "bool \<Rightarrow> do_result \<Rightarrow> http_setup \<Rightarrow> http_setup" where
  \<comment> \<open>from \<open>if !completed\<close> to the end\<close>
  "finish_setup completed res s =
     (if \<not> completed
      then (cancel_setup CancelDeadline (close_response (do_response res) s))\<lparr>su_Main := Finished (Inl deadline_exceeded)\<rparr>
      else case res of
        DoError ro err \<Rightarrow> (cancel_setup CancelNil (close_response ro s))\<lparr>su_Main := Finished (Inl err)\<rparr>
      | DoResponse r \<Rightarrow> s\<lparr>su_Main := Finished (Inr r)\<rparr>)"

inductive setup_step :: "do_result \<Rightarrow> http_setup \<Rightarrow> http_setup \<Rightarrow> bool" for answer where
  \<comment> \<open>for what \<open>Do\<close> returns in this request\<close>
  timer_swap:
    "su_Timer s = TimerArmed \<Longrightarrow> su_State s = 0 \<Longrightarrow>
       setup_step answer s (s\<lparr>su_State := 2, su_Timer := TimerCancels\<rparr>)"
| timer_late:
    "su_Timer s = TimerArmed \<Longrightarrow> su_State s \<noteq> 0 \<Longrightarrow> setup_step answer s (s\<lparr>su_Timer := TimerDone\<rparr>)"
| timer_cancel:
    "su_Timer s = TimerCancels \<Longrightarrow> setup_step answer s ((cancel_setup CancelDeadline s)\<lparr>su_Timer := TimerDone\<rparr>)"
| do_returns:
    "su_Main s = Waiting \<Longrightarrow> setup_step answer s (s\<lparr>su_Main := Returned answer\<rparr>)"
| main_swap:
    "su_Main s = Returned res \<Longrightarrow>
       setup_step answer s
         (s\<lparr>su_Main := Swapped (su_State s = 0) res, su_State := (if su_State s = 0 then 1 else su_State s)\<rparr>)"
| main_stop:
    "su_Main s = Swapped completed res \<Longrightarrow>
       setup_step answer s (s\<lparr>su_Main := Stopped completed res,
                              su_Timer := (if su_Timer s = TimerArmed then TimerDone else su_Timer s)\<rparr>)"
| main_finish:
    "su_Main s = Stopped completed res \<Longrightarrow> setup_step answer s (finish_setup completed res s)"

inductive_cases setup_stepE: "setup_step answer s s'"

inductive setup_reachable :: "do_result \<Rightarrow> http_setup \<Rightarrow> bool" for answer where
  start: "setup_reachable answer new_setup"
| step: "setup_reachable answer s \<Longrightarrow> setup_step answer s s' \<Longrightarrow> setup_reachable answer s'"

subsection \<open>The result as a function of who was first\<close>

definition do_http_request :: "bool \<Rightarrow> do_result \<Rightarrow> go_error + http_resp" where
  \<comment> \<open>\<open>completed\<close>: the answer came before the timer\<close>
  "do_http_request completed res =
     (if \<not> completed then Inl deadline_exceeded
      else case res of DoError ro err \<Rightarrow> Inl err | DoResponse r \<Rightarrow> Inr r)"

subsection \<open>The invariant\<close>

definition timer_won :: "http_setup \<Rightarrow> bool" where
  "timer_won s \<longleftrightarrow> su_State s = 2 \<and> (su_Timer s = TimerCancels \<or> (su_Timer s = TimerDone \<and> su_Cancelled s \<noteq> None))"

definition answer_won :: "http_setup \<Rightarrow> bool" where
  "answer_won s \<longleftrightarrow> su_State s = 1 \<and> su_Timer s \<noteq> TimerCancels"

definition finished_ok :: "bool \<Rightarrow> do_result \<Rightarrow> go_error + http_resp \<Rightarrow> http_setup \<Rightarrow> bool" where
  "finished_ok completed res out s \<longleftrightarrow>
     out = do_http_request completed res
     \<and> (if completed then answer_won s \<and> su_Timer s = TimerDone else timer_won s)
     \<and> (su_Cancelled s = None \<longleftrightarrow> \<not> isl out) \<and> (su_Closed s \<longleftrightarrow> isl out \<and> do_response res \<noteq> None)"

definition setup_inv :: "do_result \<Rightarrow> http_setup \<Rightarrow> bool" where
  "setup_inv answer s \<longleftrightarrow>
     (case su_Main s of
        Waiting \<Rightarrow> (su_State s = 0 \<and> su_Timer s = TimerArmed \<and> su_Cancelled s = None \<or> timer_won s) \<and> \<not> su_Closed s
      | Returned res \<Rightarrow>
          (su_State s = 0 \<and> su_Timer s = TimerArmed \<and> su_Cancelled s = None \<or> timer_won s) \<and> \<not> su_Closed s
          \<and> res = answer
      | Swapped completed res \<Rightarrow>
          (if completed then answer_won s \<and> su_Cancelled s = None else timer_won s) \<and> \<not> su_Closed s \<and> res = answer
      | Stopped completed res \<Rightarrow>
          (if completed then answer_won s \<and> su_Timer s = TimerDone \<and> su_Cancelled s = None else timer_won s)
          \<and> \<not> su_Closed s \<and> res = answer
      | Finished out \<Rightarrow>
          (\<exists>completed. finished_ok completed answer out s))"

lemma cancel_setup_simps [simp]:
  "su_State (cancel_setup c s) = su_State s" "su_Timer (cancel_setup c s) = su_Timer s"
  "su_Main (cancel_setup c s) = su_Main s" "su_Closed (cancel_setup c s) = su_Closed s"
  "su_Cancelled (cancel_setup c s) \<noteq> None"
  by (simp_all add: cancel_setup_def)

lemma close_response_simps [simp]:
  "su_State (close_response ro s) = su_State s" "su_Timer (close_response ro s) = su_Timer s"
  "su_Cancelled (close_response ro s) = su_Cancelled s"
  "su_Closed (close_response ro s) \<longleftrightarrow> ro \<noteq> None \<or> su_Closed s"
  by (simp_all add: close_response_def)

lemma setup_inv_new: "setup_inv answer new_setup"
  by (simp add: setup_inv_def new_setup_def)

lemma timer_won_step:
  "setup_step answer s s' \<Longrightarrow> timer_won s \<Longrightarrow> timer_won s'"
  by (erule setup_stepE)
     (auto simp: timer_won_def finish_setup_def cancel_setup_def split: do_result.split)

lemma setup_inv_finish:
  assumes "su_Main s = Stopped completed res" "setup_inv answer s"
  shows "setup_inv answer (finish_setup completed res s)"
proof -
  have "res = answer" and s: "if completed then answer_won s \<and> su_Timer s = TimerDone \<and> su_Cancelled s = None else timer_won s"
    "\<not> su_Closed s"
    using assms by (auto simp: setup_inv_def)
  have main: "su_Main (finish_setup completed res s) = Finished (do_http_request completed res)"
    by (simp add: finish_setup_def do_http_request_def split: do_result.split)
  have "finished_ok completed res (do_http_request completed res) (finish_setup completed res s)"
    using s
    by (auto simp: finished_ok_def finish_setup_def do_http_request_def timer_won_def answer_won_def do_response_def
        split: do_result.split)
  with main \<open>res = answer\<close> show ?thesis by (auto simp: setup_inv_def)
qed

lemma finished_ok_step:
  assumes "setup_step answer s s'" "su_Main s = Finished out" "finished_ok completed res out s"
  shows "su_Main s' = Finished out \<and> finished_ok completed res out s'"
  using assms(1)
proof (cases rule: setup_step.cases)
  case timer_cancel
  with assms(2,3) show ?thesis
    by (cases completed) (auto simp: finished_ok_def timer_won_def answer_won_def do_http_request_def)
qed (use assms(2,3) in \<open>auto simp: finished_ok_def timer_won_def answer_won_def split: if_splits\<close>)

lemma setup_inv_step:
  assumes "setup_step answer s s'" "setup_inv answer s"
  shows "setup_inv answer s'"
proof (cases "\<exists>out. su_Main s = Finished out")
  case True
  then obtain out completed where "su_Main s = Finished out" "finished_ok completed answer out s"
    using assms(2) by (auto simp: setup_inv_def)
  then have "su_Main s' = Finished out \<and> finished_ok completed answer out s'"
    by (rule finished_ok_step [OF assms(1)])
  then show ?thesis by (auto simp: setup_inv_def)
next
  case False
  with assms show ?thesis
  proof (induction rule: setup_step.induct)
    case (main_finish s completed res)
    then show ?case by (blast intro: setup_inv_finish)
  next
    case (timer_cancel s)
    then show ?case
      by (cases "su_Main s")
        (auto simp: setup_inv_def timer_won_def answer_won_def cancel_setup_def split: if_splits)
  next
    case (main_stop s completed res)
    then show ?case
      by (cases "su_Timer s") (auto simp: setup_inv_def timer_won_def answer_won_def split: if_splits)
  qed (auto simp: setup_inv_def timer_won_def answer_won_def split: main_phase.splits if_splits)
qed

lemma setup_inv_reachable: "setup_reachable answer s \<Longrightarrow> setup_inv answer s"
  by (induction rule: setup_reachable.induct) (auto simp: setup_inv_new intro: setup_inv_step)

subsection \<open>Both winners occur\<close>

lemma reach_trans: "setup_reachable answer s \<Longrightarrow> setup_step answer s s' \<Longrightarrow> s' = t \<Longrightarrow> setup_reachable answer t"
  by (auto intro: setup_reachable.step)

lemma finish_main: "su_Main (finish_setup completed res s) = Finished (do_http_request completed res)"
  by (simp add: finish_setup_def do_http_request_def split: do_result.split)

lemma race_has_both_ends: "\<exists>s. setup_reachable res s \<and> su_Main s = Finished (do_http_request completed res)"
proof -
  define s0 where "s0 = (if completed then new_setup else new_setup\<lparr>su_State := 2, su_Timer := TimerCancels\<rparr>)"
  have "setup_reachable res s0"
    using setup_reachable.start setup_step.timer_swap [of new_setup]
    by (auto simp: s0_def new_setup_def intro: setup_reachable.step)
  then have "setup_reachable res (s0\<lparr>su_Main := Returned res\<rparr>)"
    by (rule reach_trans [OF _ setup_step.do_returns]) (simp_all add: s0_def new_setup_def)
  then have r: "setup_reachable res (s0\<lparr>su_Main := Swapped completed res, su_State := (if completed then 1 else 2)\<rparr>)"
    by (rule reach_trans [OF _ setup_step.main_swap [of _ res]]) (simp_all add: s0_def new_setup_def)
  define s1 where "s1 = s0\<lparr>su_Main := Swapped completed res, su_State := (if completed then 1 else 2)\<rparr>"
  define s2 where "s2 = s1\<lparr>su_Main := Stopped completed res,
      su_Timer := (if su_Timer s1 = TimerArmed then TimerDone else su_Timer s1)\<rparr>"
  have "setup_step res s1 s2"
    unfolding s2_def by (rule setup_step.main_stop) (simp add: s1_def)
  moreover have "setup_step res s2 (finish_setup completed res s2)"
    by (rule setup_step.main_finish) (simp add: s2_def)
  ultimately have "setup_reachable res (finish_setup completed res s2)"
    using r [folded s1_def] by (blast intro: setup_reachable.step)
  then show ?thesis using finish_main by blast
qed

subsection \<open>No goroutine is left behind\<close>

definition setup_work :: "http_setup \<Rightarrow> nat" where
  \<comment> \<open>the steps the two goroutines can still make\<close>
  "setup_work s =
     (case su_Main s of Waiting \<Rightarrow> 5 | Returned _ \<Rightarrow> 4 | Swapped _ _ \<Rightarrow> 3 | Stopped _ _ \<Rightarrow> 2 | Finished _ \<Rightarrow> 0)
     + (case su_Timer s of TimerArmed \<Rightarrow> 2 | TimerCancels \<Rightarrow> 1 | TimerDone \<Rightarrow> 0)"

lemma setup_work_step: "setup_step answer s s' \<Longrightarrow> setup_work s' < setup_work s"
  by (erule setup_stepE)
     (auto simp: setup_work_def finish_setup_def split: main_phase.splits timer_phase.splits do_result.splits)

lemma setup_progress:
  assumes "\<nexists>out. su_Main s = Finished out"
  shows "\<exists>s'. setup_step answer s s'"
  using assms by (cases "su_Main s") (blast intro: setup_step.intros)+

subsection \<open>Properties\<close>

text \<open>C19. The race between the setup timer and the answer has one winner, in every interleaving of
  the two goroutines, for each thing \<open>Do\<close> can return: \<open>doHTTPRequest\<close> returns the response only if
  the timer neither has cancelled the request nor ever will, and its body is then open; otherwise
  it returns the error of \<open>Do\<close> or, if the timer was first, \<open>context.DeadlineExceeded\<close>, the request
  has been cancelled, and the body is closed exactly if \<open>Do\<close> gave a response. Both ends of the race
  do occur.\<close>
theorem setup_race_one_winner:
  assumes "setup_reachable res s" "su_Main s = Finished out"
  shows "(out = Inl deadline_exceeded \<or> (case res of DoResponse r \<Rightarrow> out = Inr r | DoError ro err \<Rightarrow> out = Inl err))
    \<and> (if isl out then su_Cancelled s \<noteq> None
      else su_Cancelled s = None \<and> (\<forall>s'. (setup_step res)\<^sup>*\<^sup>* s s' \<longrightarrow> su_Cancelled s' = None))
    \<and> (su_Closed s \<longleftrightarrow> isl out \<and> (case res of DoResponse r \<Rightarrow> True | DoError ro err \<Rightarrow> ro \<noteq> None))
    \<and> (\<forall>completed. \<exists>s'. setup_reachable res s' \<and> su_Main s' = Finished (do_http_request completed res))"
proof -
  have inv: "setup_inv res s" by (rule setup_inv_reachable [OF assms(1)])
  then obtain completed where ok: "finished_ok completed res out s"
    using assms(2) by (auto simp: setup_inv_def)
  have stays: "su_Main s' = Finished out \<and> finished_ok completed res out s'" if "(setup_step res)\<^sup>*\<^sup>* s s'" for s'
    using that by (induction rule: rtranclp_induct) (use assms(2) ok finished_ok_step in blast)+
  have calm: "su_Cancelled s' = None" if "\<not> isl out" "(setup_step res)\<^sup>*\<^sup>* s s'" for s'
    using stays [OF that(2)] that(1) by (simp add: finished_ok_def)
  show ?thesis
  proof (intro conjI allI)
    show "out = Inl deadline_exceeded \<or> (case res of DoResponse r \<Rightarrow> out = Inr r | DoError ro err \<Rightarrow> out = Inl err)"
      using ok by (auto simp: finished_ok_def do_http_request_def split: do_result.split)
    show "if isl out then su_Cancelled s \<noteq> None
      else su_Cancelled s = None \<and> (\<forall>s'. (setup_step res)\<^sup>*\<^sup>* s s' \<longrightarrow> su_Cancelled s' = None)"
      using ok calm by (simp add: finished_ok_def)
    show "su_Closed s \<longleftrightarrow> isl out \<and> (case res of DoResponse r \<Rightarrow> True | DoError ro err \<Rightarrow> ro \<noteq> None)"
      using ok by (simp add: finished_ok_def do_response_def split: do_result.split)
  qed (rule race_has_both_ends)
qed

definition sample_response :: http_resp where
  "sample_response = \<lparr>rs_StatusCode = 200, rs_Header = Map.empty(''Via'' \<mapsto> [''1.1 up''], ''Upgrade'' \<mapsto> [''x''])\<rparr>"

theorem setup_race_one_winner_witness:
  "(\<exists>s :: http_setup. su_Main s = Finished (Inr sample_response) \<and> su_Cancelled s = None \<and> \<not> su_Closed s)
   \<and> (\<exists>s :: http_setup. su_Main s = Finished (Inl deadline_exceeded) \<and> su_Cancelled s \<noteq> None \<and> su_Closed s)"
proof -
  let ?res = "DoResponse sample_response"
  obtain s where s: "setup_reachable ?res s" "su_Main s = Finished (do_http_request True ?res)"
    using race_has_both_ends by blast
  then have "su_Main s = Finished (Inr sample_response) \<and> su_Cancelled s = None \<and> \<not> su_Closed s"
    using setup_race_one_winner [OF s] by (simp add: do_http_request_def)
  moreover
  obtain s' where s': "setup_reachable ?res s'" "su_Main s' = Finished (do_http_request False ?res)"
    using race_has_both_ends by blast
  then have "su_Main s' = Finished (Inl deadline_exceeded) \<and> su_Cancelled s' \<noteq> None \<and> su_Closed s'"
    using setup_race_one_winner [OF s'] by (simp add: do_http_request_def)
  ultimately show ?thesis by blast
qed

text \<open>\<open>doHTTPRequest\<close> never hangs on its own account: once \<open>Do\<close> answers, at most seven more
  steps of the two goroutines are possible, in any order, and while it has not returned there is
  always one.\<close>
theorem setup_terminates:
  "wfP (\<lambda>s' s. setup_step answer s s') \<and> (\<forall>s. setup_work s \<le> 7)
   \<and> ((\<exists>out. su_Main s = Finished out) \<or> (\<exists>s'. setup_step answer s s' \<and> setup_work s' < setup_work s))"
proof (intro conjI)
  show "wfP (\<lambda>s' s. setup_step answer s s')"
    by (rule wfp_if_convertible_to_nat [of _ setup_work]) (rule setup_work_step)
  show "\<forall>s. setup_work s \<le> 7"
    by (simp add: setup_work_def split: main_phase.split timer_phase.split)
  show "(\<exists>out. su_Main s = Finished out) \<or> (\<exists>s'. setup_step answer s s' \<and> setup_work s' < setup_work s)"
    using setup_progress [of s answer] setup_work_step [of answer s] by blast
qed

end
