(* ===== verification/HttpForward.thy ===== *)
theory HttpForward
  imports HttpSetup HttpBody Connect
begin

text \<open>
  \<open>forwardRequest\<close> of \<open>internal/proxy/http.go\<close>: a plain HTTP request through the selected upstream
  and, for a request that can be repeated, through one other.

  The upstreams, the client's context, the clock and other requests are the environment of an
  attempt: what \<open>Do\<close> returns and whether the setup timer was first (\<open>HttpSetup\<close>), the events of the
  body copy (\<open>HttpBody\<close>), and other requests' operations on the selector between two steps.
\<close>

subsection \<open>The request that is sent\<close>

definition request_target :: "http_req \<Rightarrow> parsed_url option" where
  "request_target r =
     (let target = (if url_Scheme (hr_URL r) = [] \<and> url_Host (hr_URL r) = [] \<and> hr_Host r \<noteq> []
                    then (hr_URL r)\<lparr>url_Scheme := ''http'', url_Host := hr_Host r\<rparr> else hr_URL r)
      in if (url_Scheme target \<noteq> ''http'' \<and> url_Scheme target \<noteq> ''https'') \<or> hostname target = []
         then None else Some target)"

definition can_retry :: "http_req \<Rightarrow> bool" where
  "can_retry r \<longleftrightarrow> (hr_Method r = ''GET'' \<or> hr_Method r = ''HEAD'') \<and> hr_ContentLength r = 0 \<and> hr_NoBody r"

definition upstream_request :: "http_req \<Rightarrow> parsed_url \<Rightarrow> http_req" where
  \<comment> \<open>\<open>Clone\<close>, \<open>cloneURL\<close> and the assignments; the client's request is not changed\<close>
  "upstream_request r target =
     r\<lparr> hr_URL := target, hr_RequestURI := [], hr_Host := url_Host target,
        hr_Header := header_del ''X-Forwarded-For'' (remove_hop_headers (hr_Header r)) \<rparr>"

subsection \<open>forwardRequest\<close>

record forward_env =
  fe_Completed :: bool            \<comment> \<open>the answer came before the setup timer\<close>
  fe_Result :: do_result
  fe_during :: "sel_op list"      \<comment> \<open>other requests' selector operations while \<open>doHTTPRequest\<close> runs\<close>
  fe_gone :: bool                 \<comment> \<open>the client's context has ended\<close>
  fe_fail_now :: time
  fe_between :: "sel_op list"     \<comment> \<open>other requests' operations between \<open>MarkFailure\<close> and \<open>Next\<close>\<close>
  fe_next_now :: time
  fe_draw :: nat
  fe_body :: "body_event list"

record upstream_call =
  \<comment> \<open>what an attempt that got a response holds: its body, and the context it was sent with\<close>
  uc_Closed :: bool
  uc_Cancelled :: bool

definition open_call :: upstream_call where
  "open_call = \<lparr>uc_Closed = False, uc_Cancelled = False\<rparr>"

definition close_body :: "upstream_call \<Rightarrow> upstream_call" where
  "close_body c = c\<lparr>uc_Closed := True\<rparr>"

definition cancel_call :: "upstream_call \<Rightarrow> upstream_call" where
  "cancel_call c = c\<lparr>uc_Cancelled := True\<rparr>"

datatype forward_outcome =
    Answered client_writer        \<comment> \<open>the handler returned\<close>
  | Aborted client_writer         \<comment> \<open>\<open>panic(http.ErrAbortHandler)\<close>: the connection is torn down\<close>
  | ForwardGone client_writer     \<comment> \<open>the client has gone\<close>
  | Copying                       \<comment> \<open>the events do not finish the copy of the body\<close>
  | Unanswered                    \<comment> \<open>the end of the loop\<close>

definition relay_response :: "duration \<Rightarrow> http_resp \<Rightarrow> body_event list \<Rightarrow> client_writer \<Rightarrow> forward_outcome" where
  "relay_response idleTimeout response evs w =
     (let w1 = write_header (rs_StatusCode response) (add_headers (remove_hop_headers (rs_Header response)) w) in
      case copy_http_response idleTimeout evs of
        None \<Rightarrow> Copying
      | Some (None, s) \<Rightarrow> Answered (w1\<lparr>cw_Body := cw_Body w1 @ cp_out (hb_copier s)\<rparr>)
      | Some (Some e, s) \<Rightarrow> Aborted (w1\<lparr>cw_Body := cw_Body w1 @ cp_out (hb_copier s)\<rparr>))"

datatype try_result =
    TryDone forward_outcome balancer "upstream_call option"
  | TryFailed client_writer balancer "upstream_call option"
      \<comment> \<open>with the answer if there is no other attempt, and what has become of the response, if
        there was one\<close>

definition forward_try :: "forward_env \<Rightarrow> duration \<Rightarrow> nat \<Rightarrow> balancer \<Rightarrow> client_writer \<Rightarrow> try_result" where
  \<comment> \<open>one pass of the loop, without the choice of another upstream; the deferred calls run when the
    handler returns or panics, so not while the body is still being copied\<close>
  "forward_try fe idleTimeout selected b w =
     (let b1 = fold bal_step (fe_during fe) b in
      case do_http_request (fe_Completed fe) (fe_Result fe) of
        Inl err \<Rightarrow>
          if fe_gone fe then TryDone (ForwardGone w) b1 None
          else TryFailed (write_upstream_error err w)
                 (if \<not> ge_Unsupported err then mark_failure (fe_fail_now fe) (int selected) b1 else b1) None
      | Inr response \<Rightarrow>
          if rs_StatusCode response = 407
          then TryFailed (http_error ''Upstream proxy authentication failed'' 502 w)
                 (mark_failure (fe_fail_now fe) (int selected) b1) (Some (cancel_call (close_body open_call)))
          else
            (let deferred = (\<lambda>call. cancel_call (close_body call));
                 out = relay_response idleTimeout response (fe_body fe) w
             in TryDone out (mark_success (int selected) b1)
                  (Some (case out of Copying \<Rightarrow> open_call | _ \<Rightarrow> deferred open_call))))"

definition released :: "upstream_call option \<Rightarrow> bool" where
  "released call \<longleftrightarrow> (case call of None \<Rightarrow> True | Some c \<Rightarrow> uc_Closed c \<and> uc_Cancelled c)"

fun forward_loop ::
    "nat \<Rightarrow> (nat \<Rightarrow> forward_env) \<Rightarrow> duration \<Rightarrow> http_req \<Rightarrow> parsed_url \<Rightarrow> nat \<Rightarrow> balancer \<Rightarrow> client_writer
      \<Rightarrow> forward_outcome \<times> (nat \<times> http_req \<times> upstream_call option) list \<times> balancer" where
  \<comment> \<open>the attempts left of two; the result has the requests sent, the upstreams they went to and what
    has become of their responses\<close>
  "forward_loop 0 envs idleTimeout r target selected b w = (Unanswered, [], b)"
| "forward_loop (Suc left) envs idleTimeout r target selected b w =
     (let attempt = 1 - left; fe = envs attempt; sent = upstream_request r target in
      case forward_try fe idleTimeout selected b w of
        TryDone out b1 call \<Rightarrow> (out, [(selected, sent, call)], b1)
      | TryFailed answer b2 call \<Rightarrow>
          if can_retry r \<and> attempt = 0 then
            (case next_upstream (fe_next_now fe) (fe_draw fe) (int selected) (fold bal_step (fe_between fe) b2) of
               (b4, Some alternate) \<Rightarrow>
                 (let (out, tried, b5) = forward_loop left envs idleTimeout r target (sel_Index alternate) b4 w
                  in (out, (selected, sent, call) # tried, b5))
             | (b4, None) \<Rightarrow> (Answered answer, [(selected, sent, call)], b4))
          else (Answered answer, [(selected, sent, call)], b2))"

definition forward_request ::
    "proxy_config \<Rightarrow> http_req \<Rightarrow> nat \<Rightarrow> (nat \<Rightarrow> forward_env) \<Rightarrow> balancer \<Rightarrow> client_writer
      \<Rightarrow> forward_outcome \<times> (nat \<times> http_req \<times> upstream_call option) list \<times> balancer" where
  "forward_request p r selected envs b w =
     (case request_target r of
        None \<Rightarrow> (Answered (http_error ''Invalid request destination'' 400 w), [], b)
      | Some target \<Rightarrow> forward_loop 2 envs (prx_ResponseBodyIdleTimeout p) r target selected b w)"

subsection \<open>The attempts\<close>

lemma relay_response_not [simp]: "relay_response T response evs w \<noteq> Unanswered"
  by (auto simp: relay_response_def Let_def split: option.split)

lemma forward_try_done:
  "forward_try fe T selected b w = TryDone out b1 call \<Longrightarrow> out \<noteq> Unanswered \<and> (out \<noteq> Copying \<longrightarrow> released call)"
  by (auto simp: forward_try_def released_def close_body_def cancel_call_def Let_def
      split: sum.splits if_splits forward_outcome.splits)

definition attempt_failed :: "forward_env \<Rightarrow> bool" where
  \<comment> \<open>the request failed and the client is still there, or the upstream wants credentials\<close>
  "attempt_failed fe \<longleftrightarrow>
     (case do_http_request (fe_Completed fe) (fe_Result fe) of
        Inl err \<Rightarrow> \<not> fe_gone fe | Inr response \<Rightarrow> rs_StatusCode response = 407)"

lemma forward_try_failed:
  assumes "forward_try fe T selected b w = TryFailed answer b2 call"
  shows "bal_inv b \<Longrightarrow> bal_inv b2" "bal_upstreams b2 = bal_upstreams b" "attempt_failed fe" "released call"
  using assms bal_inv_run [of b "fe_during fe"]
  by (auto simp: forward_try_def Let_def bal.inv_failure attempt_failed_def released_def close_body_def cancel_call_def
      split: sum.splits if_splits)

definition try_ends :: "forward_env \<Rightarrow> duration \<Rightarrow> client_writer \<Rightarrow> forward_outcome \<Rightarrow> bool" where
  \<comment> \<open>the outcome is that of this attempt\<close>
  "try_ends fe T w out \<longleftrightarrow>
     (\<exists>selected b b' call. forward_try fe T selected b w = TryDone out b' call
       \<or> (\<exists>answer. forward_try fe T selected b w = TryFailed answer b' call \<and> out = Answered answer))"

lemma try_endsI:
  "forward_try fe T selected b w = TryDone out b' call \<Longrightarrow> try_ends fe T w out"
  "forward_try fe T selected b w = TryFailed answer b' call \<Longrightarrow> try_ends fe T w (Answered answer)"
  unfolding try_ends_def by blast+

lemma forward_last:
  "\<exists>out b' call. forward_loop 1 envs T r target selected b w = (out, [(selected, upstream_request r target, call)], b')
     \<and> out \<noteq> Unanswered \<and> (out \<noteq> Copying \<longrightarrow> released call) \<and> try_ends (envs 1) T w out"
  using forward_try_failed(4)
  by (auto simp: Let_def dest: forward_try_done intro: try_endsI split: try_result.split)

lemma forward_loop_tries:
  assumes "bal_inv b" "forward_loop 2 envs T r target selected b w = (out, tried, b')"
  shows "out \<noteq> Unanswered \<and> tried \<noteq> [] \<and> try_ends (envs (length tried - 1)) T w out
    \<and> list_all (\<lambda>(i, q, call). released call) (if out = Copying then butlast tried else tried)
    \<and> (map fst tried = [selected]
       \<or> can_retry r \<and> attempt_failed (envs 0)
         \<and> (\<exists>alt < length (bal_upstreams b). alt \<noteq> selected \<and> map fst tried = [selected, alt]))"
proof (cases "forward_try (envs 0) T selected b w")
  case (TryDone out1 b1 call)
  with assms(2) forward_try_done [OF TryDone] show ?thesis
    by (auto simp: numeral_2_eq_2 intro: try_endsI)
next
  case (TryFailed answer b2 call)
  let ?fe = "envs 0"
  let ?b3 = "fold bal_step (fe_between ?fe) b2"
  note failed = forward_try_failed [OF TryFailed]
  obtain b4 so where n: "next_upstream (fe_next_now ?fe) (fe_draw ?fe) (int selected) ?b3 = (b4, so)"
    by (cases "next_upstream (fe_next_now ?fe) (fe_draw ?fe) (int selected) ?b3")
  show ?thesis
  proof (cases "can_retry r \<and> so \<noteq> None")
    case False
    with assms(2) TryFailed n failed(4) show ?thesis
      by (auto simp: numeral_2_eq_2 Let_def split: if_splits intro: try_endsI)
  next
    case True
    then obtain sel where so: "so = Some sel" by blast
    have "bal_inv ?b3" "bal_upstreams ?b3 = bal_upstreams b"
      using failed bal_inv_run assms(1) by simp_all
    then have alt: "sel_Index sel \<noteq> selected" "sel_Index sel < length (bal_upstreams b)"
      using bal.alternate_differs [of ?b3 "fe_next_now ?fe" "fe_draw ?fe" selected sel] n so by simp_all
    obtain out1 b5 call1 where l: "forward_loop 1 envs T r target (sel_Index sel) b4 w
        = (out1, [(sel_Index sel, upstream_request r target, call1)], b5)" "out1 \<noteq> Unanswered"
        "out1 \<noteq> Copying \<longrightarrow> released call1" "try_ends (envs 1) T w out1"
      using forward_last [of envs T r target "sel_Index sel" b4 w] by blast
    have "out = out1 \<and> tried = [(selected, upstream_request r target, call), (sel_Index sel, upstream_request r target, call1)]"
      using assms(2) TryFailed n so True l(1) by (simp add: numeral_2_eq_2)
    with alt l True failed show ?thesis by auto
  qed
qed

lemma forward_request_sent:
  assumes "request_target r = Some target" "(i, q, call) \<in> set (fst (snd (forward_loop n envs T r target selected b w)))"
  shows "q = upstream_request r target"
  using assms(2)
proof (induction n arbitrary: selected b)
  case (Suc n)
  then show ?case
    by (auto simp: Let_def case_prod_beta split: try_result.splits option.splits if_splits)
qed simp

lemma canonical_forwarded [simp]: "canonical_key ''X-Forwarded-For'' = ''X-Forwarded-For''"
  by code_simp

lemma canonical_ProxyAuthorization [simp]: "canonical_key ''Proxy-Authorization'' = ''Proxy-Authorization''"
  by code_simp

definition clean_request :: "http_req \<Rightarrow> http_req \<Rightarrow> bool" where
  \<comment> \<open>what may be sent to an upstream on behalf of the first request\<close>
  "clean_request r q \<longleftrightarrow>
     hr_Method q = hr_Method r \<and> hr_ContentLength q = hr_ContentLength r \<and> hr_RequestURI q = []
     \<and> url_Scheme (hr_URL q) \<in> {''http'', ''https''} \<and> hostname (hr_URL q) \<noteq> [] \<and> hr_Host q = url_Host (hr_URL q)
     \<and> (\<forall>k. hr_Header q k =
          (if k \<in> canonical_key ` set hop_headers \<or> k = ''X-Forwarded-For'' \<or> k \<in> nominated (hr_Header r) ''Connection''
              \<or> (''Proxy-Connection'' \<notin> nominated (hr_Header r) ''Connection''
                 \<and> k \<in> nominated (hr_Header r) ''Proxy-Connection'')
           then None else hr_Header r k))
     \<and> header_get (hr_Header q) ''Proxy-Authorization'' = [] \<and> header_get (hr_Header q) ''X-Forwarded-For'' = []"

lemma clean_upstream_request:
  assumes "request_target r = Some target"
  shows "clean_request r (upstream_request r target)"
proof -
  have "url_Scheme target \<in> {''http'', ''https''}" "hostname target \<noteq> []"
    using assms by (auto simp: request_target_def Let_def split: if_splits)
  moreover have "''Proxy-Authorization'' \<in> canonical_key ` set hop_headers"
    by (simp add: hop_headers_def image_iff)
  ultimately show ?thesis
    by (simp add: clean_request_def upstream_request_def header_del_def remove_hop_headers_apply
        header_get_def header_values_def)
qed

definition passed_on :: "http_resp \<Rightarrow> body_event list \<Rightarrow> client_writer \<Rightarrow> bool" where
  \<comment> \<open>the client has the response: status, fields, and a body that has ended, every chunk of it
    taken in full and flushed\<close>
  "passed_on response evs w \<longleftrightarrow>
     cw_Status w = Some (rs_StatusCode response)
     \<and> (\<forall>name. header_values (cw_Header w) name = header_values (remove_hop_headers (rs_Header response)) name)
     \<and> cw_Body w = concat (chunks evs) \<and> (\<exists>t data. BodyRead t data (Some IoEOF) \<in> set evs)
     \<and> list_all2 delivered (chunks evs) (writes evs)"

lemma relay_response_answer:
  assumes "relay_response T response evs new_writer = Answered w'"
  shows "passed_on response evs w'"
proof -
  let ?w1 = "write_header (rs_StatusCode response) (add_headers (remove_hop_headers (rs_Header response)) new_writer)"
  obtain s where s: "copy_http_response T evs = Some (None, s)" "w' = ?w1\<lparr>cw_Body := cw_Body ?w1 @ cp_out (hb_copier s)\<rparr>"
    using assms by (auto simp: relay_response_def Let_def split: option.splits)
  with body_delivered [OF s(1)] show ?thesis
    by (auto simp: passed_on_def write_header_def add_headers_def new_writer_def header_values_def split: option.split list.split)
qed

subsection \<open>Properties\<close>

text \<open>C12. What an upstream gets: every request that is sent, in both attempts, has the client's method
  and body length, an absolute target with a host name and a matching \<open>Host\<close>, no request URI, and
  exactly the client's header fields without the hop-by-hop ones, without those nominated by
  \<open>Connection\<close> or \<open>Proxy-Connection\<close> and without \<open>X-Forwarded-For\<close>; in particular neither the
  client's proxy credentials nor its address are passed on.\<close>
theorem forwarded_request_clean:
  "list_all (\<lambda>(i, q, call). clean_request r q) (fst (snd (forward_request p r selected envs b w)))"
  using clean_upstream_request forward_request_sent
  by (fastforce simp: forward_request_def list_all_iff split: option.split)

text \<open>C2. A request is repeated only when that is safe: it is sent to the selected upstream and, only
  if it is a \<open>GET\<close> or \<open>HEAD\<close> without a body and the first attempt failed (an error while the client
  was still there, or a demand for credentials), to one other upstream of the pool, whatever other
  requests do to the selector meanwhile. The handler always comes to an end: an answer, an abort, a
  client that has gone, or a body still being copied; and when it has, the body of every response
  it got, also of one it did not pass on, is closed and the context it was sent with cancelled.\<close>
theorem forward_retry_safe:
  assumes "bal_inv b" "forward_request p r selected envs b w = (out, tried, b')"
  shows "out \<noteq> Unanswered
    \<and> list_all (\<lambda>(i, q, call). case call of None \<Rightarrow> True | Some c \<Rightarrow> uc_Closed c \<and> uc_Cancelled c)
        (if out = Copying then butlast tried else tried)
    \<and> (request_target r = None \<and> tried = []
       \<or> map fst tried = [selected]
       \<or> ((hr_Method r = ''GET'' \<or> hr_Method r = ''HEAD'') \<and> hr_ContentLength r = 0 \<and> hr_NoBody r
          \<and> (case do_http_request (fe_Completed (envs 0)) (fe_Result (envs 0)) of
               Inl err \<Rightarrow> \<not> fe_gone (envs 0) | Inr response \<Rightarrow> rs_StatusCode response = 407)
          \<and> (\<exists>alt < length (bal_upstreams b). alt \<noteq> selected \<and> map fst tried = [selected, alt])))"
proof (cases "request_target r")
  case None
  with assms(2) show ?thesis by (auto simp: forward_request_def)
next
  case (Some target)
  with assms(2) have "forward_loop 2 envs (prx_ResponseBodyIdleTimeout p) r target selected b w = (out, tried, b')"
    by (simp add: forward_request_def)
  from forward_loop_tries [OF assms(1) this, unfolded released_def attempt_failed_def can_retry_def]
  show ?thesis by blast
qed

definition sample_get :: http_req where
  "sample_get =
     \<lparr> hr_Method = ''GET'', hr_URL = sample_url ''http'' ''example.org'', hr_Host = ''example.org'', hr_Header = Map.empty,
       hr_ContentLength = 0, hr_NoBody = True, hr_RequestURI = ''/'', hr_RemoteAddr = ''10.0.0.1:5000'', hr_ProtoMajor = 1,
       hr_Hijacker = True \<rparr>"

definition sample_tries :: "nat \<Rightarrow> forward_env" where
  \<comment> \<open>the first upstream asks for credentials, the second answers\<close>
  "sample_tries attempt =
     \<lparr> fe_Completed = True,
       fe_Result = DoResponse (if attempt = 0 then sample_response\<lparr>rs_StatusCode := 407\<rparr> else sample_response),
       fe_during = [], fe_gone = False, fe_fail_now = 5, fe_between = [], fe_next_now = 5, fe_draw = 0,
       fe_body = [BodyRead 3 [1, 2] (Some IoEOF), BodyWrite 2 False FlushOk, CopyReturns] \<rparr>"

definition sample_forwarded :: "forward_outcome \<times> (nat \<times> http_req \<times> upstream_call option) list \<times> balancer" where
  "sample_forwarded = forward_request default_proxy sample_get 0 sample_tries
     (new_balancer default_proxy (cfg_Upstreams sample_config)) new_writer"

lemma sample_forwarded_tried: "map fst (fst (snd sample_forwarded)) = [0, 1]"
  by code_simp

lemma sample_forwarded_answered: "(case fst sample_forwarded of Answered w \<Rightarrow> cw_Status w = Some 200 | _ \<Rightarrow> False)"
  by code_simp

theorem forward_retry_safe_witness:
  "fst sample_forwarded \<noteq> Unanswered \<and> fst sample_forwarded \<noteq> Copying \<and> map fst (fst (snd sample_forwarded)) = [0, 1]
   \<and> list_all (\<lambda>(i, q, call). case call of None \<Rightarrow> True | Some c \<Rightarrow> uc_Closed c \<and> uc_Cancelled c) (fst (snd sample_forwarded))"
proof -
  obtain out tried b' where s: "sample_forwarded = (out, tried, b')" by (cases sample_forwarded)
  have "out \<noteq> Copying" using sample_forwarded_answered unfolding s by auto
  then show ?thesis
    using forward_retry_safe [OF bal_inv_new s [unfolded sample_forwarded_def]] sample_forwarded_tried unfolding s
    by simp
qed

text \<open>C11. What the client gets. A request without a usable destination is answered 400. Any other
  answer is that of the last attempt: its error as 504 or 502, an upstream's demand for credentials
  as 502, and every other response as it is, with its status and its header without hop-by-hop
  fields, and only after its body has ended and every chunk of it was taken in full by the client's
  side, without an error, and flushed. A body that was cut short is never such an answer: it
  aborts the connection.\<close>
theorem forward_answer_faithful:
  assumes "bal_inv b" "forward_request p r selected envs b new_writer = (Answered w', tried, b')"
  shows "case request_target r of
      None \<Rightarrow> tried = [] \<and> w' = http_error ''Invalid request destination'' 400 new_writer
    | Some target \<Rightarrow>
        tried \<noteq> []
        \<and> (let fe = envs (length tried - 1) in
           case do_http_request (fe_Completed fe) (fe_Result fe) of
             Inl err \<Rightarrow> \<not> fe_gone fe
               \<and> w' = (if ge_Deadline err \<or> ge_Timeout err then http_error ''Upstream proxy timed out'' 504 new_writer
                       else http_error ''Upstream proxy failed'' 502 new_writer)
           | Inr response \<Rightarrow>
               if rs_StatusCode response = 407
               then w' = http_error ''Upstream proxy authentication failed'' 502 new_writer
               else passed_on response (fe_body fe) w')"
proof (cases "request_target r")
  case None
  with assms(2) show ?thesis by (auto simp: forward_request_def)
next
  case (Some target)
  let ?T = "prx_ResponseBodyIdleTimeout p" and ?fe = "envs (length tried - 1)"
  have "forward_loop 2 envs ?T r target selected b new_writer = (Answered w', tried, b')"
    using assms(2) Some by (simp add: forward_request_def)
  then have last: "tried \<noteq> []" "try_ends ?fe ?T new_writer (Answered w')"
    using forward_loop_tries [OF assms(1)] by blast+
  then obtain sel b1 b2 call where "forward_try ?fe ?T sel b1 new_writer = TryDone (Answered w') b2 call
      \<or> forward_try ?fe ?T sel b1 new_writer = TryFailed w' b2 call"
    unfolding try_ends_def by blast
  with last(1) Some relay_response_answer [of ?T _ "fe_body ?fe" w'] show ?thesis
    by (auto simp: forward_try_def write_upstream_error_def Let_def split: sum.splits if_splits)
qed

theorem forward_answer_faithful_witness:
  "case fst sample_forwarded of
     Answered w' \<Rightarrow> cw_Status w' = Some 200 \<and> cw_Body w' = [1, 2] \<and> header_values (cw_Header w') ''Upgrade'' = []
   | _ \<Rightarrow> False"
proof -
  obtain out tried b' where s: "sample_forwarded = (out, tried, b')" by (cases sample_forwarded)
  obtain w' where w: "out = Answered w'"
    using sample_forwarded_answered unfolding s by (cases out) auto
  have run: "forward_request default_proxy sample_get 0 sample_tries
     (new_balancer default_proxy (cfg_Upstreams sample_config)) new_writer = (Answered w', tried, b')"
    using s w unfolding sample_forwarded_def by simp
  have len: "length tried - 1 = 1"
    using arg_cong [OF sample_forwarded_tried, of length] unfolding s by simp
  have do: "do_http_request (fe_Completed (sample_tries 1)) (fe_Result (sample_tries 1)) = Inr sample_response"
    by (simp add: sample_tries_def do_http_request_def)
  have body: "concat (chunks (fe_body (sample_tries 1))) = [1, 2]" by (simp add: sample_tries_def)
  have status: "rs_StatusCode sample_response = 200" by (simp add: sample_response_def)
  have "(case request_target sample_get of None \<Rightarrow> False | Some target \<Rightarrow> True)" by code_simp
  then have p: "passed_on sample_response (fe_body (sample_tries 1)) w'"
    using forward_answer_faithful [OF bal_inv_new run, unfolded len] do status
    by (auto simp: Let_def split: option.splits)
  have "header_values (remove_hop_headers h) ''Upgrade'' = []" for h
  proof -
    have "canonical_key ''Upgrade'' \<in> canonical_key ` set hop_headers" by (simp add: hop_headers_def)
    then show ?thesis by (simp add: header_values_def remove_hop_headers_apply)
  qed
  with p body status show ?thesis unfolding s w by (simp add: passed_on_def)
qed

end
