(* ===== verification/Transports.thy ===== *)
theory Transports
  imports Connect AuthLimit Tunnels
begin

text \<open>
  \<open>NewProxyServer\<close> of \<open>internal/proxy/server.go\<close>: the state of the server, and one transport for each
  upstream. \<open>http.Transport\<close> and \<open>http.Client\<close> are records of the fields the program sets; what a
  transport's \<open>DialContext\<close> calls is the datatype \<open>dial_call\<close>. The system's certificate pool is a
  parameter (\<open>None\<close> is an error, \<open>Some False\<close> no pool), the other files are those of \<open>host_env\<close>.
\<close>

subsection \<open>Transports\<close>

record upstream_tls =
  ut_SystemRoots :: bool
  ut_CA :: string              \<comment> \<open>the appended PEM data\<close>
  ut_MinVersion :: nat

definition tls12 :: nat where
  "tls12 = 0x0303"

datatype dial_call =
    DialDirect string string duration duration                           \<comment> \<open>network, address, timeout, keep-alive\<close>
  | DialSocks string string string credentials dial_options              \<comment> \<open>scheme, proxy, target\<close>
  | DialRefused

record transport =
  tp_DialContext :: "string \<Rightarrow> string \<Rightarrow> dial_call"     \<comment> \<open>network and address\<close>
  tp_Proxy :: "parsed_url option"
  tp_TLSClientConfig :: "upstream_tls option"
  tp_TLSHandshakeTimeout :: duration
  tp_ResponseHeaderTimeout :: duration
  tp_MaxIdleConns :: int
  tp_MaxIdleConnsPerHost :: int
  tp_MaxConnsPerHost :: int
  tp_IdleConnTimeout :: duration
  tp_ExpectContinueTimeout :: duration

datatype server_error =
    ServerInvalid validate_error | ServerURL nat url_error | ServerSystemRoots nat | ServerCARead nat | ServerCANoPEM nat

definition upstream_tls_config :: "bool option \<Rightarrow> host_env \<Rightarrow> nat \<Rightarrow> string \<Rightarrow> server_error + upstream_tls option" where
  "upstream_tls_config system henv i file =
     (if file = [] then Inr None
      else case system of
        None \<Rightarrow> Inl (ServerSystemRoots i)
      | Some roots \<Rightarrow>
          (case env_read_file henv file of
             None \<Rightarrow> Inl (ServerCARead i)
           | Some data \<Rightarrow>
               if \<not> env_pem_has_certs henv data then Inl (ServerCANoPEM i)
               else Inr (Some \<lparr>ut_SystemRoots = roots, ut_CA = data, ut_MinVersion = tls12\<rparr>)))"

definition socks_dial :: "proxy_config \<Rightarrow> parsed_url \<Rightarrow> upstream_config \<Rightarrow> string \<Rightarrow> string \<Rightarrow> dial_call" where
  \<comment> \<open>the parameter \<open>network\<close> of the closure hides the configured one\<close>
  "socks_dial p u up network target =
     (if network \<noteq> ''tcp'' \<and> network \<noteq> ''tcp4'' \<and> network \<noteq> ''tcp6'' then DialRefused
      else DialSocks (url_Scheme u) (url_Host u) target (upstream_credentials up)
             \<lparr>do_Network = network, do_Timeout = prx_DialTimeout p, do_KeepAlive = prx_DialKeepAlive p\<rparr>)"

definition new_transport :: "proxy_config \<Rightarrow> parsed_url \<Rightarrow> upstream_config \<Rightarrow> upstream_tls option \<Rightarrow> transport" where
  "new_transport p u up tls =
     (let socks = (url_Scheme u = ''socks4'' \<or> url_Scheme u = ''socks5'') in
      \<lparr> tp_DialContext =
          (if socks then socks_dial p u up
           else (\<lambda>_ address. DialDirect (dial_network p) address (prx_DialTimeout p) (prx_DialKeepAlive p))),
        tp_Proxy = (if socks then None else Some u),
        tp_TLSClientConfig = tls,
        tp_TLSHandshakeTimeout = prx_TLSHandshakeTimeout p,
        tp_ResponseHeaderTimeout = prx_ResponseHeaderTimeout p,
        tp_MaxIdleConns = prx_MaxIdleConns p,
        tp_MaxIdleConnsPerHost = prx_MaxIdleConnsPerHost p,
        tp_MaxConnsPerHost = prx_MaxConnsPerHost p,
        tp_IdleConnTimeout = prx_IdleConnTimeout p,
        tp_ExpectContinueTimeout = prx_ExpectContinueTimeout p \<rparr>)"

fun new_transports ::
    "bool option \<Rightarrow> host_env \<Rightarrow> proxy_config \<Rightarrow> nat \<Rightarrow> upstream_config list \<Rightarrow> server_error + transport list" where
  "new_transports system henv p i [] = Inr []"
| "new_transports system henv p i (up # ups) =
     (case upstream_url henv up of
        Inl e \<Rightarrow> Inl (ServerURL i e)
      | Inr u \<Rightarrow>
          (case upstream_tls_config system henv i (up_TLSCAFile up) of
             Inl e \<Rightarrow> Inl e
           | Inr tls \<Rightarrow>
               (case new_transports system henv p (Suc i) ups of
                  Inl e \<Rightarrow> Inl e
                | Inr ts \<Rightarrow> Inr (new_transport p u up tls # ts))))"

subsection \<open>The server\<close>

record proxy_server =
  ps_config :: config
  ps_balancer :: balancer
  ps_transports :: "transport list"
  ps_tunnels :: registry
  ps_tunnelLimiter :: limiter
  ps_authFailures :: "auth_limiter option"

definition new_proxy_server :: "bool option \<Rightarrow> host_env \<Rightarrow> config option \<Rightarrow> server_error + proxy_server" where
  "new_proxy_server system henv c =
     (case validate henv c of
        Some e \<Rightarrow> Inl (ServerInvalid e)
      | None \<Rightarrow>
          (let cfg = the c; p = cfg_Proxy cfg in
           case new_transports system henv p 0 (cfg_Upstreams cfg) of
             Inl e \<Rightarrow> Inl e
           | Inr ts \<Rightarrow>
               Inr \<lparr> ps_config = cfg, ps_balancer = new_balancer p (cfg_Upstreams cfg), ps_transports = ts,
                     ps_tunnels = new_registry,
                     ps_tunnelLimiter = new_limiter (prx_MaxTunnels p) (prx_MaxTunnelsPerIP p),
                     ps_authFailures = (if auth_Enabled (cfg_Auth cfg) then Some (new_auth_limiter (cfg_Auth cfg)) else None) \<rparr>))"

definition server_wf :: "proxy_server \<Rightarrow> bool" where
  \<comment> \<open>what the request handlers rely on\<close>
  "server_wf ps \<longleftrightarrow>
     bal_inv (ps_balancer ps) \<and> bal_upstreams (ps_balancer ps) = cfg_Upstreams (ps_config ps)
     \<and> length (ps_transports ps) = length (cfg_Upstreams (ps_config ps))
     \<and> lim_inv (ps_tunnelLimiter ps) \<and> reg_inv (ps_tunnels ps)
     \<and> (case ps_authFailures ps of
          None \<Rightarrow> \<not> auth_Enabled (cfg_Auth (ps_config ps))
        | Some l \<Rightarrow> auth_Enabled (cfg_Auth (ps_config ps)) \<and> throttle_ok l)"

subsection \<open>Construction\<close>

definition socks_scheme :: "parsed_url \<Rightarrow> bool" where
  "socks_scheme u \<longleftrightarrow> url_Scheme u = ''socks4'' \<or> url_Scheme u = ''socks5''"

lemma new_transports_nth:
  assumes "new_transports system henv p n ups = Inr ts"
  shows "length ts = length ups \<and> (\<forall>i < length ups. \<exists>u tls. upstream_url henv (ups ! i) = Inr u
     \<and> upstream_tls_config system henv (n + i) (up_TLSCAFile (ups ! i)) = Inr tls
     \<and> ts ! i = new_transport p u (ups ! i) tls)"
  using assms
proof (induction ups arbitrary: n ts)
  case (Cons up ups)
  then obtain u tls ts' where *: "upstream_url henv up = Inr u"
    "upstream_tls_config system henv n (up_TLSCAFile up) = Inr tls"
    "new_transports system henv p (Suc n) ups = Inr ts'" "ts = new_transport p u up tls # ts'"
    by (auto split: sum.splits)
  show ?case
  proof (intro conjI allI impI)
    fix i assume "i < length (up # ups)"
    then show "\<exists>u tls. upstream_url henv ((up # ups) ! i) = Inr u
        \<and> upstream_tls_config system henv (n + i) (up_TLSCAFile ((up # ups) ! i)) = Inr tls
        \<and> ts ! i = new_transport p u ((up # ups) ! i) tls"
      using * Cons.IH [OF *(3)] by (cases i) auto
  qed (use * Cons.IH [OF *(3)] in simp)
qed simp

lemma tls_config_after_check:
  assumes "check_up_ca henv i u file = None" "system \<noteq> None"
  shows "\<exists>tls. upstream_tls_config system henv j file = Inr tls"
  using assms by (auto simp: check_up_ca_def upstream_tls_config_def split: if_splits option.splits)

lemma new_transports_total:
  assumes "\<forall>i < length ups. check_upstream henv (n + i) (ups ! i) = None" "system \<noteq> None"
  shows "\<exists>ts. new_transports system henv p n ups = Inr ts"
  using assms(1)
proof (induction ups arbitrary: n)
  case (Cons up ups)
  from Cons.prems have "check_upstream henv n up = None" by fastforce
  then obtain u where u: "upstream_url henv up = Inr u" "check_up_ca henv n u (up_TLSCAFile up) = None"
    by (rule check_upstream_None)
  obtain tls where "upstream_tls_config system henv n (up_TLSCAFile up) = Inr tls"
    using tls_config_after_check [OF u(2) assms(2)] by blast
  moreover have "\<forall>i < length ups. check_upstream henv (Suc n + i) (ups ! i) = None"
    using Cons.prems by fastforce
  then obtain ts where "new_transports system henv p (Suc n) ups = Inr ts" using Cons.IH by blast
  ultimately show ?case using u(1) by simp
qed simp

lemma new_server_wf:
  assumes "new_proxy_server system henv (Some cfg) = Inr ps"
  shows "server_wf ps" "ps_config ps = cfg" "validate henv (Some cfg) = None"
    "new_transports system henv (cfg_Proxy cfg) 0 (cfg_Upstreams cfg) = Inr (ps_transports ps)"
proof -
  show v: "validate henv (Some cfg) = None" using assms by (auto simp: new_proxy_server_def split: option.splits)
  with assms obtain ts where ts: "new_transports system henv (cfg_Proxy cfg) 0 (cfg_Upstreams cfg) = Inr ts"
    "ps = \<lparr> ps_config = cfg, ps_balancer = new_balancer (cfg_Proxy cfg) (cfg_Upstreams cfg), ps_transports = ts,
                     ps_tunnels = new_registry,
                     ps_tunnelLimiter = new_limiter (prx_MaxTunnels (cfg_Proxy cfg)) (prx_MaxTunnelsPerIP (cfg_Proxy cfg)),
                     ps_authFailures = (if auth_Enabled (cfg_Auth cfg) then Some (new_auth_limiter (cfg_Auth cfg)) else None) \<rparr>"
    by (auto simp: new_proxy_server_def Let_def split: sum.splits)
  then show "ps_config ps = cfg" "new_transports system henv (cfg_Proxy cfg) 0 (cfg_Upstreams cfg) = Inr (ps_transports ps)"
    by simp_all
  have "check_auth (cfg_Auth cfg) = None" using v by (simp add: validate_parts)
  then have "throttle_ok (new_auth_limiter (cfg_Auth cfg))" by (intro throttle_ok_new policy_ok_config)
  moreover have "bal_upstreams (new_balancer p ups) = ups" for p ups by (simp add: new_balancer_def)
  ultimately show "server_wf ps" using new_transports_nth [OF ts(1)] by (simp add: server_wf_def ts(2))
qed

lemma valid_transports:
  assumes "validate henv (Some cfg) = None" "system \<noteq> None"
  obtains ts where "new_transports system henv (cfg_Proxy cfg) 0 (cfg_Upstreams cfg) = Inr ts"
proof -
  have "check_upstreams henv (cfg_Upstreams cfg) = None" using assms(1) by (simp add: validate_parts)
  then have "\<forall>i < length (cfg_Upstreams cfg). check_upstream henv (0 + i) (cfg_Upstreams cfg ! i) = None"
    by (simp add: check_upstreams_None)
  from new_transports_total [OF this assms(2)] that show ?thesis by blast
qed

subsection \<open>Properties\<close>

text \<open>C33. A configuration that passes validation gives a server: with the same files and a readable
  system certificate pool no error branch of \<open>NewProxyServer\<close> is reached, and the server starts
  well formed, with one transport for each upstream, a selector over exactly the configured pool, an
  empty registry and limiter, and a failed-login limiter exactly when authentication is on.\<close>
theorem validated_config_gives_server:
  assumes "validate henv (Some cfg) = None" "system \<noteq> None"
  shows "\<exists>ps. new_proxy_server system henv (Some cfg) = Inr ps \<and> server_wf ps \<and> ps_config ps = cfg
    \<and> rg_active (ps_tunnels ps) = [] \<and> held_keys (ps_tunnelLimiter ps) = {#}"
proof -
  obtain ts where ts: "new_transports system henv (cfg_Proxy cfg) 0 (cfg_Upstreams cfg) = Inr ts"
    by (rule valid_transports [OF assms])
  then obtain ps where ps: "new_proxy_server system henv (Some cfg) = Inr ps"
    "ps_tunnels ps = new_registry"
    "ps_tunnelLimiter ps = new_limiter (prx_MaxTunnels (cfg_Proxy cfg)) (prx_MaxTunnelsPerIP (cfg_Proxy cfg))"
    using assms(1) by (simp add: new_proxy_server_def Let_def)
  then show ?thesis
    using new_server_wf [OF ps(1)] by (intro exI [of _ ps]) (simp add: new_registry_def held_keys_def new_limiter_def live_keys_def)
qed

lemma validate_sample: "validate sample_host_env (Some sample_config) = None"
  by code_simp

theorem validated_config_gives_server_witness:
  "\<exists>ps. new_proxy_server (Some True) sample_host_env (Some sample_config) = Inr ps \<and> length (ps_transports ps) = 2"
proof -
  obtain ps where ps: "new_proxy_server (Some True) sample_host_env (Some sample_config) = Inr ps" "server_wf ps"
      "ps_config ps = sample_config"
    using validated_config_gives_server [OF validate_sample, of "Some True"] by auto
  then show ?thesis by (intro exI [of _ ps]) (simp add: server_wf_def sample_config_def)
qed

text \<open>C34. Each upstream gets the transport its URL asks for: a SOCKS upstream is dialled through the
  SOCKS client with its own credentials and the configured timeouts and is given no HTTP proxy, an
  HTTP or HTTPS upstream is the transport's HTTP proxy and is dialled on the configured network; a
  custom certificate pool, with TLS 1.2 at least, is used exactly when one is configured. But a
  plain request through a SOCKS upstream is always dialled on \<open>tcp\<close>, the network
  \<open>http.Transport\<close> asks for, while a tunnel through the same upstream uses the configured one.\<close>
theorem transports_match_upstreams:
  assumes "new_proxy_server system henv (Some cfg) = Inr ps" "i < length (cfg_Upstreams cfg)"
  shows "\<exists>u. upstream_url henv (cfg_Upstreams cfg ! i) = Inr u
    \<and> (let t = ps_transports ps ! i; p = cfg_Proxy cfg; up = cfg_Upstreams cfg ! i in
        (if socks_scheme u
         then tp_Proxy t = None
           \<and> tp_DialContext t ''tcp'' target = DialSocks (url_Scheme u) (url_Host u) target (upstream_credentials up)
               ((connect_dial_options p)\<lparr>do_Network := ''tcp''\<rparr>)
           \<and> do_Network (connect_dial_options p) = dial_network p
         else tp_Proxy t = Some u
           \<and> tp_DialContext t ''tcp'' target = DialDirect (dial_network p) target (prx_DialTimeout p) (prx_DialKeepAlive p))
        \<and> (case tp_TLSClientConfig t of
             None \<Rightarrow> up_TLSCAFile up = []
           | Some tls \<Rightarrow> url_Scheme u = ''https'' \<and> ut_MinVersion tls = tls12
               \<and> env_read_file henv (up_TLSCAFile up) = Some (ut_CA tls)))"
proof -
  let ?up = "cfg_Upstreams cfg ! i"
  note wf = new_server_wf [OF assms(1)]
  obtain u tls where t: "upstream_url henv ?up = Inr u"
    "upstream_tls_config system henv (0 + i) (up_TLSCAFile ?up) = Inr tls"
    "ps_transports ps ! i = new_transport (cfg_Proxy cfg) u ?up tls"
    using new_transports_nth [OF wf(4)] assms(2) by blast
  have "check_upstream henv i ?up = None"
    using wf(3) assms(2) by (simp add: validate_parts check_upstreams_None)
  then have ca: "check_up_ca henv i u (up_TLSCAFile ?up) = None"
    using t(1) by (auto elim: check_upstream_None)
  have tls: "case tls of None \<Rightarrow> up_TLSCAFile ?up = []
      | Some x \<Rightarrow> url_Scheme u = ''https'' \<and> ut_MinVersion x = tls12 \<and> env_read_file henv (up_TLSCAFile ?up) = Some (ut_CA x)"
    using t(2) ca by (auto simp: upstream_tls_config_def check_up_ca_def split: if_splits option.splits)
  show ?thesis
    using t(1,3) tls
    by (intro exI [of _ u])
      (auto simp: Let_def new_transport_def socks_scheme_def socks_dial_def connect_dial_options_def split: option.split)
qed

theorem transports_match_upstreams_witness:
  "\<exists>ps. new_proxy_server (Some True) sample_host_env (Some sample_config) = Inr ps
    \<and> tp_Proxy (ps_transports ps ! 1) = None \<and> tp_Proxy (ps_transports ps ! 0) \<noteq> None"
proof -
  obtain ps where ps: "new_proxy_server (Some True) sample_host_env (Some sample_config) = Inr ps"
    using valid_transports [OF validate_sample, of "Some True"] validate_sample
    by (fastforce simp: new_proxy_server_def Let_def)
  have len: "length (cfg_Upstreams sample_config) = 2" by (simp add: sample_config_def)
  have "case upstream_url sample_host_env (cfg_Upstreams sample_config ! 0) of Inr u \<Rightarrow> \<not> socks_scheme u | _ \<Rightarrow> False"
    "case upstream_url sample_host_env (cfg_Upstreams sample_config ! 1) of Inr u \<Rightarrow> socks_scheme u | _ \<Rightarrow> False"
    by code_simp+
  then obtain u v where u: "upstream_url sample_host_env (cfg_Upstreams sample_config ! 0) = Inr u" "\<not> socks_scheme u"
    and v: "upstream_url sample_host_env (cfg_Upstreams sample_config ! 1) = Inr v" "socks_scheme v"
    by (auto split: sum.splits)
  have "tp_Proxy (ps_transports ps ! 0) = Some u"
    using transports_match_upstreams [OF ps, of 0 "[]"] len u unfolding Let_def by auto
  moreover have "tp_Proxy (ps_transports ps ! 1) = None"
    using transports_match_upstreams [OF ps, of 1 "[]"] len v unfolding Let_def by auto
  ultimately show ?thesis using ps by (intro exI [of _ ps]) simp
qed

end
