(* ===== verification/Server.thy ===== *)
theory Server
  imports Transports HttpForward
begin

text \<open>
  \<open>ServeHTTP\<close> and \<open>closeIdleConnections\<close> of \<open>internal/proxy/server.go\<close>: the login, the choice of an
  upstream, and the dispatch to \<open>handleConnect\<close> with its relay or to \<open>forwardRequest\<close>. A request is
  a step on the state of the server; what other requests do to that state between two of its steps
  is part of its environment.
\<close>

subsection \<open>The login\<close>

definition retry_after_seconds :: "duration \<Rightarrow> int" where
  "retry_after_seconds blockedFor =
     (let seconds = blockedFor div second in if blockedFor mod second \<noteq> 0 then seconds + 1 else seconds)"

definition auth_gate :: "auth_config \<Rightarrow> time \<Rightarrow> http_req \<Rightarrow> auth_limiter \<Rightarrow> (auth_limiter \<times> client_writer option) option" where
  \<comment> \<open>the answer to a request that is not let in; \<open>None\<close> is a panic of the limiter\<close>
  "auth_gate auth now r l =
     (let valid = is_authorized auth (hr_Header r) in
      case attempt (address_host (hr_RemoteAddr r)) valid now l of
        None \<Rightarrow> None
      | Some (l1, blockedFor) \<Rightarrow>
          Some (l1,
            if blockedFor > 0
            then Some (http_error ''Too many failed proxy authentication attempts'' 429
              (new_writer\<lparr>cw_Header := header_set ''Retry-After'' (itoa (nat (retry_after_seconds blockedFor))) (cw_Header new_writer)\<rparr>))
            else if \<not> valid
            then Some (http_error ''Proxy Authentication Required'' 407
              (new_writer\<lparr>cw_Header := header_set ''Proxy-Authenticate'' ''Basic realm=\"Proxy\"'' (cw_Header new_writer)\<rparr>))
            else None))"

subsection \<open>ServeHTTP\<close>

record serve_env =
  se_login_now :: time
  se_selector :: "sel_op list"    \<comment> \<open>others' operations on the selector before this request's \<open>Next\<close>\<close>
  se_next_now :: time
  se_draw :: nat
  se_connect :: handler_env
  se_forward :: "nat \<Rightarrow> forward_env"

datatype serve_outcome =
    Refused client_writer
  | Tunnelled connect_outcome "tunnel_result option"   \<comment> \<open>with the end of the relay, if it has one\<close>
  | Forwarded forward_outcome

definition connect_req_of :: "http_req \<Rightarrow> connect_req" where
  "connect_req_of r =
     \<lparr> rq_Host = hr_Host r, rq_URL_Host = url_Host (hr_URL r), rq_RemoteAddr = hr_RemoteAddr r,
       rq_ProtoMajor = hr_ProtoMajor r, rq_Hijacker = hr_Hijacker r \<rparr>"

definition serve_connect ::
    "host_env \<Rightarrow> serve_env \<Rightarrow> http_req \<Rightarrow> nat \<Rightarrow> proxy_server \<Rightarrow> serve_outcome \<times> nat list \<times> proxy_server" where
  "serve_connect henv se r selected ps =
     (let (out, tried, res, b, l, g) = handle_connect henv (ps_config ps) (connect_req_of r) selected (se_connect se)
                                         (ps_balancer ps, ps_tunnelLimiter ps, ps_tunnels ps)
      in (Tunnelled out res, tried, ps\<lparr>ps_balancer := b, ps_tunnelLimiter := l, ps_tunnels := g\<rparr>))"

definition dispatch :: "host_env \<Rightarrow> serve_env \<Rightarrow> http_req \<Rightarrow> proxy_server \<Rightarrow> serve_outcome \<times> nat list \<times> proxy_server" where
  "dispatch henv se r ps =
     (case next_upstream (se_next_now se) (se_draw se) (- 1) (fold bal_step (se_selector se) (ps_balancer ps)) of
        (b, None) \<Rightarrow> (Refused (http_error ''No upstream servers available'' 502 new_writer), [], ps\<lparr>ps_balancer := b\<rparr>)
      | (b, Some sel) \<Rightarrow>
          if hr_Method r = ''CONNECT'' then serve_connect henv se r (sel_Index sel) (ps\<lparr>ps_balancer := b\<rparr>)
          else
            (let (out, tried, b1) = forward_request (cfg_Proxy (ps_config ps)) r (sel_Index sel) (se_forward se) b new_writer
             in (Forwarded out, map fst tried, ps\<lparr>ps_balancer := b1\<rparr>)))"

definition serve_http ::
    "host_env \<Rightarrow> serve_env \<Rightarrow> http_req \<Rightarrow> proxy_server \<Rightarrow> (serve_outcome \<times> nat list \<times> proxy_server) option" where
  \<comment> \<open>the outcome, the upstreams that were used and the new state; \<open>None\<close> is a panic\<close>
  "serve_http henv se r ps =
     (if auth_Enabled (cfg_Auth (ps_config ps)) then
        (case ps_authFailures ps of
           None \<Rightarrow> None
         | Some l \<Rightarrow>
             (case auth_gate (cfg_Auth (ps_config ps)) (se_login_now se) r l of
                None \<Rightarrow> None
              | Some (l1, Some w) \<Rightarrow> Some (Refused w, [], ps\<lparr>ps_authFailures := Some l1\<rparr>)
              | Some (l1, None) \<Rightarrow> Some (dispatch henv se r (ps\<lparr>ps_authFailures := Some l1\<rparr>))))
      else Some (dispatch henv se r ps))"

definition close_idle_connections :: "proxy_server \<Rightarrow> nat list" where
  \<comment> \<open>the transports whose \<open>CloseIdleConnections\<close> is called\<close>
  "close_idle_connections ps = [0..<length (ps_transports ps)]"

subsection \<open>The state stays well formed\<close>

lemma bal_ok_steps:
  "bal_inv b \<Longrightarrow> bal_inv (fst (next_upstream t r ex b))" "bal_upstreams (fst (next_upstream t r ex b)) = bal_upstreams b"
  "bal_inv b \<Longrightarrow> bal_inv (mark_failure t k b)" "bal_upstreams (mark_failure t k b) = bal_upstreams b"
  "bal_inv b \<Longrightarrow> bal_inv (mark_success k b)" "bal_upstreams (mark_success k b) = bal_upstreams b"
  by (simp_all add: bal.inv_pick bal.inv_failure bal.inv_success bal.pool_pick bal.pool_failure bal.pool_success)

lemma connect_loop_bal:
  assumes "bal_inv b" "connect_loop n envs henv cfg target selected b = (out, tried, b')"
  shows "bal_inv b' \<and> bal_upstreams b' = bal_upstreams b"
  using assms
proof (induction n arbitrary: selected b out tried b')
  case (Suc n)
  define i where "i = 1 - n"
  let ?ae = "envs i"
  note u = Suc.prems(2) [unfolded connect_loop.simps Let_def, folded i_def]
  let ?b1 = "fold bal_step (ae_during ?ae) b"
  have b1: "bal_inv ?b1" by (rule bal_inv_run [OF Suc.prems(1)])
  show ?case
  proof (cases "fst (dial_connect henv cfg selected target (ae_io ?ae))")
    case (Inr cr)
    with u b1 show ?thesis by (cases cr) (auto simp: bal_ok_steps)
  next
    case (Inl err)
    let ?b2 = "if err \<noteq> SetupSocks UnsupportedDestination then mark_failure (ae_fail_now ?ae) (int selected) ?b1 else ?b1"
    let ?b3 = "fold bal_step (ae_between ?ae) ?b2"
    have b3: "bal_inv ?b3" "bal_upstreams ?b3 = bal_upstreams b"
      using b1 by (auto intro!: bal_inv_run simp: bal_ok_steps)
    obtain b4 so where n: "next_upstream (ae_next_now ?ae) (ae_draw ?ae) (int selected) ?b3 = (b4, so)"
      by (cases "next_upstream (ae_next_now ?ae) (ae_draw ?ae) (int selected) ?b3")
    then have b4: "bal_inv b4" "bal_upstreams b4 = bal_upstreams b"
      using b3 bal_ok_steps(1,2) by (metis fst_conv)+
    show ?thesis
    proof (cases "ae_gone ?ae \<or> i \<noteq> 0 \<or> so = None")
      case True
      with u Inl n b1 b3 b4 show ?thesis by (auto split: if_splits)
    next
      case False
      then obtain sel where "so = Some sel" by blast
      with False u Inl n obtain tried1 where
        "connect_loop n envs henv cfg target (sel_Index sel) b4 = (out, tried1, b')"
        by (auto split: prod.splits)
      from Suc.IH [OF b4(1) this] b4(2) show ?thesis by simp
    qed
  qed
qed simp

lemma forward_try_done_bal:
  "bal_inv b \<Longrightarrow> forward_try fe T selected b w = TryDone out b1 call \<Longrightarrow> bal_inv b1 \<and> bal_upstreams b1 = bal_upstreams b"
  using bal_inv_run [of b "fe_during fe"] by (auto simp: forward_try_def Let_def bal_ok_steps split: sum.splits if_splits)

lemma forward_loop_bal:
  assumes "bal_inv b" "forward_loop n envs T r target selected b w = (out, tried, b')"
  shows "bal_inv b' \<and> bal_upstreams b' = bal_upstreams b"
  using assms
proof (induction n arbitrary: selected b out tried b')
  case (Suc n)
  define i where "i = 1 - n"
  let ?fe = "envs i"
  note u = Suc.prems(2) [unfolded forward_loop.simps Let_def, folded i_def]
  show ?case
  proof (cases "forward_try ?fe T selected b w")
    case (TryDone out1 b1 call)
    with u forward_try_done_bal [OF Suc.prems(1) TryDone] show ?thesis by auto
  next
    case (TryFailed answer b2 call)
    let ?b3 = "fold bal_step (fe_between ?fe) b2"
    have b2: "bal_inv b2" "bal_upstreams b2 = bal_upstreams b"
      using forward_try_failed [OF TryFailed] Suc.prems(1) by simp_all
    obtain b4 so where n: "next_upstream (fe_next_now ?fe) (fe_draw ?fe) (int selected) ?b3 = (b4, so)"
      by (cases "next_upstream (fe_next_now ?fe) (fe_draw ?fe) (int selected) ?b3")
    then have b4: "bal_inv b4" "bal_upstreams b4 = bal_upstreams b"
      using bal_ok_steps(1,2) [where b = ?b3] bal_inv_run [OF b2(1)] b2(2) by (metis bal_pool_run fst_conv)+
    show ?thesis
    proof (cases "\<not> can_retry r \<or> i \<noteq> 0 \<or> so = None")
      case True
      with u TryFailed n b2 b4 show ?thesis by (auto split: if_splits)
    next
      case False
      then obtain sel where "so = Some sel" by blast
      with False u TryFailed n obtain tried1 where
        "forward_loop n envs T r target (sel_Index sel) b4 w = (out, tried1, b')"
        by (auto split: prod.splits)
      from Suc.IH [OF b4(1) this] b4(2) show ?thesis by simp
    qed
  qed
qed simp

subsection \<open>Properties\<close>

lemma round_up:
  assumes "0 < (k :: int)"
  shows "(d + k - 1) div k = (if d mod k \<noteq> 0 then d div k + 1 else d div k)"
proof -
  have "d + k - 1 = (d mod k + (k - 1)) + d div k * k" by simp
  then have s: "(d + k - 1) div k = d div k + (d mod k + (k - 1)) div k" using assms by (metis div_mult_self1 less_irrefl add.commute)
  have "0 \<le> d mod k" "d mod k < k" using assms by simp_all
  then have "(d mod k + (k - 1)) div k = (if d mod k \<noteq> 0 then 1 else 0)"
    by (auto simp: div_pos_pos_trivial intro: int_div_pos_eq [where r = "d mod k - 1"])
  with s show ?thesis by simp
qed

lemma retry_after_ceiling: "retry_after_seconds d = (d + second - 1) div second"
  using round_up [of second d] by (simp add: retry_after_seconds_def Let_def)

lemma canonical_answer_headers:
  "canonical_key ''Retry-After'' = ''Retry-After''" "canonical_key ''Proxy-Authenticate'' = ''Proxy-Authenticate''"
  "canonical_key ''X-Content-Type-Options'' = ''X-Content-Type-Options''" "canonical_key ''Content-Type'' = ''Content-Type''"
  "canonical_key ''Content-Length'' = ''Content-Length''"
  by code_simp+

lemma http_error_keeps:
  "header_values (cw_Header (http_error msg code w)) ''Retry-After'' = header_values (cw_Header w) ''Retry-After''"
  "header_values (cw_Header (http_error msg code w)) ''Proxy-Authenticate'' = header_values (cw_Header w) ''Proxy-Authenticate''"
  by (simp_all add: http_error_def write_header_def Let_def header_values_def header_set_def header_del_def canonical_answer_headers)

text \<open>C6. The login answers every request, and rightly: a client is let in only with the configured
  credentials, while its address is not blocked, and its record of failures is then cleared; it is
  told 429 exactly when its address is blocked now, with the remaining time, rounded up to whole
  seconds, as \<open>Retry-After\<close>; otherwise wrong credentials get 407 with the
  challenge.\<close>
theorem login_gate_exact:
  assumes "throttle_ok l" "0 \<le> now"
  shows "\<exists>l' ans. auth_gate auth now r l = Some (l', ans) \<and> throttle_ok l'
    \<and> (let ip = address_host (hr_RemoteAddr r); remaining = blocked_until l' ip - now in
       case ans of
         None \<Rightarrow> is_authorized auth (hr_Header r) \<and> blocked_until l ip \<le> now \<and> blocked_until l' ip = 0
       | Some w \<Rightarrow>
           if 0 < remaining
           then cw_Status w = Some 429
             \<and> (remaining < 2 ^ 63 \<longrightarrow> header_values (cw_Header w) ''Retry-After'' = [itoa (nat ((remaining + second - 1) div second))])
           else cw_Status w = Some 407 \<and> \<not> is_authorized auth (hr_Header r)
             \<and> header_values (cw_Header w) ''Proxy-Authenticate'' = [''Basic realm=\"Proxy\"''])"
proof -
  let ?ip = "address_host (hr_RemoteAddr r)" and ?v = "is_authorized auth (hr_Header r)"
  obtain l' d where a: "attempt ?ip ?v now l = Some (l', d)" and ok: "throttle_ok l'"
    using throttle.total [OF assms] by blast
  note blocked = throttle.refused_iff_blocked(1) [OF assms a] and let_in = throttle.let_in [OF assms a]
    and rest = throttle.remaining [OF assms a]
  show ?thesis
  proof (cases "0 < d")
    case True
    with blocked rest retry_after_ceiling [of d] ok a show ?thesis
      by (auto simp: auth_gate_def Let_def http_error_status http_error_keeps)
  next
    case False
    with blocked let_in ok a show ?thesis
      by (auto simp: auth_gate_def Let_def http_error_status http_error_keeps)
  qed
qed

theorem login_gate_exact_witness:
  "\<exists>l' w. auth_gate (default_auth\<lparr>auth_Enabled := True\<rparr>) 7 sample_get (new_auth_limiter default_auth) = Some (l', Some w)
    \<and> cw_Status w \<in> {Some 407, Some 429}"
proof -
  have ok: "throttle_ok (new_auth_limiter default_auth)"
    by (intro throttle_ok_new policy_ok_config) (simp add: check_auth_def default_auth_def)
  have "\<not> is_authorized (default_auth\<lparr>auth_Enabled := True\<rparr>) (hr_Header sample_get)" by code_simp
  then show ?thesis
    using login_gate_exact [OF ok, of 7 "default_auth\<lparr>auth_Enabled := True\<rparr>" sample_get]
    by (fastforce simp: Let_def split: option.splits if_splits)
qed

lemma auth_gate_answers:
  assumes "throttle_ok l" "0 \<le> now"
  shows "\<exists>l' ans. auth_gate auth now r l = Some (l', ans) \<and> throttle_ok l'
    \<and> (case ans of
         None \<Rightarrow> is_authorized auth (hr_Header r) \<and> blocked_until l (address_host (hr_RemoteAddr r)) \<le> now
       | Some w \<Rightarrow> cw_Status w \<in> {Some 407, Some 429})"
proof -
  let ?ip = "address_host (hr_RemoteAddr r)" and ?v = "is_authorized auth (hr_Header r)"
  obtain l' d where a: "attempt ?ip ?v now l = Some (l', d)" "throttle_ok l'"
    using throttle.total [OF assms] by blast
  then show ?thesis
    using throttle.let_in(1) [OF assms a(1)] by (auto simp: auth_gate_def Let_def http_error_status)
qed

lemma run_relay_registry: "reg_inv g \<Longrightarrow> reg_inv (snd (run_relay T v re ub g))"
proof -
  assume g: "reg_inv g"
  note tracked = reg_inv_track [OF g]
  then have t: "reg_inv (reg_run ops (fst (track g)))" for ops
    by (simp add: reg_run_eq reg.inv_run)
  then have "reg_inv (release_pair h (reg_run ops (fst (track g))))" for h ops
    by (intro inv_intros)
  with t tracked g show ?thesis
    by (auto simp: run_relay_def relay_http1_def relay_http2_def Let_def split: prod.splits option.splits)
qed

lemma handle_connect_wf:
  assumes "bal_inv b" "lim_inv l" "reg_inv g" "handle_connect henv cfg r selected he (b, l, g) = (out, tried, res, b', l', g')"
  shows "bal_inv b' \<and> bal_upstreams b' = bal_upstreams b \<and> lim_inv l' \<and> reg_inv g'"
proof (cases "connect_target r")
  case (Inl e)
  with assms show ?thesis by (simp add: handle_connect_def)
next
  case (Inr target)
  obtain l1 ho where a: "try_acquire (address_host (rq_RemoteAddr r)) l = (l1, ho)"
    by (cases "try_acquire (address_host (rq_RemoteAddr r)) l")
  then have l1: "lim_inv l1" using lim_inv_acquire [OF assms(2), of "address_host (rq_RemoteAddr r)"] by simp
  show ?thesis
  proof (cases ho)
    case None
    with assms Inr a l1 show ?thesis by (simp add: handle_connect_def)
  next
    case (Some h)
    obtain out1 tried1 b1 where c: "connect_loop 2 (he_attempts he) henv cfg target selected b = (out1, tried1, b1)"
      by (cases "connect_loop 2 (he_attempts he) henv cfg target selected b")
    note handled = handle_connect_Inr [OF Inr a [unfolded Some] c assms(4)]
    have "lim_inv (fold lim_step ops l1)" for ops using lim.inv_run [OF l1] by (simp add: lim_step_eq)
    then have "lim_inv l'" unfolding handled(4) by (auto intro: inv_intros)
    moreover have "reg_inv g'"
    proof (cases out)
      case (Relayed i conn rd)
      have "reg_inv (reg_run (he_registry he) g)" by (simp add: reg_run_eq reg.inv_run assms(3))
      moreover have "(res, g') = run_relay (prx_TunnelIdleTimeout (cfg_Proxy cfg)) (rq_ProtoMajor r) (he_relay he)
          (upstream_buffered conn rd) (reg_run (he_registry he) g)"
        using handled(5) by (simp add: Relayed)
      ultimately show ?thesis using run_relay_registry by (metis snd_conv)
    qed (use handled(5) assms(3) in auto)
    ultimately show ?thesis using connect_loop_bal [OF assms(1) c] handled(3) by simp
  qed
qed

lemma serve_connect_wf:
  assumes "server_wf ps" "serve_connect henv se r selected ps = (out, tried, ps')"
  shows "server_wf ps' \<and> ps_config ps' = ps_config ps"
proof -
  obtain o1 t1 res b l g where h: "handle_connect henv (ps_config ps) (connect_req_of r) selected (se_connect se)
      (ps_balancer ps, ps_tunnelLimiter ps, ps_tunnels ps) = (o1, t1, res, b, l, g)"
    by (metis prod_cases6)
  have "bal_inv b \<and> bal_upstreams b = bal_upstreams (ps_balancer ps) \<and> lim_inv l \<and> reg_inv g"
    using handle_connect_wf [OF _ _ _ h] assms(1) by (simp add: server_wf_def)
  with assms show ?thesis
    by (auto simp: serve_connect_def Let_def h server_wf_def split: option.splits)
qed

lemma handle_connect_tries:
  assumes "bal_inv b" "handle_connect henv cfg r selected he (b, l, g) = (out, tried, res, b', l', g')"
  shows "out \<noteq> NoResponse \<and> (tried = [] \<or> tried = [selected]
    \<or> (\<exists>alt < length (bal_upstreams b). alt \<noteq> selected \<and> tried = [selected, alt]))"
  using assms(2) by (auto simp: handle_connect_def Let_def split: sum.splits option.splits prod.splits connect_outcome.splits
      dest!: connect_loop_tries [OF assms(1)])

lemma forward_request_bal:
  "bal_inv b \<Longrightarrow> forward_request p r selected envs b w = (out, tried, b') \<Longrightarrow> bal_inv b' \<and> bal_upstreams b' = bal_upstreams b"
  by (auto simp: forward_request_def split: option.splits dest: forward_loop_bal)

lemma forward_request_tries:
  assumes "bal_inv b" "forward_request p r selected envs b w = (out, tried, b')"
  shows "out \<noteq> Unanswered \<and> (tried = [] \<or> map fst tried = [selected]
    \<or> (\<exists>alt < length (bal_upstreams b). alt \<noteq> selected \<and> map fst tried = [selected, alt]))"
  using assms(2) by (auto simp: forward_request_def split: option.splits dest!: forward_loop_tries [OF assms(1)])

lemma serve_connect_tries:
  assumes "server_wf ps" "serve_connect henv se r selected ps = (out, tried, ps')"
  shows "\<exists>c res. out = Tunnelled c res \<and> c \<noteq> NoResponse
    \<and> (tried = [] \<or> tried = [selected] \<or> (\<exists>alt < length (cfg_Upstreams (ps_config ps)). alt \<noteq> selected \<and> tried = [selected, alt]))"
proof -
  obtain o1 t1 res b l g where h: "handle_connect henv (ps_config ps) (connect_req_of r) selected (se_connect se)
      (ps_balancer ps, ps_tunnelLimiter ps, ps_tunnels ps) = (o1, t1, res, b, l, g)"
    by (metis prod_cases6)
  have "out = Tunnelled o1 (case out of Tunnelled _ res \<Rightarrow> res | _ \<Rightarrow> None)" "tried = t1"
    using assms(2) by (auto simp: serve_connect_def Let_def h split: prod.splits)
  with handle_connect_tries [OF _ h] assms(1) show ?thesis by (metis server_wf_def)
qed

lemma server_wf_balancer [inv_intros]:
  "server_wf ps \<Longrightarrow> bal_inv b \<Longrightarrow> bal_upstreams b = cfg_Upstreams (ps_config ps) \<Longrightarrow> server_wf (ps\<lparr>ps_balancer := b\<rparr>)"
  by (auto simp: server_wf_def split: option.splits)

lemma server_wf_login [inv_intros]:
  "server_wf ps \<Longrightarrow> auth_Enabled (cfg_Auth (ps_config ps)) \<Longrightarrow> throttle_ok l \<Longrightarrow> server_wf (ps\<lparr>ps_authFailures := Some l\<rparr>)"
  by (simp add: server_wf_def)

lemma dispatch_safe:
  assumes "server_wf ps" "dispatch henv se r ps = (out, tried, ps')"
  shows "server_wf ps' \<and> ps_config ps' = ps_config ps
    \<and> distinct tried \<and> length tried \<le> 2 \<and> list_all (\<lambda>i. i < length (ps_transports ps')) tried
    \<and> (case out of
         Refused w \<Rightarrow> tried = [] \<and> cw_Status w = Some 502
       | Tunnelled c res \<Rightarrow> hr_Method r = ''CONNECT'' \<and> c \<noteq> NoResponse
       | Forwarded f \<Rightarrow> hr_Method r \<noteq> ''CONNECT'' \<and> f \<noteq> Unanswered)"
proof -
  let ?b0 = "fold bal_step (se_selector se) (ps_balancer ps)"
  obtain b so where n: "next_upstream (se_next_now se) (se_draw se) (- 1) ?b0 = (b, so)"
    by (cases "next_upstream (se_next_now se) (se_draw se) (- 1) ?b0")
  have b0: "bal_inv ?b0" "bal_upstreams ?b0 = cfg_Upstreams (ps_config ps)"
    using assms(1) bal_inv_run by (auto simp: server_wf_def)
  then have b: "bal_inv b" "bal_upstreams b = cfg_Upstreams (ps_config ps)"
    using n bal_ok_steps(1,2) [where b = ?b0] by (metis fst_conv)+
  have wf: "server_wf (ps\<lparr>ps_balancer := b\<rparr>)" by (rule server_wf_balancer [OF assms(1) b])
  show ?thesis
  proof (cases so)
    case None
    with assms(2) n wf show ?thesis by (auto simp: dispatch_def http_error_status)
  next
    case (Some sel)
    then have i: "sel_Index sel < length (cfg_Upstreams (ps_config ps))"
      using bal.pick_Some [OF b0(1), of "se_next_now se" "se_draw se" "- 1" sel] bal.usable_range n b0(2) by fastforce
    have ts: "length (ps_transports q) = length (cfg_Upstreams (ps_config q))" if "server_wf q" for q
      using that by (simp add: server_wf_def)
    show ?thesis
    proof (cases "hr_Method r = ''CONNECT''")
      case True
      then have c: "serve_connect henv se r (sel_Index sel) (ps\<lparr>ps_balancer := b\<rparr>) = (out, tried, ps')"
        using assms(2) n Some by (simp add: dispatch_def)
      from serve_connect_wf [OF wf c] serve_connect_tries [OF wf c] i True ts [of ps'] show ?thesis by auto
    next
      case False
      obtain f t b1 where q: "forward_request (cfg_Proxy (ps_config ps)) r (sel_Index sel) (se_forward se) b new_writer = (f, t, b1)"
        by (cases "forward_request (cfg_Proxy (ps_config ps)) r (sel_Index sel) (se_forward se) b new_writer")
      have p: "out = Forwarded f" "tried = map fst t" "ps' = ps\<lparr>ps_balancer := b1\<rparr>"
        using assms(2) n Some False q by (auto simp: dispatch_def)
      have wf': "server_wf ps'"
        using forward_request_bal [OF b(1) q] b by (simp add: p server_wf_balancer [OF assms(1)])
      from forward_request_tries [OF b(1) q] i b(2) False ts [OF wf'] wf' show ?thesis by (auto simp: p)
    qed
  qed
qed

text \<open>C1. Every request is served safely, whatever other requests do meanwhile: \<open>ServeHTTP\<close> never
  panics on the limiter and keeps the server well formed. With authentication on, nothing is sent
  to any upstream unless the client presented the configured credentials from an address that is
  not blocked; a refusal is 407, 429 or 502 and uses no upstream. A \<open>CONNECT\<close>, and only that, is
  tunnelled, any other request is forwarded, through one upstream of the configured pool or two
  different ones, each with a transport of its own.\<close>
theorem serve_http_safe:
  assumes "server_wf ps" "0 \<le> se_login_now se"
  shows "\<exists>out tried ps'. serve_http henv se r ps = Some (out, tried, ps') \<and> server_wf ps' \<and> ps_config ps' = ps_config ps
    \<and> distinct tried \<and> length tried \<le> 2 \<and> list_all (\<lambda>i. i < length (ps_transports ps')) tried
    \<and> (case out of
         Refused w \<Rightarrow> tried = [] \<and> cw_Status w \<in> {Some 407, Some 429, Some 502}
       | Tunnelled c res \<Rightarrow> hr_Method r = ''CONNECT'' \<and> c \<noteq> NoResponse
       | Forwarded f \<Rightarrow> hr_Method r \<noteq> ''CONNECT'' \<and> f \<noteq> Unanswered)
    \<and> (auth_Enabled (cfg_Auth (ps_config ps)) \<and> tried \<noteq> [] \<longrightarrow>
         is_authorized (cfg_Auth (ps_config ps)) (hr_Header r)
         \<and> (\<exists>l. ps_authFailures ps = Some l \<and> blocked_until l (address_host (hr_RemoteAddr r)) \<le> se_login_now se))"
proof (cases "auth_Enabled (cfg_Auth (ps_config ps))")
  case False
  obtain out tried ps' where d: "dispatch henv se r ps = (out, tried, ps')" by (metis prod_cases3)
  from dispatch_safe [OF assms(1) d] False d show ?thesis
    by (intro exI [of _ out] exI [of _ tried] exI [of _ ps']) (auto simp: serve_http_def split: serve_outcome.splits)
next
  case True
  then obtain l where l: "ps_authFailures ps = Some l" "throttle_ok l"
    using assms(1) by (auto simp: server_wf_def split: option.splits)
  obtain l' ans where g: "auth_gate (cfg_Auth (ps_config ps)) (se_login_now se) r l = Some (l', ans)" "throttle_ok l'"
      "case ans of None \<Rightarrow> is_authorized (cfg_Auth (ps_config ps)) (hr_Header r)
          \<and> blocked_until l (address_host (hr_RemoteAddr r)) \<le> se_login_now se
        | Some w \<Rightarrow> cw_Status w \<in> {Some 407, Some 429}"
    using auth_gate_answers [OF l(2) assms(2)] by blast
  let ?ps1 = "ps\<lparr>ps_authFailures := Some l'\<rparr>"
  have wf: "server_wf ?ps1" by (rule server_wf_login [OF assms(1) True g(2)])
  show ?thesis
  proof (cases ans)
    case (Some w)
    with True l(1) g wf show ?thesis by (auto simp: serve_http_def)
  next
    case None
    obtain out tried ps' where d: "dispatch henv se r ?ps1 = (out, tried, ps')" by (metis prod_cases3)
    from dispatch_safe [OF wf d] True None l(1) g d show ?thesis
      by (intro exI [of _ out] exI [of _ tried] exI [of _ ps']) (auto simp: serve_http_def split: serve_outcome.splits)
  qed
qed

definition sample_serving :: serve_env where
  \<comment> \<open>no other request interferes\<close>
  "sample_serving =
     \<lparr> se_login_now = 3, se_selector = [], se_next_now = 3, se_draw = 0, se_connect = failing_attempts,
       se_forward = sample_tries \<rparr>"

definition sample_served :: "(serve_outcome \<times> nat list) option" where
  "sample_served =
     (case new_proxy_server (Some True) sample_host_env (Some sample_config) of
        Inl e \<Rightarrow> None
      | Inr ps \<Rightarrow> map_option (\<lambda>(out, tried, ps'). (out, tried)) (serve_http sample_host_env sample_serving sample_get ps))"

lemma sample_served_tries: "map_option snd sample_served = Some [0, 1]"
  by code_simp

theorem serve_http_safe_witness:
  "\<exists>ps f ps'. new_proxy_server (Some True) sample_host_env (Some sample_config) = Inr ps
    \<and> serve_http sample_host_env sample_serving sample_get ps = Some (Forwarded f, [0, 1], ps') \<and> server_wf ps'"
proof -
  obtain ps where ps: "new_proxy_server (Some True) sample_host_env (Some sample_config) = Inr ps"
    using sample_served_tries by (auto simp: sample_served_def split: sum.splits)
  obtain out tried ps' where s: "serve_http sample_host_env sample_serving sample_get ps = Some (out, tried, ps')"
      "server_wf ps'" "case out of Refused w \<Rightarrow> tried = [] | Tunnelled c res \<Rightarrow> hr_Method sample_get = ''CONNECT'' | Forwarded f \<Rightarrow> True"
    using serve_http_safe [OF new_server_wf(1) [OF ps], of sample_serving sample_host_env sample_get]
    by (fastforce simp: sample_serving_def split: serve_outcome.splits)
  with sample_served_tries ps have "tried = [0, 1]" by (simp add: sample_served_def)
  with s ps show ?thesis by (auto simp: sample_get_def split: serve_outcome.splits)
qed

end
