(* ===== verification/RunServer.thy ===== *)
theory RunServer
  imports Server
begin

text \<open>
  \<open>internal/proxy/run.go\<close>: \<open>Run\<close> with \<open>newHTTPServer\<close>. The calls \<open>Run\<close> makes on the listener, the
  HTTP server, the registry of tunnels and the transports are the list of its actions, in order;
  what they return, and what the requests do to the registry meanwhile, is its environment.
\<close>

subsection \<open>The HTTP server's settings\<close>

record http_server =
  hs_ReadHeaderTimeout :: duration
  hs_IdleTimeout :: duration
  hs_MaxHeaderBytes :: int
  hs_MaxConcurrentStreams :: int
  hs_SendPingTimeout :: duration
  hs_PingTimeout :: duration
  hs_WriteByteTimeout :: duration
  hs_MinVersion :: nat
  hs_NextProtos :: "string list"

definition effective_http2_max_concurrent_streams :: "config \<Rightarrow> int" where
  "effective_http2_max_concurrent_streams cfg =
     (if srv_HTTP2MaxConcurrentStreams (cfg_Server cfg) > 0 then srv_HTTP2MaxConcurrentStreams (cfg_Server cfg)
      else min (prx_MaxTunnels (cfg_Proxy cfg)) (prx_MaxTunnelsPerIP (cfg_Proxy cfg)))"

definition new_http_server :: "config \<Rightarrow> http_server" where
  "new_http_server cfg =
     (let s = cfg_Server cfg in
      \<lparr> hs_ReadHeaderTimeout = srv_ReadHeaderTimeout s, hs_IdleTimeout = srv_IdleTimeout s,
        hs_MaxHeaderBytes = srv_MaxHeaderBytes s,
        hs_MaxConcurrentStreams = effective_http2_max_concurrent_streams cfg,
        hs_SendPingTimeout = srv_HTTP2SendPingTimeout s, hs_PingTimeout = srv_HTTP2PingTimeout s,
        hs_WriteByteTimeout = srv_HTTP2WriteByteTimeout s,
        hs_MinVersion = tls12, hs_NextProtos = [''h2'', ''http/1.1''] \<rparr>)"

subsection \<open>Run\<close>

datatype serve_end = ErrServerClosed | ServeError string

datatype first_event = ServeReturns serve_end | ContextDone

datatype run_action =
    Listen string string                                     \<comment> \<open>network and address\<close>
  | ServePlain limiter http_server                           \<comment> \<open>over the limited listener\<close>
  | ServeTLS limiter http_server string string               \<comment> \<open>with the files of the certificate and the key\<close>
  | ClosePairs "nat list"                                    \<comment> \<open>\<open>closeAll\<close>\<close>
  | Shutdown duration                                        \<comment> \<open>\<open>server.Shutdown\<close>, with the time it is given\<close>
  | ServerClose
  | WaitTunnels duration                                     \<comment> \<open>\<open>waitFor\<close>, with the time it is given\<close>
  | CloseIdle "nat list"

datatype run_error =
    NewServerFailed server_error
  | ListenFailed string string
  | ServeFailed string
  | ShutdownFailed string
  | TunnelsLeft                                              \<comment> \<open>\<open>waitFor\<close>'s context ended\<close>

record run_env =
  ru_roots :: "bool option"          \<comment> \<open>the system's certificate pool, as \<open>NewProxyServer\<close> asks for it\<close>
  ru_listen :: "string option"       \<comment> \<open>the error of \<open>net.Listen\<close>\<close>
  ru_before :: "reg_op list"         \<comment> \<open>what requests do to the registry until \<open>closeAll\<close>\<close>
  ru_first :: first_event            \<comment> \<open>what the \<open>select\<close> receives\<close>
  ru_shutdown :: "string option"     \<comment> \<open>the error of \<open>server.Shutdown\<close>\<close>
  ru_serve :: serve_end              \<comment> \<open>what \<open>Serve\<close> returns after that\<close>
  ru_after :: "reg_op list"          \<comment> \<open>what requests do to the registry until the shutdown's context ends\<close>

primrec registry_states :: "reg_op list \<Rightarrow> registry \<Rightarrow> registry list" where
  "registry_states [] r = [r]"
| "registry_states (x # xs) r = r # registry_states xs (reg_step x r)"

definition serve_action :: "config \<Rightarrow> run_action" where
  "serve_action cfg =
     (let s = cfg_Server cfg;
          l = new_limiter (srv_MaxConnections s) (srv_MaxConnectionsPerIP s);
          server = new_http_server cfg in
      if tls_CertFile (srv_TLS s) \<noteq> [] then ServeTLS l server (tls_CertFile (srv_TLS s)) (tls_KeyFile (srv_TLS s))
      else ServePlain l server)"

definition serve_errors :: "serve_end \<Rightarrow> run_error list" where
  "serve_errors e = (case e of ErrServerClosed \<Rightarrow> [] | ServeError m \<Rightarrow> [ServeFailed m])"

definition run_select :: "run_env \<Rightarrow> config \<Rightarrow> proxy_server \<Rightarrow> run_action list \<times> run_error list \<times> proxy_server" where
  \<comment> \<open>from the \<open>select\<close> to the end\<close>
  "run_select re cfg ps =
     (let time = srv_ShutdownTimeout (cfg_Server cfg);
          (closed, pairs) = close_all (reg_run (ru_before re) (ps_tunnels ps));
          left = \<not> wait_for (registry_states (ru_after re) closed);
          ps' = ps\<lparr>ps_tunnels := reg_run (ru_after re) closed\<rparr>
      in case ru_first re of
           ServeReturns e \<Rightarrow> ([ClosePairs pairs, WaitTunnels time], serve_errors e, ps')
         | ContextDone \<Rightarrow>
             (ClosePairs pairs # Shutdown time # (case ru_shutdown re of None \<Rightarrow> [] | Some m \<Rightarrow> [ServerClose]) @ [WaitTunnels time],
              (case ru_shutdown re of None \<Rightarrow> [] | Some m \<Rightarrow> [ShutdownFailed m])
                @ (if left then [TunnelsLeft] else []) @ serve_errors (ru_serve re),
              ps'))"

definition run_server :: "host_env \<Rightarrow> run_env \<Rightarrow> config option \<Rightarrow> run_action list \<times> run_error list \<times> proxy_server option" where
  \<comment> \<open>the actions, the errors that are joined (none: \<open>nil\<close>) and the server at the end\<close>
  "run_server henv re c =
     (case new_proxy_server (ru_roots re) henv c of
        Inl e \<Rightarrow> ([], [NewServerFailed e], None)
      | Inr ps \<Rightarrow>
          (let cfg = the c;
               address = join_host_port (srv_Host (cfg_Server cfg)) (itoa (nat (srv_Port (cfg_Server cfg)))) in
           case ru_listen re of
             Some m \<Rightarrow> ([Listen ''tcp'' address, CloseIdle (close_idle_connections ps)], [ListenFailed address m], Some ps)
           | None \<Rightarrow>
               (let (actions, errors, ps') = run_select re cfg ps
                in (Listen ''tcp'' address # serve_action cfg # actions @ [CloseIdle (close_idle_connections ps')], errors, Some ps'))))"

subsection \<open>Lemmas\<close>

lemma wait_for_states: "wait_for (registry_states xs r) \<longleftrightarrow> (\<exists>n \<le> length xs. rg_wait (reg_run (take n xs) r) = 0)"
proof (induction xs arbitrary: r)
  case (Cons x xs)
  have "(\<exists>n \<le> Suc (length xs). P n) \<longleftrightarrow> P 0 \<or> (\<exists>n \<le> length xs. P (Suc n))" for P
    by (metis Suc_le_mono le0 not0_implies_Suc)
  then show ?case by (simp add: Cons.IH reg_run_def)
qed (simp add: reg_run_def)

text \<open>Once the counter of a registry that is closing is zero, there is no tunnel any more.\<close>

lemma drained_stays:
  assumes "reg_inv r" "rg_closing r" "rg_wait (reg_run (take n xs) r) = 0"
  shows "rg_active (reg_run (take n xs) r) = []" "rg_active (reg_run xs r) = []"
proof -
  let ?m = "reg_run (take n xs) r"
  have m: "reg_inv ?m" "rg_closing ?m"
    using assms(1,2) by (simp_all add: reg_run_eq reg.inv_run reg.closing_run)
  show gone: "rg_active ?m = []" using m(1) assms(3) by (simp add: reg_inv_def)
  have "reg_run xs r = reg_run (drop n xs) ?m"
    unfolding reg_run_def by (metis append_take_drop_id fold_append comp_apply)
  then show "rg_active (reg_run xs r) = []"
    using reg.live_closing_run [OF m, of "drop n xs"] gone by (simp add: reg_run_eq)
qed

lemma reg_inv_closing: "reg_inv r \<Longrightarrow> reg_inv (r\<lparr>rg_closing := True\<rparr>)"
  by (simp add: reg_inv_def)

lemma check_server_serving:
  assumes "check_server s = None"
  shows "1024 \<le> srv_MaxHeaderBytes s" "srv_MaxHeaderBytes s \<le> 16777216" "0 < srv_ReadHeaderTimeout s" "0 < srv_IdleTimeout s"
  using assms by (auto simp: check_server_def split: if_splits)

lemma run_serves:
  assumes "run_server henv re (Some cfg) = (actions, errors, Some ps')" "ru_listen re = None"
  obtains ps rest where "new_proxy_server (ru_roots re) henv (Some cfg) = Inr ps"
    "run_select re cfg ps = (rest, errors, ps')"
    "actions = Listen ''tcp'' (join_host_port (srv_Host (cfg_Server cfg)) (itoa (nat (srv_Port (cfg_Server cfg)))))
       # serve_action cfg # rest @ [CloseIdle (close_idle_connections ps')]"
  using assms by (auto simp: run_server_def Let_def split: sum.splits prod.splits)

lemma run_select_cancelled:
  assumes "run_select re cfg ps = (rest, errors, ps')" "ru_first re = ContextDone"
  defines "closed \<equiv> (reg_run (ru_before re) (ps_tunnels ps))\<lparr>rg_closing := True\<rparr>"
  shows "rest = [ClosePairs (rg_active closed), Shutdown (srv_ShutdownTimeout (cfg_Server cfg))]
      @ (case ru_shutdown re of None \<Rightarrow> [] | Some m \<Rightarrow> [ServerClose]) @ [WaitTunnels (srv_ShutdownTimeout (cfg_Server cfg))]"
    "errors = (case ru_shutdown re of None \<Rightarrow> [] | Some m \<Rightarrow> [ShutdownFailed m])
      @ (if \<not> wait_for (registry_states (ru_after re) closed) then [TunnelsLeft] else []) @ serve_errors (ru_serve re)"
    "ps' = ps\<lparr>ps_tunnels := reg_run (ru_after re) closed\<rparr>"
  using assms(1,2) by (simp_all add: run_select_def Let_def close_all_def closed_def)

subsection \<open>Properties\<close>

text \<open>C7. A shutdown is complete, and reported truthfully. When \<open>Run\<close> is cancelled it closes the
  tunnels before it waits for anything: from then on no tunnel is admitted and every one that is
  still active was told to close. \<open>Run\<close> returns \<open>nil\<close> exactly when the HTTP server shut down in
  time, \<open>Serve\<close> ended regularly and at some moment before the deadline no tunnel was left, and
  then none is left at the end; a server that did not shut down in time is closed by force, and the
  idle connections of every upstream's transport are closed last.\<close>
theorem run_shutdown_complete:
  assumes "run_server henv re (Some cfg) = (actions, errors, Some ps')" "ru_listen re = None" "ru_first re = ContextDone"
  shows "\<exists>closed pairs more_actions.
      actions = [Listen ''tcp'' (join_host_port (srv_Host (cfg_Server cfg)) (itoa (nat (srv_Port (cfg_Server cfg))))),
        serve_action cfg, ClosePairs pairs, Shutdown (srv_ShutdownTimeout (cfg_Server cfg))] @ more_actions
          @ [CloseIdle [0..<length (cfg_Upstreams cfg)]]
    \<and> pairs = rg_active closed \<and> rg_closing closed \<and> ps_tunnels ps' = reg_run (ru_after re) closed
    \<and> set (rg_active (ps_tunnels ps')) \<subseteq> set pairs \<and> snd (track (ps_tunnels ps')) = None
    \<and> (ServerClose \<in> set more_actions \<longleftrightarrow> ru_shutdown re \<noteq> None)
    \<and> (errors = [] \<longleftrightarrow> ru_shutdown re = None \<and> ru_serve re = ErrServerClosed
         \<and> (\<exists>n \<le> length (ru_after re). rg_active (reg_run (take n (ru_after re)) closed) = []))
    \<and> (errors = [] \<longrightarrow> rg_active (ps_tunnels ps') = [])"
proof -
  obtain ps rest where ps: "new_proxy_server (ru_roots re) henv (Some cfg) = Inr ps"
    and sel: "run_select re cfg ps = (rest, errors, ps')"
    and act: "actions = Listen ''tcp'' (join_host_port (srv_Host (cfg_Server cfg)) (itoa (nat (srv_Port (cfg_Server cfg)))))
       # serve_action cfg # rest @ [CloseIdle (close_idle_connections ps')]"
    by (rule run_serves [OF assms(1,2)])
  let ?r = "reg_run (ru_before re) (ps_tunnels ps)"
  let ?closed = "?r\<lparr>rg_closing := True\<rparr>"
  have wf: "reg_inv (ps_tunnels ps)" "length (ps_transports ps) = length (cfg_Upstreams cfg)"
    using new_server_wf(1,2) [OF ps] by (simp_all add: server_wf_def)
  have inv: "reg_inv ?r" using wf(1) by (simp add: reg_run_eq reg.inv_run)
  have closed: "reg_inv ?closed" "rg_closing ?closed" using inv by (simp_all add: reg_inv_closing)
  let ?more = "(case ru_shutdown re of None \<Rightarrow> [] | Some m \<Rightarrow> [ServerClose]) @ [WaitTunnels (srv_ShutdownTimeout (cfg_Server cfg))]"
  note c = run_select_cancelled [OF sel assms(3)]
  have tunnels: "ps_tunnels ps' = reg_run (ru_after re) ?closed" and transports: "ps_transports ps' = ps_transports ps"
    by (simp_all add: c(3))
  have zero: "rg_wait (reg_run xs ?closed) = 0 \<longleftrightarrow> rg_active (reg_run xs ?closed) = []" for xs
    using reg.inv_run [OF closed(1), of xs] by (simp add: reg_run_eq reg_inv_def)
  have errors: "errors = [] \<longleftrightarrow> ru_shutdown re = None \<and> ru_serve re = ErrServerClosed
      \<and> (\<exists>n \<le> length (ru_after re). rg_active (reg_run (take n (ru_after re)) ?closed) = [])"
    unfolding c(2) wait_for_states zero by (simp add: serve_errors_def split: option.split serve_end.split)
  then have gone: "errors = [] \<longrightarrow> rg_active (ps_tunnels ps') = []"
    using drained_stays(2) [OF closed] zero unfolding tunnels by blast
  have trace: "actions = [Listen ''tcp'' (join_host_port (srv_Host (cfg_Server cfg)) (itoa (nat (srv_Port (cfg_Server cfg))))),
        serve_action cfg, ClosePairs (rg_active ?closed), Shutdown (srv_ShutdownTimeout (cfg_Server cfg))] @ ?more
          @ [CloseIdle [0..<length (cfg_Upstreams cfg)]]"
    using wf(2) by (simp add: act c(1) close_idle_connections_def transports)
  have within: "set (rg_active (ps_tunnels ps')) \<subseteq> set (rg_active ?closed)"
    and refused: "snd (track (ps_tunnels ps')) = None"
    using reg.shut_covers [OF inv, of "ru_after re"] by (simp_all add: tunnels reg_run_eq close_all_def)
  have force: "ServerClose \<in> set ?more \<longleftrightarrow> ru_shutdown re \<noteq> None" by (cases "ru_shutdown re") simp_all
  show ?thesis
    by (rule exI [of _ ?closed], rule exI [of _ "rg_active ?closed"], rule exI [of _ ?more])
      (intro conjI trace refl closed(2) tunnels within refused force errors gone)
qed

definition sample_run :: run_env where
  \<comment> \<open>two tunnels are active when \<open>Run\<close> is cancelled; both leave\<close>
  "sample_run =
     \<lparr> ru_roots = Some True, ru_listen = None, ru_before = [Track, Track], ru_first = ContextDone, ru_shutdown = None,
       ru_serve = ErrServerClosed, ru_after = [ReleasePair 1, Track, ReleasePair 0] \<rparr>"

lemma run_server_starts:
  assumes "validate henv (Some cfg) = None" "ru_roots re \<noteq> None" "ru_listen re = None"
  obtains actions errors ps' where "run_server henv re (Some cfg) = (actions, errors, Some ps')"
proof -
  obtain ts where "new_transports (ru_roots re) henv (cfg_Proxy cfg) 0 (cfg_Upstreams cfg) = Inr ts"
    by (rule valid_transports [OF assms(1,2)])
  then obtain ps where "new_proxy_server (ru_roots re) henv (Some cfg) = Inr ps"
    using assms(1) by (simp add: new_proxy_server_def Let_def)
  with assms(3) that show ?thesis by (cases "run_select re cfg ps") (simp add: run_server_def)
qed

lemma new_server_tunnels: "new_proxy_server system henv (Some cfg) = Inr ps \<Longrightarrow> ps_tunnels ps = new_registry"
  by (auto simp: new_proxy_server_def Let_def split: option.splits sum.splits)

lemma sample_run_registry:
  "rg_active (reg_run [Track, Track] new_registry) = [0, 1]"
  "wait_for (registry_states [ReleasePair 1, Track, ReleasePair 0] (reg_run [Track, Track] new_registry\<lparr>rg_closing := True\<rparr>))"
  by code_simp+

theorem run_shutdown_complete_witness:
  "\<exists>actions ps'. run_server sample_host_env sample_run (Some sample_config) = (actions, [], Some ps')
    \<and> rg_active (ps_tunnels ps') = [] \<and> actions ! 2 = ClosePairs [0, 1]"
proof -
  obtain actions errors ps' where run: "run_server sample_host_env sample_run (Some sample_config) = (actions, errors, Some ps')"
    by (rule run_server_starts [OF validate_sample, of sample_run]) (simp_all add: sample_run_def)
  have "errors = [] \<and> actions ! 2 = ClosePairs [0, 1]"
    using run sample_run_registry
    by (auto simp: run_server_def run_select_def sample_run_def serve_errors_def close_all_def Let_def new_server_tunnels
        split: sum.splits)
  moreover from this have "rg_active (ps_tunnels ps') = []"
    using run_shutdown_complete [OF run] by (auto simp: sample_run_def)
  ultimately show ?thesis using run by blast
qed

text \<open>C28. A listener that others can reach is never left open by accident: on a host that is neither
  \<open>localhost\<close> nor a loopback address \<open>Run\<close> serves plain HTTP only if the configuration allows it, serves TLS with nothing older than
  TLS 1.2 and a certificate that was valid at the start, and lets clients in without a login only if
  the configuration allows that too.\<close>
theorem public_listener_protected:
  assumes "run_server henv re (Some cfg) = (actions, errors, Some ps')" "ru_listen re = None"
    and "\<not> equal_fold (srv_Host (cfg_Server cfg)) ''localhost''"
    and "\<forall>a. parse_ip (srv_Host (cfg_Server cfg)) = Some a \<longrightarrow> \<not> is_loopback a"
  shows "(case actions ! 1 of
       ServePlain l server \<Rightarrow> srv_AllowInsecurePublicHTTP (cfg_Server cfg)
     | ServeTLS l server cert key \<Rightarrow> hs_MinVersion server = tls12
         \<and> (\<exists>leaf not_before not_after. env_load_key_pair henv cert key = Some leaf
              \<and> env_parse_leaf henv leaf = Some (not_before, not_after)
              \<and> not_before \<le> env_now henv \<and> env_now henv < not_after)
     | _ \<Rightarrow> False)
    \<and> (srv_AllowUnauthenticatedPublicProxy (cfg_Server cfg)
       \<or> (auth_Enabled (cfg_Auth (ps_config ps')) \<and> ps_authFailures ps' \<noteq> None))"
proof -
  have public: "\<not> local_host (srv_Host (cfg_Server cfg))"
    using assms(3,4) by (simp add: local_host_def split: option.split)
  obtain ps rest where ps: "new_proxy_server (ru_roots re) henv (Some cfg) = Inr ps"
    and sel: "run_select re cfg ps = (rest, errors, ps')"
    and act: "actions = Listen ''tcp'' (join_host_port (srv_Host (cfg_Server cfg)) (itoa (nat (srv_Port (cfg_Server cfg)))))
       # serve_action cfg # rest @ [CloseIdle (close_idle_connections ps')]"
    by (rule run_serves [OF assms(1,2)])
  have "validate henv (Some cfg) = None" by (rule new_server_wf(3) [OF ps])
  then have exposure: "check_exposure (cfg_Server cfg) (cfg_Auth cfg) = None"
    and cert: "check_tls henv (srv_TLS (cfg_Server cfg)) = None" by (simp_all add: validate_parts)
  have login: "srv_AllowUnauthenticatedPublicProxy (cfg_Server cfg)
       \<or> (auth_Enabled (cfg_Auth (ps_config ps')) \<and> ps_authFailures ps' \<noteq> None)"
    using exposure public sel new_server_wf(1,2) [OF ps]
    by (auto simp: check_exposure_def run_select_def server_wf_def Let_def close_all_def
        split: if_splits first_event.splits option.splits)
  show ?thesis
  proof (cases "tls_CertFile (srv_TLS (cfg_Server cfg)) = []")
    case True
    with exposure public login show ?thesis
      by (auto simp: act serve_action_def Let_def check_exposure_def split: if_splits)
  next
    case False
    with cert login show ?thesis
      by (auto simp: act serve_action_def Let_def new_http_server_def check_tls_def time_before_def split: if_splits option.splits prod.splits)
  qed
qed

definition public_config :: config where
  "public_config = sample_config\<lparr>
     cfg_Server := default_server\<lparr>srv_Host := ''0.0.0.0'', srv_AllowInsecurePublicHTTP := True\<rparr>,
     cfg_Auth := default_auth\<lparr>auth_Enabled := True, auth_Username := ''u'', auth_Password := ''p''\<rparr>\<rparr>"

lemma validate_public: "validate sample_host_env (Some public_config) = None"
    "\<not> equal_fold (srv_Host (cfg_Server public_config)) ''localhost''"
    "(case parse_ip (srv_Host (cfg_Server public_config)) of None \<Rightarrow> True | Some a \<Rightarrow> \<not> is_loopback a)"
  by code_simp+

theorem public_listener_protected_witness:
  "\<exists>actions errors ps'. run_server sample_host_env sample_run (Some public_config) = (actions, errors, Some ps')
    \<and> ps_authFailures ps' \<noteq> None"
proof -
  obtain actions errors ps' where run: "run_server sample_host_env sample_run (Some public_config) = (actions, errors, Some ps')"
    by (rule run_server_starts [OF validate_public(1), of sample_run]) (simp_all add: sample_run_def)
  have "\<not> srv_AllowUnauthenticatedPublicProxy (cfg_Server public_config)" by code_simp
  with public_listener_protected [OF run _ validate_public(2)] validate_public(3) run show ?thesis
    by (auto simp: sample_run_def split: option.splits)
qed

text \<open>C35. Every server that \<open>Run\<close> starts has sound limits: positive timeouts for the header and idle
  connections, a header of 1 KiB to 16 MiB, and connection limits with a share for each address
  within the total; one HTTP/2 connection gets at least one stream, the configured number if one
  is configured, and never more than the tunnels one address, or all of them, may hold.\<close>
theorem serve_settings_bounded:
  assumes "run_server henv re (Some cfg) = (actions, errors, Some ps')" "ru_listen re = None"
  shows "\<exists>l server. actions ! 1 \<in> {ServePlain l server,
        ServeTLS l server (tls_CertFile (srv_TLS (cfg_Server cfg))) (tls_KeyFile (srv_TLS (cfg_Server cfg)))}
    \<and> 0 < hs_ReadHeaderTimeout server \<and> 0 < hs_IdleTimeout server
    \<and> 1024 \<le> hs_MaxHeaderBytes server \<and> hs_MaxHeaderBytes server \<le> 2 ^ 24
    \<and> held_keys l = {#} \<and> 1 \<le> lim_maxPerKey l \<and> lim_maxPerKey l \<le> lim_maxTotal l
    \<and> 1 \<le> hs_MaxConcurrentStreams server
    \<and> hs_MaxConcurrentStreams server \<le> lim_maxPerKey (ps_tunnelLimiter ps')
    \<and> lim_maxPerKey (ps_tunnelLimiter ps') \<le> lim_maxTotal (ps_tunnelLimiter ps')
    \<and> hs_MaxConcurrentStreams server \<in> {srv_HTTP2MaxConcurrentStreams (cfg_Server cfg), lim_maxPerKey (ps_tunnelLimiter ps')}"
proof -
  obtain ps rest where ps: "new_proxy_server (ru_roots re) henv (Some cfg) = Inr ps"
    and sel: "run_select re cfg ps = (rest, errors, ps')"
    and act: "actions = Listen ''tcp'' (join_host_port (srv_Host (cfg_Server cfg)) (itoa (nat (srv_Port (cfg_Server cfg)))))
       # serve_action cfg # rest @ [CloseIdle (close_idle_connections ps')]"
    by (rule run_serves [OF assms])
  have v: "validate henv (Some cfg) = None" by (rule new_server_wf(3) [OF ps])
  have lim: "ps_tunnelLimiter ps' = new_limiter (prx_MaxTunnels (cfg_Proxy cfg)) (prx_MaxTunnelsPerIP (cfg_Proxy cfg))"
    using sel ps v by (auto simp: run_select_def Let_def close_all_def new_proxy_server_def split: first_event.splits sum.splits)
  note srv = v [unfolded validate_parts, THEN conjunct1]
  have prx: "check_proxy (cfg_Server cfg) (cfg_Proxy cfg) = None" using v by (simp add: validate_parts)
  show ?thesis
    using check_server_None [OF srv] check_server_serving [OF srv] check_proxy_None [OF prx]
    by (intro exI [of _ "new_limiter (srv_MaxConnections (cfg_Server cfg)) (srv_MaxConnectionsPerIP (cfg_Server cfg))"]
          exI [of _ "new_http_server cfg"])
      (auto simp: act serve_action_def Let_def new_http_server_def lim new_limiter_def held_keys_def live_keys_def
        effective_http2_max_concurrent_streams_def)
qed

theorem serve_settings_bounded_witness:
  "\<exists>actions errors ps'. run_server sample_host_env sample_run (Some sample_config) = (actions, errors, Some ps')
    \<and> 1 \<le> lim_maxPerKey (ps_tunnelLimiter ps')"
proof -
  obtain actions errors ps' where run: "run_server sample_host_env sample_run (Some sample_config) = (actions, errors, Some ps')"
    by (rule run_server_starts [OF validate_sample, of sample_run]) (simp_all add: sample_run_def)
  then show ?thesis
    using serve_settings_bounded [OF run] by (fastforce simp: sample_run_def)
qed

end
