(* ===== verification/Spec2Isabelle.thy ===== *)
theory Spec2Isabelle
  imports Prelude GoStrings GoCodec GoNet GoDuration GoSha256 Config EnvConfig Validate Balancer Limits AuthLimit
    Headers Auth Socks ConnectReply Connect IoCopy Watchdog HttpMessages HttpBody HttpSetup HttpForward
    Relay Tunnels Transports Server RunServer
begin

text \<open>
  A verification library of go_proxy_mux, an HTTP forward proxy that spreads the requests and
  \<open>CONNECT\<close> tunnels of its clients over a pool of HTTP, HTTPS, SOCKS4 and SOCKS5 upstream proxies.
  All paths are under \<open>src/\<close>.

  \<^bold>\<open>The program.\<close> \<open>cmd/go_proxy_mux/main.go\<close> loads the configuration (\<open>internal/config\<close>: defaults, a YAML
  file, a \<open>.env\<close> file and the process environment, then \<open>Validate\<close>) and calls \<open>Run\<close>. \<open>Run\<close> builds a
  \<open>ProxyServer\<close>, listens through a listener that limits connections, and serves until it is
  cancelled. \<open>ServeHTTP\<close> checks the login against the failed-login limiter, asks the balancer for an
  upstream, and then either sets up a tunnel (\<open>handleConnect\<close>: a tunnel slot, \<open>dialConnect\<close> through the
  upstream, one alternate on failure, then the relay) or forwards the request (\<open>forwardRequest\<close>: clean
  headers, \<open>doHTTPRequest\<close> with its setup timer, one alternate for requests that can be repeated, then
  the copy of the body).

  \<^bold>\<open>The theories\<close>, from the bottom up. The state of a component is a record with the source's fields, an
  operation is a function on it, an error is a value.

  \<^item> \<open>Prelude\<close>: instants, durations and \<open>int64\<close> arithmetic; generic lemmas; the collection \<open>inv_intros\<close>.
    \<open>GoStrings\<close>, \<open>GoCodec\<close>, \<open>GoNet\<close>, \<open>GoDuration\<close>, \<open>GoSha256\<close>, \<open>IoCopy\<close>: what the program uses of Go's
    \<open>strings\<close>, \<open>strconv\<close>, \<open>base64\<close>, \<open>net\<close>, \<open>time.ParseDuration\<close>, \<open>sha256\<close> and \<open>io.Copy\<close>.
  \<^item> \<open>Config\<close> (\<open>internal/config/config.go\<close>: the records and \<open>Default\<close>), \<open>EnvConfig\<close> (\<open>env.go\<close> and \<open>LoadConfig\<close>,
    \<open>LoadConfigWithEnv\<close>, \<open>Duration.UnmarshalYAML\<close>), \<open>Validate\<close> (\<open>validate.go\<close>: \<open>Validate\<close>, \<open>UpstreamURL\<close>).
  \<^item> \<open>Balancer\<close> (\<open>internal/balancer/balancer.go\<close>: \<open>New\<close>, \<open>Next\<close>, \<open>MarkFailure\<close>, \<open>MarkSuccess\<close>).
  \<^item> \<open>Limits\<close> (\<open>internal/proxy/limits.go\<close>), \<open>AuthLimit\<close> (\<open>auth_limit.go\<close>, with the linked list and the map of
    records as explicit pointers), \<open>Headers\<close> (\<open>headers.go\<close>), \<open>Auth\<close> (\<open>auth.go\<close>).
  \<^item> \<open>Socks\<close> (\<open>internal/socks/socks.go\<close>: \<open>DialContext\<close> and both handshakes), \<open>ConnectReply\<close> (the reader of an
    upstream's reply in \<open>connect.go\<close>), \<open>Connect\<close> (\<open>handleConnect\<close> with its relay, \<open>dialConnect\<close>, \<open>setupError\<close>).
  \<^item> \<open>Watchdog\<close> (the contract of an idle timer), \<open>Relay\<close> (\<open>relay\<close> and \<open>idleCloser\<close> of \<open>tunnel.go\<close>), \<open>Tunnels\<close> (the
    registry, \<open>relayHTTP1\<close>, \<open>relayHTTP2\<close>).
  \<^item> \<open>HttpMessages\<close>, \<open>HttpBody\<close> (\<open>http_body.go\<close>), \<open>HttpSetup\<close> (\<open>doHTTPRequest\<close>), \<open>HttpForward\<close> (\<open>forwardRequest\<close>), all of
    \<open>http.go\<close>.
  \<^item> \<open>Transports\<close> (\<open>NewProxyServer\<close>), \<open>Server\<close> (\<open>ServeHTTP\<close>, \<open>closeIdleConnections\<close>), \<open>RunServer\<close> (\<open>run.go\<close>).

  \<^bold>\<open>Interfaces.\<close> Where one part relies on another the contract is a locale, proved once and interpreted on
  the code's model: \<open>upstream_selector\<close> (\<open>Balancer\<close>; used by \<open>Connect\<close>, \<open>HttpForward\<close>, \<open>Server\<close>), \<open>slot_limiter\<close>
  (\<open>Limits\<close>; the connections of the listener and the tunnels), \<open>login_throttle\<close> (\<open>AuthLimit\<close>; used by \<open>Server\<close>),
  \<open>tunnel_tracker\<close> (\<open>Tunnels\<close>; used by the handlers and by \<open>Run\<close>) and \<open>watchdog\<close> (interpreted twice, on the
  monitor of a response body and on the idle timer of a tunnel).

  \<^bold>\<open>Concurrency.\<close> An operation that runs under a mutex is one step; what other requests do between two
  steps of a request is a list of operations of the component, over which the theorems quantify.
  Where goroutines of one request interleave, the model is a step relation: \<open>setup_step\<close> for the race
  of the setup timer with the answer, \<open>relay_step\<close> for the two directions of a tunnel, its timer and
  whoever closes it; \<open>relay_exec\<close> is the same relation as a function. The body copy is a run over its
  reads, writes, timer events and the end of the client's context; the first cause of a context
  counts, as in \<open>context.WithCancelCause\<close>. A handler whose relay or copy has not ended yet is a result
  of its own: its tunnel slot is then still held, its deferred calls have not run. Clocks, random draws, bytes received, results of writes, dials and
  timers are arguments (records named \<open>..._env\<close>).

  \<^bold>\<open>Bounds.\<close> No definition needs fuel beyond what the code itself bounds: the two attempts of \<open>handleConnect\<close>
  and \<open>forwardRequest\<close> are a counter that starts at 2, a proof shows that its end is never reached; the
  head of a reply is limited to 64 KiB, a \<open>.env\<close> line to the 1 MiB of its scanner's buffer. A
  \<open>bufio.Reader\<close> is the bytes it will still give; how many of them it has already taken from its
  connection (\<open>ci_buffered\<close>) is the environment's choice. Every function is total
  by structural recursion or a measure; a panic of the source is \<open>None\<close>, and \<open>serve_http_safe\<close> shows that
  requests do not reach one. Once a tunnel has been closed the relay takes at most 23 more steps.

  \<^bold>\<open>What the lemmas show.\<close>
  \<^item> Configuration: precedence of the sources and exact conversion (\<open>EnvConfig\<close>); what a passing
    validation guarantees, used up to \<open>Run\<close>: construction cannot fail, public listeners are protected,
    the limits are sound (\<open>Transports\<close>, \<open>RunServer\<close>).
  \<^item> State machines and limits: quarantine, recovery and fairness of the selector; limits never exceeded,
    slots and registrations always given back; the linked-list limiter refines an abstract table; the
    well-formedness \<open>server_wf\<close> of the whole server is established by \<open>NewProxyServer\<close> and kept by every
    request (\<open>Server\<close>).
  \<^item> Protocols: exact bytes and round trips of SOCKS4, SOCKS5 and HTTP \<open>CONNECT\<close>, no bytes read beyond a
    head, no header injection, everything closed on an error.
  \<^item> Data: a tunnel and a response body deliver every byte in order or say so; idle timeouts are exact;
    a request is repeated only if it can be; a truncated answer is never passed off as complete; the
    bodies, contexts and connections of an attempt are released when its handler has ended.
  \<^item> Shutdown: no tunnel is admitted after \<open>closeAll\<close>, every one is told to close, and \<open>Run\<close>'s result says
    exactly whether all have ended.

  The model also shows where the code departs from its intention: a \<open>proxy.timeout\<close> from 9223372037 to
  18446744073 passes validation and wraps to a negative duration (\<open>Connect.setup_timeout_exact\<close>); a \<open>Connection\<close> field that names
  \<open>Proxy-Connection\<close> protects the fields that one nominates (\<open>Headers.remove_hop_headers_exact\<close>); a plain
  request through a SOCKS upstream does not use the configured network
  (\<open>Transports.transports_match_upstreams\<close>).

  \<^bold>\<open>Not modelled.\<close> The YAML decoder, \<open>net/url.Parse\<close>, TLS, certificates and the file system are
  parameters (\<open>host_env\<close>, \<open>connect_io\<close>); the server and the transport of \<open>net/http\<close>, which decide when a
  handler is called and when \<open>Do\<close>, \<open>Serve\<close> and \<open>Shutdown\<close> return, are environment. Logging, flags and signals,
  the tests, scripts and container files are left out, and so are the fields of \<open>ProxyServer\<close> that only
  repeat others (the clients around the transports, the TLS configurations). \<open>closeWrite\<close> and the
  \<open>CloseWrite\<close> and \<open>Write\<close> methods that only pass on the result of a call appear as that result.
\<close>

end
